(* ===== verification/Prelude.thy ===== *)
theory Prelude
  imports Complex_Main "HOL-Library.Word" "HOL-Library.Multiset"
begin

text \<open>
  Shared vocabulary of the development: the collections of simplification rules the
  component theories extend, the swap of two array cells, and a few facts on lists
  that several components use.
\<close>

named_theorems kernel_defs \<open>definitions a component proof unfolds\<close>
named_theorems kernel_frame \<open>frame facts: what an operation leaves unchanged\<close>

unbundle bit_operations_syntax

subsection \<open>Swapping two cells of an array\<close>

definition swap_cells :: "'a list \<Rightarrow> nat \<Rightarrow> nat \<Rightarrow> 'a list" where
  "swap_cells xs i j = xs[i := xs ! j, j := xs ! i]"

lemma length_swap_cells [simp]: "length (swap_cells xs i j) = length xs"
  by (simp add: swap_cells_def)

lemma nth_swap_cells:
  assumes "i < length xs" "j < length xs" "k < length xs"
  shows "swap_cells xs i j ! k = (if k = i then xs ! j else if k = j then xs ! i else xs ! k)"
  using assms by (auto simp: swap_cells_def nth_list_update)

lemma mset_swap_cells [simp]:
  assumes "i < length xs" "j < length xs"
  shows "mset (swap_cells xs i j) = mset xs"
  using assms by (simp add: swap_cells_def mset_swap)

lemma set_swap_cells [simp]:
  assumes "i < length xs" "j < length xs"
  shows "set (swap_cells xs i j) = set xs"
  using mset_swap_cells [OF assms] by (metis set_mset_mset)

lemma swap_cells_take:
  assumes "i < n" "j < n"
  shows "swap_cells (take n xs) i j = take n (swap_cells xs i j)"
  using assms by (simp add: swap_cells_def take_update_swap)

subsection \<open>Lists\<close>

lemma distinct_snoc [simp]: "distinct (xs @ [x]) \<longleftrightarrow> distinct xs \<and> x \<notin> set xs"
  by simp

lemma mset_butlast_last: "xs \<noteq> [] \<Longrightarrow> mset xs = add_mset (last xs) (mset (butlast xs))"
  by (metis append_butlast_last_id mset_append mset_single_iff_right union_mset_add_mset_right
      add_mset_add_single)

end
