(* ===== verification/Js_Number.thy ===== *)
theory Js_Number
  imports Prelude "HOL-Library.Log_Nat"
begin

text \<open>
  The numbers of the program: IEEE double arithmetic on rationals, \<open>Math.round\<close>, and the
  fixed-point conversions of \<open>runtime-index/format-primitives.ts\<close> and
  \<open>query/kernel-types.ts\<close>.
\<close>

subsection \<open>IEEE doubles\<close>

definition ilog2 :: "nat \<Rightarrow> int" where
  "ilog2 n = int (floorlog 2 n) - 1"

definition exponent_of :: "rat \<Rightarrow> int" where
  "exponent_of x =
     (let (p, q) = quotient_of x; e = ilog2 (nat p) - ilog2 (nat q)
      in if 2 powi e \<le> x then e else e - 1)"

definition round_half_even :: "rat \<Rightarrow> int" where
  "round_half_even x =
     (let f = \<lfloor>x\<rfloor>; d = x - of_int f
      in if d < 1 / 2 then f else if 1 / 2 < d then f + 1 else if even f then f else f + 1)"

definition fl :: "rat \<Rightarrow> rat" where
  "fl x =
     (if x = 0 then 0
      else let u = 2 powi (exponent_of \<bar>x\<bar> - 52)
           in sgn x * (of_int (round_half_even (\<bar>x\<bar> / u)) * u))"

lemma ilog2_bounds:
  assumes "0 < n"
  shows "(2::rat) powi (ilog2 n) \<le> of_nat n \<and> of_nat n < (2::rat) powi (ilog2 n + 1)"
proof -
  have f: "0 < floorlog 2 n" using assms by (simp add: floorlog_def)
  have b: "2 ^ (floorlog 2 n - 1) \<le> n \<and> n < 2 ^ floorlog 2 n"
    using floorlog_bounds [of n 2] assms by simp
  have e1: "(2::rat) powi (ilog2 n) = 2 ^ (floorlog 2 n - 1)"
    using f by (simp add: ilog2_def power_int_def nat_diff_distrib)
  have e2: "(2::rat) powi (ilog2 n + 1) = 2 ^ floorlog 2 n"
    by (simp add: ilog2_def)
  from b have "of_nat (2 ^ (floorlog 2 n - 1)) \<le> (of_nat n :: rat)"
    and "(of_nat n :: rat) < of_nat (2 ^ floorlog 2 n)"
    by (simp_all only: of_nat_le_iff of_nat_less_iff)
  then show ?thesis by (simp add: e1 e2)
qed

lemma exponent_of_bounds:
  assumes "0 < x"
  shows "2 powi (exponent_of x) \<le> x \<and> x < 2 powi (exponent_of x + 1)"
proof -
  obtain p q where pq: "quotient_of x = (p, q)" by (cases "quotient_of x")
  have q: "0 < q" using quotient_of_denom_pos [OF pq] .
  have x: "x = of_int p / of_int q" using quotient_of_div [OF pq] .
  have p: "0 < p" using assms q unfolding x by (simp add: zero_less_divide_iff)
  define a b where "a = ilog2 (nat p)" and "b = ilog2 (nat q)"
  have P: "(2::rat) powi a \<le> of_int p" "of_int p < (2::rat) powi (a + 1)"
    using ilog2_bounds [of "nat p"] p by (simp_all add: a_def)
  have Q: "(2::rat) powi b \<le> of_int q" "of_int q < (2::rat) powi (b + 1)"
    using ilog2_bounds [of "nat q"] q by (simp_all add: b_def)
  have pos: "(0::rat) < 2 powi k" for k :: int by simp
  have lo: "2 powi (a - b - 1) < x"
  proof -
    have "(2::rat) powi (a - b - 1) * of_int q < 2 powi (a - b - 1) * 2 powi (b + 1)"
      using Q(2) pos by (simp add: mult_strict_left_mono)
    also have "\<dots> = 2 powi a" by (simp flip: power_int_add)
    also have "\<dots> \<le> of_int p" by (rule P(1))
    finally show ?thesis using q by (simp add: x pos_less_divide_eq)
  qed
  have hi: "x < 2 powi (a - b + 1)"
  proof -
    have "of_int p < (2::rat) powi (a + 1)" by (rule P(2))
    also have "\<dots> = 2 powi (a - b + 1) * 2 powi b" by (simp flip: power_int_add)
    also have "\<dots> \<le> 2 powi (a - b + 1) * of_int q"
      using Q(1) pos by (simp add: mult_left_mono)
    finally show ?thesis using q by (simp add: x pos_divide_less_eq)
  qed
  show ?thesis
    using lo hi by (auto simp: exponent_of_def pq a_def b_def Let_def)
qed


lemma round_half_even_floor: "\<lfloor>x\<rfloor> \<le> round_half_even x \<and> round_half_even x \<le> \<lfloor>x\<rfloor> + 1"
  by (simp add: round_half_even_def Let_def)

lemma round_half_even_of_int [simp]: "round_half_even (of_int k) = k"
  by (simp add: round_half_even_def)

lemma round_half_even_mono:
  assumes "x \<le> y"
  shows "round_half_even x \<le> round_half_even y"
proof (cases "\<lfloor>x\<rfloor> = \<lfloor>y\<rfloor>")
  case True
  then show ?thesis using assms by (auto simp: round_half_even_def Let_def)
next
  case False
  then have "\<lfloor>x\<rfloor> + 1 \<le> \<lfloor>y\<rfloor>" using floor_mono [OF assms] by simp
  then show ?thesis using round_half_even_floor [of x] round_half_even_floor [of y] by linarith
qed

lemma fl_zero [simp]: "fl 0 = 0"
  by (simp add: fl_def)

lemma fl_pos:
  assumes "0 < x"
  shows "fl x = of_int (round_half_even (x / 2 powi (exponent_of x - 52))) * 2 powi (exponent_of x - 52)"
  using assms by (simp add: fl_def Let_def)

lemma fl_minus: "fl (- x) = - fl x"
  by (simp add: fl_def Let_def)

lemma exponent_of_mono:
  assumes "0 < x" "x \<le> y"
  shows "exponent_of x \<le> exponent_of y"
proof (rule ccontr)
  assume "\<not> exponent_of x \<le> exponent_of y"
  then have "(2::rat) powi (exponent_of y + 1) \<le> 2 powi (exponent_of x)"
    by (simp add: power_int_increasing)
  then show False
    using exponent_of_bounds [of x] exponent_of_bounds [of y] assms by linarith
qed

lemma powi_52: "4503599627370496 * (2::rat) powi (e - 52) = 2 powi e"
  and powi_53: "9007199254740992 * (2::rat) powi (e - 52) = 2 powi (e + 1)"
  by (simp_all add: power_int_diff power_int_add)

lemma mantissa_bounds:
  assumes "0 < x"
  shows "2 ^ 52 \<le> round_half_even (x / 2 powi (exponent_of x - 52))"
    and "round_half_even (x / 2 powi (exponent_of x - 52)) \<le> 2 ^ 53"
proof -
  let ?u = "(2::rat) powi (exponent_of x - 52)"
  note b = exponent_of_bounds [OF assms]
  have lo: "of_int (2 ^ 52) \<le> x / ?u"
    using b by (simp add: pos_le_divide_eq powi_52)
  have hi: "x / ?u \<le> of_int (2 ^ 53)"
    using b by (simp add: pos_divide_le_eq powi_53)
  from round_half_even_mono [OF lo] round_half_even_mono [OF hi]
  show "2 ^ 52 \<le> round_half_even (x / ?u)" and "round_half_even (x / ?u) \<le> 2 ^ 53"
    by (simp_all only: round_half_even_of_int)
qed

lemma fl_mono_pos:
  assumes "0 < x" "x \<le> y"
  shows "fl x \<le> fl y"
proof -
  have y: "0 < y" using assms by simp
  let ?ex = "exponent_of x" and ?ey = "exponent_of y"
  show ?thesis
  proof (cases "?ex = ?ey")
    case True
    have "round_half_even (x / 2 powi (?ey - 52)) \<le> round_half_even (y / 2 powi (?ey - 52))"
      using assms by (intro round_half_even_mono divide_right_mono) simp_all
    then show ?thesis
      using True by (simp add: fl_pos assms(1) y mult_right_mono)
  next
    case False
    then have lt: "?ex + 1 \<le> ?ey" using exponent_of_mono [OF assms] by simp
    have "fl x \<le> of_int (2 ^ 53) * 2 powi (?ex - 52)"
      unfolding fl_pos [OF assms(1)]
      by (rule mult_right_mono) (simp_all only: of_int_le_iff mantissa_bounds assms, simp)
    also have "\<dots> = 2 powi (?ex + 1)" by (simp add: powi_53)
    also have "\<dots> \<le> 2 powi ?ey" using lt by (simp add: power_int_increasing)
    also have "\<dots> = of_int (2 ^ 52) * 2 powi (?ey - 52)"
      by (simp add: powi_52)
    also have "\<dots> \<le> fl y"
      unfolding fl_pos [OF y]
      by (rule mult_right_mono) (simp_all only: of_int_le_iff mantissa_bounds y, simp)
    finally show ?thesis .
  qed
qed

lemma fl_nonneg: "0 \<le> x \<Longrightarrow> 0 \<le> fl x"
  using mantissa_bounds(1) [of x]
  by (cases "x = 0") (auto simp: fl_pos intro!: mult_nonneg_nonneg)

lemma fl_mono:
  assumes "x \<le> y"
  shows "fl x \<le> fl y"
proof -
  consider "0 < x" | "x \<le> 0" "0 \<le> y" | "y < 0" by linarith
  then show ?thesis
  proof cases
    case 1
    then show ?thesis using assms by (rule fl_mono_pos)
  next
    case 2
    then show ?thesis using fl_nonneg [of y] fl_nonneg [of "- x"] by (simp add: fl_minus)
  next
    case 3
    then show ?thesis using fl_mono_pos [of "- y" "- x"] assms by (simp add: fl_minus)
  qed
qed

text \<open>A dyadic rational whose mantissa fits 53 bits is a double: rounding does not move it.\<close>

lemma fl_dyadic:
  assumes "\<bar>k\<bar> < 2 ^ 53"
  shows "fl (of_int k * 2 powi j) = of_int k * 2 powi j"
proof -
  have pos: "fl (of_int k * 2 powi j) = of_int k * 2 powi j" if k: "0 < k" "k < 2 ^ 53" for k :: int
  proof -
    define x where "x = of_int k * (2::rat) powi j"
    have x: "0 < x" using k by (simp add: x_def)
    have "of_int k < (of_int (2 ^ 53) :: rat)" using k(2) by (simp only: of_int_less_iff)
    then have "x < 2 powi (53 + j)"
      by (simp add: x_def power_int_add)
    with exponent_of_bounds [OF x] have "(2::rat) powi exponent_of x < 2 powi (53 + j)" by linarith
    then have lt: "\<not> (2::rat) powi (53 + j) \<le> 2 powi exponent_of x" by (simp only: not_le)
    have "exponent_of x < 53 + j"
    proof (rule ccontr)
      assume "\<not> exponent_of x < 53 + j"
      then have "(2::rat) powi (53 + j) \<le> 2 powi exponent_of x"
        by (intro power_int_increasing) simp_all
      with lt show False ..
    qed
    then obtain d :: nat where "j - (exponent_of x - 52) = int d"
      using zero_le_imp_eq_int [of "j - (exponent_of x - 52)"] by auto
    then have d: "j = exponent_of x - 52 + int d" by linarith
    let ?u = "(2::rat) powi (exponent_of x - 52)"
    have x_eq: "x = of_int (k * 2 ^ d) * ?u"
    proof -
      have "(2::rat) powi j = 2 ^ d * ?u" by (subst d) (simp add: power_int_add)
      moreover have "x = of_int k * 2 powi j" by (rule x_def)
      ultimately show ?thesis by simp
    qed
    have "0 < ?u" by simp
    then have "of_int (k * 2 ^ d) * ?u / ?u = of_int (k * 2 ^ d)" by (intro nonzero_mult_div_cancel_right) simp
    with x_eq have "x / ?u = of_int (k * 2 ^ d)" by argo
    then have "fl x = of_int (k * 2 ^ d) * ?u"
      unfolding fl_pos [OF x] by (simp only: round_half_even_of_int)
    also have "\<dots> = x" by (rule x_eq [symmetric])
    finally show ?thesis by (simp only: x_def)
  qed
  consider "k = 0" | "0 < k" | "k < 0" by linarith
  then show ?thesis
  proof cases
    case 1
    then show ?thesis by simp
  next
    case 2
    then show ?thesis using pos assms by simp
  next
    case 3
    then show ?thesis using pos [of "- k"] assms by (simp add: fl_minus)
  qed
qed

lemma fl_of_int: "\<bar>k\<bar> < 2 ^ 53 \<Longrightarrow> fl (of_int k) = of_int k"
  using fl_dyadic [of k 0] by simp


subsection \<open>Math.round and the fixed-point conversions\<close>

datatype js_number = Finite rat | Not_finite

definition math_round :: "rat \<Rightarrow> int" where
  "math_round x = \<lfloor>x + 1 / 2\<rfloor>"

definition CONTEXT_INDEX_FIXED_POINT_SCALE :: int where
  "CONTEXT_INDEX_FIXED_POINT_SCALE = 1000"

definition CONTEXT_INDEX_TRUST_SCALE :: int where
  "CONTEXT_INDEX_TRUST_SCALE = 65535"

definition toFixedPoint :: "js_number \<Rightarrow> int \<Rightarrow> int" where
  "toFixedPoint v scale = (case v of Not_finite \<Rightarrow> 0 | Finite x \<Rightarrow> math_round (fl (x * of_int scale)))"

definition fromFixedPoint :: "int \<Rightarrow> int \<Rightarrow> rat" where
  "fromFixedPoint v scale = fl (of_int v / of_int scale)"

definition quantizeTrust :: "js_number \<Rightarrow> int" where
  "quantizeTrust v = (case v of Not_finite \<Rightarrow> 0
     | Finite x \<Rightarrow>
         (let clamped = if x \<le> 0 then 0 else if 1 \<le> x then 1 else x
          in math_round (fl (clamped * of_int CONTEXT_INDEX_TRUST_SCALE))))"

definition dequantizeTrust :: "int \<Rightarrow> rat" where
  "dequantizeTrust v = fl (of_int v / of_int CONTEXT_INDEX_TRUST_SCALE)"

definition I64_MIN :: int where "I64_MIN = - (2 ^ 63)"
definition I64_MAX :: int where "I64_MAX = 2 ^ 63 - 1"

definition clampScore :: "int \<Rightarrow> int" where
  "clampScore v = (if I64_MAX < v then I64_MAX else if v < I64_MIN then I64_MIN else v)"

definition mulFixed :: "int \<Rightarrow> int \<Rightarrow> int \<Rightarrow> int" where
  "mulFixed a b scale = math_round (fl (fl (of_int (a * b)) / of_int scale))"

lemma math_round_mono: "x \<le> y \<Longrightarrow> math_round x \<le> math_round y"
  by (simp add: math_round_def floor_mono)

lemma math_round_of_int [simp]: "math_round (of_int k) = k"
  unfolding math_round_def by linarith

lemma math_round_fl_bounds:
  assumes "of_int lo \<le> x" "x \<le> of_int hi" "\<bar>lo\<bar> < 2 ^ 53" "\<bar>hi\<bar> < 2 ^ 53"
  shows "lo \<le> math_round (fl x)" "math_round (fl x) \<le> hi"
  using math_round_mono [OF fl_mono [OF assms(1)]] math_round_mono [OF fl_mono [OF assms(2)]]
    assms(3,4)
  by (simp_all add: fl_of_int)

text \<open>
  Rounding in double precision lands on the integer the exact quotient rounds to, as long
  as the quotient keeps 1/2048 away from the half below the next integer.
\<close>

lemma math_round_fl:
  assumes "of_int n - 1 / 2 \<le> x" "x \<le> of_int n + 1 / 2 - 1 / 2048" "\<bar>n\<bar> < 2 ^ 41"
  shows "math_round (fl x) = n"
proof -
  have lo: "fl (of_int n - 1 / 2) = of_int n - 1 / 2"
    using fl_dyadic [of "2 * n - 1" "- 1"] assms(3) by (simp add: power_int_def field_simps)
  have e: "of_int n + 1 / 2 - 1 / 2048 = (of_int (2048 * n + 1023) * 2 powi (- 11) :: rat)"
    by (simp add: power_int_def field_simps)
  have hi: "fl (of_int n + 1 / 2 - 1 / 2048) = of_int n + 1 / 2 - 1 / 2048"
    unfolding e using assms(3) by (intro fl_dyadic) simp
  from fl_mono [OF assms(1)] fl_mono [OF assms(2)]
  have "of_int n - 1 / 2 \<le> fl x" "fl x \<le> of_int n + 1 / 2 - 1 / 2048" by (simp_all only: lo hi)
  then show ?thesis unfolding math_round_def by linarith
qed

lemma mulFixed_eq:
  assumes "\<bar>a * b\<bar> < 2 ^ 50"
  shows "mulFixed a b 1000 = (2 * (a * b) + 1000) div 2000"
proof -
  define n where "n = (2 * (a * b) + 1000) div 2000"
  have "2000 * n \<le> 2 * (a * b) + 1000" "2 * (a * b) + 1000 < 2000 * n + 2000"
    by (simp_all add: n_def)
  then have l: "2000 * n - 1000 \<le> 2 * (a * b)" and u: "2 * (a * b) \<le> 2000 * n + 998" by presburger+
  have l': "(of_int (2000 * n - 1000) :: rat) \<le> of_int (2 * (a * b))" using l by (simp only: of_int_le_iff)
  have u': "(of_int (2 * (a * b)) :: rat) \<le> of_int (2000 * n + 998)" using u by (simp only: of_int_le_iff)
  have x: "fl (of_int (a * b)) = (of_int (a * b) :: rat)"
    using assms by (intro fl_of_int) simp
  have "math_round (fl (of_int (a * b) / 1000)) = n"
  proof (rule math_round_fl)
    show "of_int n - 1 / 2 \<le> (of_int (a * b) / 1000 :: rat)" using l' by simp
    show "(of_int (a * b) / 1000 :: rat) \<le> of_int n + 1 / 2 - 1 / 2048" using u' by simp
    show "\<bar>n\<bar> < 2 ^ 41" using l u assms by simp
  qed
  then show ?thesis unfolding mulFixed_def x n_def by simp
qed

lemma mulFixed_bounds:
  assumes "lo * 1000 \<le> a * b" "a * b \<le> hi * 1000" "\<bar>lo\<bar> < 2 ^ 40" "\<bar>hi\<bar> < 2 ^ 40"
  shows "lo \<le> mulFixed a b 1000" "mulFixed a b 1000 \<le> hi"
proof -
  have "\<bar>a * b\<bar> < 2 ^ 50" using assms by simp
  then show "lo \<le> mulFixed a b 1000" "mulFixed a b 1000 \<le> hi"
    using assms by (simp_all add: mulFixed_eq)
qed

lemma clampScore_bounds: "I64_MIN \<le> clampScore v \<and> clampScore v \<le> I64_MAX"
  by (simp add: clampScore_def I64_MIN_def I64_MAX_def)

lemma clampScore_id: "I64_MIN \<le> v \<Longrightarrow> v \<le> I64_MAX \<Longrightarrow> clampScore v = v"
  by (simp add: clampScore_def)

lemma clampScore_mono: "v \<le> w \<Longrightarrow> clampScore v \<le> clampScore w"
  by (auto simp: clampScore_def I64_MIN_def I64_MAX_def)

lemma quantizeTrust_range: "0 \<le> quantizeTrust v \<and> quantizeTrust v \<le> 65535"
proof (cases v)
  case (Finite x)
  define c where "c = (if x \<le> 0 then 0 else if 1 \<le> x then 1 else x)"
  have "of_int 0 \<le> c * 65535" "c * 65535 \<le> of_int 65535" by (auto simp: c_def)
  from math_round_fl_bounds [OF this] show ?thesis
    by (simp add: quantizeTrust_def Finite Let_def CONTEXT_INDEX_TRUST_SCALE_def flip: c_def)
qed (simp add: quantizeTrust_def)

text \<open>
  One rounding moves a value by at most one part in \<open>2 ^ 53\<close>; this is enough to evaluate
  the fixed-point image of a decimal literal.
\<close>

lemma round_half_even_close: "\<bar>of_int (round_half_even x) - x\<bar> \<le> 1 / 2"
proof -
  have "of_int \<lfloor>x\<rfloor> \<le> x" "x < of_int \<lfloor>x\<rfloor> + 1" by linarith+
  then show ?thesis unfolding round_half_even_def Let_def abs_if
    by (cases "even \<lfloor>x\<rfloor>") (simp_all split: if_splits, linarith+)
qed

lemma fl_close:
  assumes "0 \<le> x"
  shows "\<bar>fl x - x\<bar> \<le> x / 2 ^ 53"
proof (cases "x = 0")
  case False
  with assms have x: "0 < x" by simp
  define u where "u = (2::rat) powi (exponent_of x - 52)"
  have u: "0 < u" by (simp add: u_def)
  have "\<bar>of_int (round_half_even (x / u)) - x / u\<bar> * u \<le> 1 / 2 * u"
    using round_half_even_close u by (intro mult_right_mono) simp_all
  moreover have "\<bar>of_int (round_half_even (x / u)) - x / u\<bar> * u = \<bar>fl x - x\<bar>"
    using u by (simp add: fl_pos [OF x] abs_mult_pos left_diff_distrib flip: u_def)
  moreover have "4503599627370496 * u \<le> x"
    using exponent_of_bounds [OF x] by (simp add: u_def powi_52)
  ultimately show ?thesis by simp
qed simp

lemma toFixedPoint_near:
  assumes "0 \<le> x" "x \<le> 2 ^ 30" "\<bar>x * 1000 - of_int n\<bar> \<le> 1 / 4"
  shows "toFixedPoint (Finite x) 1000 = n"
proof -
  have n: "of_int n \<le> x * 1000 + 1 / 4" "x * 1000 - 1 / 4 \<le> of_int n"
    using assms(3) unfolding abs_le_iff by linarith+
  have "of_int n \<le> (of_int (2 ^ 30 * 1000 + 1) :: rat)" "(of_int (- 1) :: rat) \<le> of_int n"
    using n assms(1,2) by simp_all
  then have "n \<le> 2 ^ 30 * 1000 + 1" "- 1 \<le> n" by (simp_all only: of_int_le_iff)
  then have "\<bar>n\<bar> < 2 ^ 41" by simp
  moreover have "of_int n - 1 / 2 \<le> x * 1000" "x * 1000 \<le> of_int n + 1 / 2 - 1 / 2048"
    using n by linarith+
  ultimately have "math_round (fl (x * 1000)) = n" by (intro math_round_fl)
  then show ?thesis by (simp add: toFixedPoint_def)
qed

lemma fl_le_dyadic: "0 \<le> x \<Longrightarrow> x \<le> 2 ^ 30 \<Longrightarrow> fl x \<le> 2 ^ 30"
  using fl_mono [of x "of_int (2 ^ 30)"] fl_of_int [of "2 ^ 30"] by simp

lemma toFixedPoint_literal:
  assumes "0 \<le> v" "v \<le> 2 ^ 30" "\<bar>v * 1000 - of_int n\<bar> \<le> 1 / 8"
  shows "toFixedPoint (Finite (fl v)) 1000 = n"
proof (rule toFixedPoint_near)
  show "0 \<le> fl v" using assms(1) by (rule fl_nonneg)
  show "fl v \<le> 2 ^ 30" using assms by (intro fl_le_dyadic)
  show "\<bar>fl v * 1000 - of_int n\<bar> \<le> 1 / 4"
    using fl_close [OF assms(1)] assms unfolding abs_le_iff by (simp add: field_simps)
qed

lemma toFixedPoint_nonneg: "0 \<le> x \<Longrightarrow> 0 \<le> toFixedPoint (Finite x) 1000"
  using fl_nonneg [of "x * 1000"] math_round_mono [of 0 "fl (x * 1000)"] math_round_of_int [of 0]
  by (simp add: toFixedPoint_def)

subsection \<open>Typed array cells\<close>

text \<open>Storing a number in an \<open>Int32Array\<close> keeps its low 32 bits, read as a signed integer.\<close>

definition to_int32 :: "int \<Rightarrow> int" where
  "to_int32 v = sint (word_of_int v :: 32 word)"

lemma to_int32_id [simp]: "- (2 ^ 31) \<le> v \<Longrightarrow> v < 2 ^ 31 \<Longrightarrow> to_int32 v = v"
  by (simp add: to_int32_def sint_sbintrunc' signed_take_bit_int_eq_self)

lemma to_int32_range: "- (2 ^ 31) \<le> to_int32 v \<and> to_int32 v < 2 ^ 31"
  unfolding to_int32_def
  using sint_ge [of "word_of_int v :: 32 word"] sint_lt [of "word_of_int v :: 32 word"] by simp

lemma to_int32_wraps: "to_int32 (2 ^ 31) = - (2 ^ 31)"
  by (simp add: to_int32_def)

end
