(* ===== verification/Graph_Contracts.thy ===== *)
theory Graph_Contracts
  imports Js_Number
begin

text \<open>
  The vocabulary of the context graph (\<open>contracts.ts\<close>), the codes the binary index stores
  for it (\<open>runtime-index/reader-layout.ts\<close>, \<open>writer-contract.ts\<close>), and the query profiles
  with their traversal caps (\<open>profiles.ts\<close>).
\<close>

subsection \<open>Enumerations\<close>

datatype node_kind =
    K_file | K_symbol | K_module | K_command | K_route | K_pipeline | K_test | K_gate
  | K_schema | K_config | K_wiki_claim | K_source | K_proof | K_risk_domain

definition CONTEXT_GRAPH_NODE_KINDS :: "node_kind list" where
  "CONTEXT_GRAPH_NODE_KINDS =
     [K_file, K_symbol, K_module, K_command, K_route, K_pipeline, K_test, K_gate,
      K_schema, K_config, K_wiki_claim, K_source, K_proof, K_risk_domain]"

datatype edge_type =
    E_contains | E_defines | E_imports | E_reexports | E_references | E_calls | E_depends_on
  | E_routes_to | E_owns | E_tests | E_verified_by | E_gated_by | E_affected_by | E_cites
  | E_derived_from | E_supports | E_contradicts | E_supersedes | E_invalidates
  | E_cochanged_with | E_conflicts_with

definition CONTEXT_GRAPH_EDGE_TYPES :: "edge_type list" where
  "CONTEXT_GRAPH_EDGE_TYPES =
     [E_contains, E_defines, E_imports, E_reexports, E_references, E_calls, E_depends_on,
      E_routes_to, E_owns, E_tests, E_verified_by, E_gated_by, E_affected_by, E_cites,
      E_derived_from, E_supports, E_contradicts, E_supersedes, E_invalidates,
      E_cochanged_with, E_conflicts_with]"

datatype edge_confidence = C_exact | C_syntactic | C_manifest | C_observed | C_derived

datatype freshness = F_fresh | F_stale | F_unknown

datatype risk = R_low | R_medium | R_high | R_protected

definition FRESHNESS_CODES :: "freshness list" where
  "FRESHNESS_CODES = [F_fresh, F_stale, F_unknown]"

definition RISK_CODES :: "risk list" where
  "RISK_CODES = [R_low, R_medium, R_high, R_protected]"

definition CONFIDENCE_CODES :: "edge_confidence list" where
  "CONFIDENCE_CODES = [C_exact, C_syntactic, C_manifest, C_observed, C_derived]"

text \<open>Reading an array past its end is \<open>undefined\<close>, which is \<open>None\<close> here.\<close>

definition array_at :: "'a list \<Rightarrow> nat \<Rightarrow> 'a option" where
  "array_at xs i = (if i < length xs then Some (xs ! i) else None)"

fun index_of :: "'a list \<Rightarrow> 'a \<Rightarrow> nat option" where
  "index_of [] x = None"
| "index_of (y # ys) x = (if x = y then Some 0 else map_option Suc (index_of ys x))"

lemma index_of_Some: "index_of xs x = Some i \<Longrightarrow> i < length xs \<and> xs ! i = x"
  by (induction xs arbitrary: i) (auto split: if_splits)

lemma index_of_mem: "x \<in> set xs \<Longrightarrow> \<exists>i. index_of xs x = Some i"
  by (induction xs) auto

subsection \<open>Node flags\<close>

text \<open>\<open>CONTEXT_INDEX_NODE_FLAG\<close>: the bits of a node row's flag byte.\<close>

definition NODE_GROUNDABLE :: "32 word" where "NODE_GROUNDABLE = push_bit 0 1"
definition NODE_INVALIDATED :: "32 word" where "NODE_INVALIDATED = push_bit 1 1"
definition NODE_PROTECTED :: "32 word" where "NODE_PROTECTED = push_bit 2 1"
definition NODE_IS_EVIDENCE :: "32 word" where "NODE_IS_EVIDENCE = push_bit 3 1"
definition NODE_IS_TEST_OR_GATE :: "32 word" where "NODE_IS_TEST_OR_GATE = push_bit 4 1"
definition NODE_HAS_PATH :: "32 word" where "NODE_HAS_PATH = push_bit 5 1"
definition NODE_HAS_CONTENT_HASH :: "32 word" where "NODE_HAS_CONTENT_HASH = push_bit 6 1"

definition hasFlag :: "32 word \<Rightarrow> 32 word \<Rightarrow> bool" where
  "hasFlag flags bits \<longleftrightarrow> (flags AND bits) \<noteq> 0"

lemma hasFlag_zero [simp]: "\<not> hasFlag 0 b"
  by (simp add: hasFlag_def)

lemma hasFlag_or: "hasFlag (f OR g) b \<longleftrightarrow> hasFlag f b \<or> hasFlag g b"
  by (simp add: hasFlag_def bit.conj_disj_distrib2 or_eq_0_iff)

lemma hasFlag_or_bits: "hasFlag f (b OR c) \<longleftrightarrow> hasFlag f b \<or> hasFlag f c"
  by (simp add: hasFlag_def bit.conj_disj_distrib or_eq_0_iff)

subsection \<open>Profiles\<close>

datatype profile_name = P_implementation | P_review | P_planning | P_answer

fun profile_string :: "profile_name \<Rightarrow> string" where
  "profile_string P_implementation = ''implementation''"
| "profile_string P_review = ''review''"
| "profile_string P_planning = ''planning''"
| "profile_string P_answer = ''answer''"

definition CONTEXT_GRAPH_QUERY_PROFILE_NAMES :: "profile_name list" where
  "CONTEXT_GRAPH_QUERY_PROFILE_NAMES = [P_implementation, P_review, P_planning, P_answer]"

record query_profile =
  qp_name :: profile_name
  qp_edges :: "edge_type list"
  qp_edgeWeights :: "edge_type \<rightharpoonup> rat"
  qp_maxDepth :: nat
  qp_maxDepthHighRisk :: nat

record traversal_caps =
  cap_maxVisitedNodes :: nat
  cap_maxVisitedEdges :: nat
  cap_maxSeeds :: nat
  cap_maxSelectedNodes :: int
  cap_defaultTokenBudget :: int
  cap_queryTimeoutMs :: int

definition CONTEXT_GRAPH_TRAVERSAL_CAPS :: traversal_caps where
  "CONTEXT_GRAPH_TRAVERSAL_CAPS =
     \<lparr>cap_maxVisitedNodes = 4000, cap_maxVisitedEdges = 20000, cap_maxSeeds = 24,
      cap_maxSelectedNodes = 64, cap_defaultTokenBudget = 6000, cap_queryTimeoutMs = 1500\<rparr>"

definition weights :: "(edge_type \<times> rat) list \<Rightarrow> edge_type list \<times> (edge_type \<rightharpoonup> rat)" where
  "weights entries =
     fold (\<lambda>(edge, weight) (edges, edgeWeights). (edges @ [edge], edgeWeights(edge \<mapsto> weight)))
       entries ([], Map.empty)"

definition IMPLEMENTATION :: "(edge_type \<times> rat) list" where
  "IMPLEMENTATION =
     [(E_defines, fl 3), (E_contains, fl (22 / 10)), (E_imports, fl 2), (E_routes_to, fl 2),
      (E_reexports, fl (18 / 10)), (E_references, fl (16 / 10)), (E_calls, fl (16 / 10)),
      (E_tests, fl (14 / 10)), (E_verified_by, fl (12 / 10))]"

definition REVIEW :: "(edge_type \<times> rat) list" where
  "REVIEW =
     [(E_affected_by, fl 3), (E_tests, fl (24 / 10)), (E_gated_by, fl (24 / 10)),
      (E_verified_by, fl 2), (E_invalidates, fl (18 / 10)), (E_conflicts_with, fl (16 / 10)),
      (E_routes_to, fl (14 / 10)), (E_contains, fl (12 / 10)), (E_defines, fl 1)]"

definition PLANNING :: "(edge_type \<times> rat) list" where
  "PLANNING =
     [(E_depends_on, fl (28 / 10)), (E_owns, fl (22 / 10)), (E_affected_by, fl 2),
      (E_conflicts_with, fl (18 / 10)), (E_routes_to, fl (16 / 10)),
      (E_cochanged_with, fl (14 / 10)), (E_gated_by, fl (14 / 10)), (E_contains, fl 1),
      (E_imports, fl 1)]"

definition ANSWER :: "(edge_type \<times> rat) list" where
  "ANSWER =
     [(E_derived_from, fl (28 / 10)), (E_cites, fl (26 / 10)), (E_supports, fl 2),
      (E_contradicts, fl (18 / 10)), (E_supersedes, fl (16 / 10)), (E_contains, fl (8 / 10))]"

fun profile_entries :: "profile_name \<Rightarrow> (edge_type \<times> rat) list" where
  "profile_entries P_implementation = IMPLEMENTATION"
| "profile_entries P_review = REVIEW"
| "profile_entries P_planning = PLANNING"
| "profile_entries P_answer = ANSWER"

definition CONTEXT_GRAPH_QUERY_PROFILES :: "profile_name \<Rightarrow> query_profile" where
  "CONTEXT_GRAPH_QUERY_PROFILES name =
     \<lparr>qp_name = name, qp_edges = fst (weights (profile_entries name)),
      qp_edgeWeights = snd (weights (profile_entries name)),
      qp_maxDepth = 2, qp_maxDepthHighRisk = 3\<rparr>"

definition DEFAULT_CONTEXT_GRAPH_QUERY_PROFILE :: profile_name where
  "DEFAULT_CONTEXT_GRAPH_QUERY_PROFILE = P_implementation"

text \<open>A value that is not one of the four names, or no value at all, falls back to the default.\<close>

definition profile_named :: "string option \<Rightarrow> profile_name option" where
  "profile_named value =
     (case value of None \<Rightarrow> None
      | Some s \<Rightarrow> find (\<lambda>p. profile_string p = s) CONTEXT_GRAPH_QUERY_PROFILE_NAMES)"

definition isContextGraphQueryProfileName :: "string option \<Rightarrow> bool" where
  "isContextGraphQueryProfileName value \<longleftrightarrow> profile_named value \<noteq> None"

definition contextGraphQueryProfile :: "string option \<Rightarrow> query_profile" where
  "contextGraphQueryProfile name =
     CONTEXT_GRAPH_QUERY_PROFILES
       (case profile_named name of Some p \<Rightarrow> p | None \<Rightarrow> DEFAULT_CONTEXT_GRAPH_QUERY_PROFILE)"

definition profileEdgeWeight :: "query_profile \<Rightarrow> edge_type \<Rightarrow> rat" where
  "profileEdgeWeight profile edge =
     (case qp_edgeWeights profile edge of Some w \<Rightarrow> w | None \<Rightarrow> 0)"

definition profileTraversesEdge :: "query_profile \<Rightarrow> edge_type \<Rightarrow> bool" where
  "profileTraversesEdge profile edge \<longleftrightarrow> 0 < profileEdgeWeight profile edge"

lemma weights_fold:
  "fold (\<lambda>(edge, weight) (edges, edgeWeights). (edges @ [edge], edgeWeights(edge \<mapsto> weight)))
     entries (es, m) = (es @ map fst entries, m ++ map_of (rev entries))"
  by (induction entries arbitrary: es m) (auto simp: map_add_upd_left map_add_assoc [symmetric] fun_eq_iff map_add_def split: option.splits)

lemma weights_eq: "weights entries = (map fst entries, map_of (rev entries))"
  by (simp add: weights_def weights_fold)

lemma qp_name_profile [simp]: "qp_name (CONTEXT_GRAPH_QUERY_PROFILES p) = p"
  by (simp add: CONTEXT_GRAPH_QUERY_PROFILES_def)

text \<open>Every weight of a profile lies between 0 and 3.\<close>

lemma profile_entries_bounds: "(e, w) \<in> set (profile_entries p) \<Longrightarrow> fl 0 \<le> w \<and> w \<le> fl 3"
  by (cases p) (auto simp: IMPLEMENTATION_def REVIEW_def PLANNING_def ANSWER_def simp del: fl_zero
      intro!: fl_mono)

lemma profileEdgeWeight_bounds:
  "0 \<le> profileEdgeWeight (CONTEXT_GRAPH_QUERY_PROFILES p) e \<and>
   profileEdgeWeight (CONTEXT_GRAPH_QUERY_PROFILES p) e \<le> 3"
proof -
  have 3: "fl 3 = 3" using fl_of_int [of 3] by simp
  show ?thesis
    by (auto simp: profileEdgeWeight_def CONTEXT_GRAPH_QUERY_PROFILES_def weights_eq split: option.split
        dest!: map_of_SomeD dest: profile_entries_bounds [where p = p, unfolded 3, simplified])
qed

end
