(* ===== verification/Kernel_Types.thy ===== *)
theory Kernel_Types
  imports Graph_Contracts
begin

text \<open>
  The frozen vocabulary of the retrieval kernel, \<open>query/kernel-types.ts\<close> and
  \<open>query-types.ts\<close>: seed confidences with their demotion ladder, the four lanes, the
  candidate flags, the omission counters and the warnings, the request, and the slice of a
  reader (\<open>runtime-index/reader-types.ts\<close>) the kernel calls.
\<close>

subsection \<open>Lanes and confidences\<close>

datatype lane = L_anchor | L_lexical | L_coarse | L_local_graph

fun LANE_SLOT :: "lane \<Rightarrow> nat" where
  "LANE_SLOT L_anchor = 0"
| "LANE_SLOT L_lexical = 1"
| "LANE_SLOT L_coarse = 2"
| "LANE_SLOT L_local_graph = 3"

definition RETRIEVAL_LANES :: "lane list" where
  "RETRIEVAL_LANES = [L_anchor, L_lexical, L_coarse, L_local_graph]"

datatype seed_confidence =
    exact_definition | exact_reference | manifest | syntactic_reference | file_path | text_candidate

fun CONFIDENCE_RUNG :: "seed_confidence \<Rightarrow> nat" where
  "CONFIDENCE_RUNG exact_definition = 0"
| "CONFIDENCE_RUNG exact_reference = 0"
| "CONFIDENCE_RUNG manifest = 0"
| "CONFIDENCE_RUNG file_path = 0"
| "CONFIDENCE_RUNG syntactic_reference = 1"
| "CONFIDENCE_RUNG text_candidate = 2"

definition RUNG_FLOOR :: "seed_confidence list" where
  "RUNG_FLOOR = [exact_definition, syntactic_reference, text_candidate]"

definition isExactKernelConfidence :: "seed_confidence \<Rightarrow> bool" where
  "isExactKernelConfidence confidence \<longleftrightarrow> CONFIDENCE_RUNG confidence = 0"

definition demoteKernelConfidence :: "seed_confidence \<Rightarrow> int \<Rightarrow> seed_confidence" where
  "demoteKernelConfidence confidence steps =
     (if steps \<le> 0 then confidence
      else RUNG_FLOOR !
             min (CONFIDENCE_RUNG confidence + nat steps) (length RUNG_FLOOR - 1))"

definition laneCeilingConfidence :: "lane \<Rightarrow> seed_confidence" where
  "laneCeilingConfidence l = (if l = L_anchor then exact_reference else text_candidate)"

definition KERNEL_CONFIDENCE_CODES :: "seed_confidence list" where
  "KERNEL_CONFIDENCE_CODES =
     [exact_definition, exact_reference, manifest, file_path, syntactic_reference, text_candidate]"

definition kernelConfidenceCode :: "seed_confidence \<Rightarrow> int" where
  "kernelConfidenceCode confidence =
     (case index_of KERNEL_CONFIDENCE_CODES confidence of Some i \<Rightarrow> int i | None \<Rightarrow> - 1)"

definition kernelConfidenceAt :: "int \<Rightarrow> seed_confidence" where
  "kernelConfidenceAt code =
     (if code < 0 then text_candidate
      else case array_at KERNEL_CONFIDENCE_CODES (nat code) of Some c \<Rightarrow> c | None \<Rightarrow> text_candidate)"

lemma kernelConfidence_roundtrip [simp]: "kernelConfidenceAt (kernelConfidenceCode c) = c"
  by (cases c) (simp_all add: kernelConfidenceAt_def kernelConfidenceCode_def
      KERNEL_CONFIDENCE_CODES_def array_at_def)

lemma kernelConfidenceCode_exact: "kernelConfidenceCode c < 4 \<longleftrightarrow> isExactKernelConfidence c"
  by (cases c) (simp_all add: kernelConfidenceCode_def KERNEL_CONFIDENCE_CODES_def isExactKernelConfidence_def)

lemma kernelConfidenceCode_range: "0 \<le> kernelConfidenceCode c \<and> kernelConfidenceCode c < 6"
  by (cases c) (simp_all add: kernelConfidenceCode_def KERNEL_CONFIDENCE_CODES_def)

lemma demote_not_exact: "0 < steps \<Longrightarrow> \<not> isExactKernelConfidence (demoteKernelConfidence c steps)"
proof -
  assume s: "0 < steps"
  then obtain k where "nat steps = Suc k" by (metis Suc_pred' zero_less_nat_eq)
  then show ?thesis using s
    by (cases c; cases k) (simp_all add: demoteKernelConfidence_def RUNG_FLOOR_def isExactKernelConfidence_def)
qed

lemma exact_literals [simp]:
  "isExactKernelConfidence exact_reference" "isExactKernelConfidence file_path"
  "\<not> isExactKernelConfidence text_candidate"
  by (simp_all add: isExactKernelConfidence_def)

subsection \<open>Candidate flags\<close>

definition SEED :: "32 word" where "SEED = push_bit 0 1"
definition EXACT_SEED :: "32 word" where "EXACT_SEED = push_bit 1 1"
definition PROTECTED :: "32 word" where "PROTECTED = push_bit 2 1"
definition TEST_OR_GATE :: "32 word" where "TEST_OR_GATE = push_bit 3 1"
definition EVIDENCE :: "32 word" where "EVIDENCE = push_bit 4 1"
definition SAFETY :: "32 word" where "SAFETY = push_bit 5 1"
definition CONFLICT :: "32 word" where "CONFLICT = push_bit 6 1"
definition FOCUS :: "32 word" where "FOCUS = push_bit 7 1"
definition REVERSE_HOP :: "32 word" where "REVERSE_HOP = push_bit 8 1"
definition PROVIDED :: "32 word" where "PROVIDED = push_bit 9 1"
definition NAME_MATCH :: "32 word" where "NAME_MATCH = push_bit 10 1"

lemmas candidate_flag_defs =
  SEED_def EXACT_SEED_def PROTECTED_def TEST_OR_GATE_def EVIDENCE_def SAFETY_def CONFLICT_def
  FOCUS_def REVERSE_HOP_def PROVIDED_def NAME_MATCH_def

subsection \<open>Omissions and warnings\<close>

datatype omission_reason =
    O_token_budget | O_stale_node | O_invalidated_proof | O_redundant_sibling | O_depth_limit
  | O_visit_cap | O_edge_cap | O_timeout | O_no_provenance | O_max_selected
  | O_posting_cap | O_candidate_budget | O_focus_filtered | O_frontier_budget
  | O_query_terms_capped | O_safety_cap | O_unknown_seed

type_synonym kernel_omissions = "omission_reason \<rightharpoonup> int"

definition omission_count :: "kernel_omissions \<Rightarrow> omission_reason \<Rightarrow> int" where
  "omission_count into reason = (case into reason of Some n \<Rightarrow> n | None \<Rightarrow> 0)"

definition addOmission :: "kernel_omissions \<Rightarrow> omission_reason \<Rightarrow> int \<Rightarrow> kernel_omissions" where
  "addOmission into reason amount =
     (if amount \<le> 0 then into else into(reason \<mapsto> omission_count into reason + amount))"

lemma omission_count_add:
  "omission_count (addOmission o' r n) s = omission_count o' s + (if s = r then max 0 n else 0)"
  by (simp add: addOmission_def omission_count_def split: option.split)

datatype kernel_warning =
    W_path_redacted
  | W_focus_unmatched
  | W_unknown_seeds nat
  | W_nothing_matched
  | W_safety_cap
  | W_safety_deadline
  | W_traversal_deadline
  | W_frontier_budget
  | W_outside_focus nat
  | W_exact_seed_unfit
  | W_protected_unfit
  | W_conflict_unfit
  | W_test_or_gate_unfit

subsection \<open>Request and telemetry\<close>

type_synonym kernel_clock = "nat \<Rightarrow> int"

record provided_seed =
  ps_nodeId :: string
  ps_confidence :: seed_confidence
  ps_verified :: "bool option"

datatype request_risk = Risk_normal | Risk_high

record kernel_request =
  rq_query :: string
  rq_profile :: "string option"
  rq_risk :: "request_risk option"
  rq_seeds :: "provided_seed list"
  rq_focusPaths :: "string list"
  rq_tokenBudget :: "int option"
  rq_maxSelected :: "int option"
  rq_timeoutMs :: "int option"

record lane_telemetry =
  lt_lane :: lane
  lt_matchedTerms :: nat
  lt_postingsExamined :: nat
  lt_candidates :: nat
  lt_truncated :: bool

subsection \<open>The reader\<close>

text \<open>
  A cursor is the list of the edges its \<open>next\<close> yields, a posting slice the list of its
  nodes, a scored slice the list of its nodes with their scores.
\<close>

record edge_view =
  ev_edge :: int
  ev_target :: int
  ev_type :: nat
  ev_confidence :: nat

record query_bounds =
  qb_postingCapPerTerm :: nat
  qb_candidateBudget :: int

record scored_slice =
  ss_postings :: "(int \<times> int) list"
  ss_matchedTerms :: nat
  ss_truncated :: bool

record score_fields =
  sf_kind :: nat
  sf_freshness :: nat
  sf_risk :: nat
  sf_flags :: "32 word"
  sf_trust :: int
  sf_tokenCost :: int
  sf_group :: int
  sf_outDegree :: nat
  sf_inDegree :: nat

record index_reader =
  rd_termId :: "string \<Rightarrow> int"
  rd_exact :: "string \<Rightarrow> 32 word \<Rightarrow> int list"
  rd_basename :: "string \<Rightarrow> int list"
  rd_nodeHasName :: "int \<Rightarrow> string \<Rightarrow> bool"
  rd_lexical :: "int list \<Rightarrow> query_bounds \<Rightarrow> scored_slice"
  rd_coarse :: "int list \<Rightarrow> query_bounds \<Rightarrow> scored_slice"
  rd_outgoing :: "int \<Rightarrow> 32 word \<Rightarrow> edge_view list"
  rd_incoming :: "int \<Rightarrow> 32 word \<Rightarrow> edge_view list"
  rd_nodeFlags :: "int \<Rightarrow> 32 word"
  rd_nodeScoreFields :: "int \<Rightarrow> score_fields"
  rd_nodeTokenCost :: "int \<Rightarrow> int"
  rd_nodeGroup :: "int \<Rightarrow> int"

definition CONTEXT_INDEX_FIELD_MASK_ALL :: "32 word" where
  "CONTEXT_INDEX_FIELD_MASK_ALL = 0xffff"

definition CONTEXT_INDEX_PROFILE_MASK_ALL :: "32 word" where
  "CONTEXT_INDEX_PROFILE_MASK_ALL = 0xffff"

text \<open>C30: demotion leaves the exact family: a confidence carried over at least one relation is never an
  exact one, and no demotion leaves every confidence as it is.\<close>

theorem demotion_leaves_exact_family:
  "isExactKernelConfidence (demoteKernelConfidence confidence steps) \<longleftrightarrow>
     isExactKernelConfidence confidence \<and> steps \<le> 0"
  using demote_not_exact [of steps confidence] by (cases "steps \<le> 0") (auto simp: demoteKernelConfidence_def)

end
