(* ===== verification/Ranking_Config.thy ===== *)
theory Ranking_Config
  imports Kernel_Types
begin

text \<open>
  The tuning surface, \<open>query/ranking-config.ts\<close>.  A decimal literal of the source is the
  double nearest to it, \<open>fl (p / q)\<close>.
\<close>

definition CONTEXT_GRAPH_EXACT_SEED_CONFIDENCES :: "seed_confidence list" where
  "CONTEXT_GRAPH_EXACT_SEED_CONFIDENCES = [exact_definition, exact_reference, manifest, file_path]"

record ranking_config =
  rc_seedConfidenceScore :: "seed_confidence \<Rightarrow> rat"
  rc_exactSeedBonus :: rat
  rc_lexicalSeedBonus :: rat
  rc_nameSeedBonus :: rat
  rc_providedSeedScoreCeiling :: rat
  rc_edgeConfidenceMultiplier :: "edge_confidence \<Rightarrow> rat"
  rc_depthDecay :: rat
  rc_reverseEdgeMultiplier :: rat
  rc_trustBonus :: rat
  rc_freshnessBonus :: "freshness \<Rightarrow> rat"
  rc_riskRelevanceBonus :: "risk \<Rightarrow> rat"
  rc_highRiskRelevanceMultiplier :: rat
  rc_evidenceCoverageBonus :: rat
  rc_evidenceCoverageCap :: rat
  rc_stalePenalty :: rat
  rc_invalidatedPenalty :: rat
  rc_redundancyPenalty :: rat
  rc_redundancyPenaltyCap :: rat
  rc_tokenCostPenaltyPerToken :: rat
  rc_tokenCostPenaltyCap :: rat
  rc_minExactSeeds :: nat
  rc_maxLexicalSeeds :: nat
  rc_lexicalScanBudget :: nat
  rc_lexicalMinTokenLength :: nat
  rc_lexicalMatchScore :: rat
  rc_maxQueryTokens :: nat
  rc_maxSeedsPerToken :: nat
  rc_timeoutCheckInterval :: nat
  rc_moduleShareCap :: rat
  rc_minGroupSlots :: nat
  rc_maxRedundancyGroupMembers :: nat
  rc_protectedGateReserveSlots :: nat
  rc_testOrGateReserveSlots :: nat
  rc_maxProvenancePerNode :: nat
  rc_minTokenCost :: int

fun default_seedConfidenceScore :: "seed_confidence \<Rightarrow> rat" where
  "default_seedConfidenceScore exact_definition = fl 6"
| "default_seedConfidenceScore exact_reference = fl 5"
| "default_seedConfidenceScore manifest = fl 5"
| "default_seedConfidenceScore syntactic_reference = fl (35 / 10)"
| "default_seedConfidenceScore file_path = fl 4"
| "default_seedConfidenceScore text_candidate = fl (15 / 10)"

fun default_edgeConfidenceMultiplier :: "edge_confidence \<Rightarrow> rat" where
  "default_edgeConfidenceMultiplier C_exact = fl 1"
| "default_edgeConfidenceMultiplier C_manifest = fl (95 / 100)"
| "default_edgeConfidenceMultiplier C_syntactic = fl (85 / 100)"
| "default_edgeConfidenceMultiplier C_observed = fl (7 / 10)"
| "default_edgeConfidenceMultiplier C_derived = fl (5 / 10)"

fun default_freshnessBonus :: "freshness \<Rightarrow> rat" where
  "default_freshnessBonus F_fresh = fl (75 / 100)"
| "default_freshnessBonus F_unknown = fl 0"
| "default_freshnessBonus F_stale = fl (- (5 / 10))"

fun default_riskRelevanceBonus :: "risk \<Rightarrow> rat" where
  "default_riskRelevanceBonus R_low = fl 0"
| "default_riskRelevanceBonus R_medium = fl (25 / 100)"
| "default_riskRelevanceBonus R_high = fl (75 / 100)"
| "default_riskRelevanceBonus R_protected = fl (15 / 10)"

definition CONTEXT_GRAPH_RANKING_CONFIG :: ranking_config where
  "CONTEXT_GRAPH_RANKING_CONFIG =
     \<lparr>rc_seedConfidenceScore = default_seedConfidenceScore,
      rc_exactSeedBonus = fl 4, rc_lexicalSeedBonus = fl (5 / 10), rc_nameSeedBonus = fl (225 / 100),
      rc_providedSeedScoreCeiling = fl 8,
      rc_edgeConfidenceMultiplier = default_edgeConfidenceMultiplier,
      rc_depthDecay = fl (6 / 10), rc_reverseEdgeMultiplier = fl (85 / 100),
      rc_trustBonus = fl (15 / 10), rc_freshnessBonus = default_freshnessBonus,
      rc_riskRelevanceBonus = default_riskRelevanceBonus, rc_highRiskRelevanceMultiplier = fl 2,
      rc_evidenceCoverageBonus = fl (35 / 100), rc_evidenceCoverageCap = fl (105 / 100),
      rc_stalePenalty = fl (25 / 10), rc_invalidatedPenalty = fl 4,
      rc_redundancyPenalty = fl (6 / 10), rc_redundancyPenaltyCap = fl 3,
      rc_tokenCostPenaltyPerToken = fl (15 / 10000), rc_tokenCostPenaltyCap = fl (15 / 10),
      rc_minExactSeeds = 3, rc_maxLexicalSeeds = 8, rc_lexicalScanBudget = 50000,
      rc_lexicalMinTokenLength = 4, rc_lexicalMatchScore = fl (15 / 10),
      rc_maxQueryTokens = 24, rc_maxSeedsPerToken = 6, rc_timeoutCheckInterval = 512,
      rc_moduleShareCap = fl (4 / 10), rc_minGroupSlots = 2, rc_maxRedundancyGroupMembers = 12,
      rc_protectedGateReserveSlots = 8, rc_testOrGateReserveSlots = 1,
      rc_maxProvenancePerNode = 6, rc_minTokenCost = 1\<rparr>"

record kernel_config =
  kc_rrfK :: int
  kc_rrfRankCap :: nat
  kc_laneTopN :: nat
  kc_laneWeights :: "profile_name \<Rightarrow> lane \<Rightarrow> rat"
  kc_exactAnchorPriority :: rat
  kc_nameAnchorPriority :: rat
  kc_anchoredMaxTerms :: nat
  kc_naturalMinTerms :: nat
  kc_textShapePostingMultiplier :: nat
  kc_candidateBudget :: int
  kc_frontierBudget :: int
  kc_safetyMaxDepth :: nat
  kc_safetyMaxVisitedNodes :: int
  kc_safetyMaxVisitedEdges :: nat
  kc_exactSeedReserveSlots :: nat

fun default_laneWeights :: "profile_name \<Rightarrow> lane \<Rightarrow> rat" where
  "default_laneWeights P_implementation l =
     (case l of L_anchor \<Rightarrow> fl 3 | L_lexical \<Rightarrow> fl (16 / 10) | L_coarse \<Rightarrow> fl (8 / 10)
      | L_local_graph \<Rightarrow> fl 3)"
| "default_laneWeights P_review l =
     (case l of L_anchor \<Rightarrow> fl (24 / 10) | L_lexical \<Rightarrow> fl (8 / 10) | L_coarse \<Rightarrow> fl (16 / 10)
      | L_local_graph \<Rightarrow> fl 3)"
| "default_laneWeights P_planning l =
     (case l of L_anchor \<Rightarrow> fl (16 / 10) | L_lexical \<Rightarrow> fl (16 / 10) | L_coarse \<Rightarrow> fl (24 / 10)
      | L_local_graph \<Rightarrow> fl (24 / 10))"
| "default_laneWeights P_answer l =
     (case l of L_anchor \<Rightarrow> fl (16 / 10) | L_lexical \<Rightarrow> fl (24 / 10) | L_coarse \<Rightarrow> fl (24 / 10)
      | L_local_graph \<Rightarrow> fl (16 / 10))"

definition CONTEXT_GRAPH_KERNEL_CONFIG :: kernel_config where
  "CONTEXT_GRAPH_KERNEL_CONFIG =
     \<lparr>kc_rrfK = 60, kc_rrfRankCap = 64, kc_laneTopN = 64, kc_laneWeights = default_laneWeights,
      kc_exactAnchorPriority = fl 1000, kc_nameAnchorPriority = fl 500,
      kc_anchoredMaxTerms = 6, kc_naturalMinTerms = 3, kc_textShapePostingMultiplier = 2,
      kc_candidateBudget = 2048, kc_frontierBudget = 8192,
      kc_safetyMaxDepth = 3, kc_safetyMaxVisitedNodes = 2000, kc_safetyMaxVisitedEdges = 10000,
      kc_exactSeedReserveSlots = 1\<rparr>"

definition POSTING_CAP_PER_TERM :: nat where "POSTING_CAP_PER_TERM = 4096"

definition isExactContextGraphSeedConfidence :: "seed_confidence \<Rightarrow> bool" where
  "isExactContextGraphSeedConfidence value \<longleftrightarrow> value \<in> set CONTEXT_GRAPH_EXACT_SEED_CONFIDENCES"

definition contextGraphSeedConfidenceScore :: "ranking_config \<Rightarrow> seed_confidence \<Rightarrow> rat" where
  "contextGraphSeedConfidenceScore config confidence = rc_seedConfidenceScore config confidence"

text \<open>The two tables that decide what counts as exact agree.\<close>

lemma exact_tables_agree: "isExactContextGraphSeedConfidence c \<longleftrightarrow> isExactKernelConfidence c"
  by (cases c) (simp_all add: isExactContextGraphSeedConfidence_def isExactKernelConfidence_def
      CONTEXT_GRAPH_EXACT_SEED_CONFIDENCES_def)

end
