(* ===== verification/Invariant_Order.thy ===== *)
theory Invariant_Order
  imports Prelude
begin

text \<open>
  The contract every stage of the kernel's pipeline keeps towards the state it mutates: an
  invariant is preserved and the state only grows along a preorder (nothing a previous
  stage established is lost).  Sequences, branches and loops of such steps are again such
  steps.
\<close>

locale invariant_order =
  fixes inv :: "'s \<Rightarrow> bool"
    and le :: "'s \<Rightarrow> 's \<Rightarrow> bool"
  assumes le_refl: "inv s \<Longrightarrow> le s s"
    and le_trans: "inv s \<Longrightarrow> inv t \<Longrightarrow> inv u \<Longrightarrow> le s t \<Longrightarrow> le t u \<Longrightarrow> le s u"
begin

definition grows :: "'s \<Rightarrow> 's \<Rightarrow> bool" where
  "grows s t \<longleftrightarrow> inv s \<longrightarrow> inv t \<and> le s t"

lemma growsI: "(inv s \<Longrightarrow> inv t) \<Longrightarrow> (inv s \<Longrightarrow> le s t) \<Longrightarrow> grows s t"
  by (simp add: grows_def)

lemma growsD: "grows s t \<Longrightarrow> inv s \<Longrightarrow> inv t \<and> le s t"
  by (simp add: grows_def)

lemma grows_refl [intro!, simp]: "grows s s"
  by (simp add: grows_def le_refl)

lemma grows_trans [trans]: "grows s t \<Longrightarrow> grows t u \<Longrightarrow> grows s u"
  unfolding grows_def by (blast intro: le_trans)

lemma grows_step: "grows s t \<Longrightarrow> (\<And>x. grows x (f x)) \<Longrightarrow> grows s (f t)"
  by (rule grows_trans)

lemma grows_if: "(b \<Longrightarrow> grows s t) \<Longrightarrow> (\<not> b \<Longrightarrow> grows s u) \<Longrightarrow> grows s (if b then t else u)"
  by simp

lemma grows_fold: "(\<And>x s. x \<in> set xs \<Longrightarrow> grows s (f x s)) \<Longrightarrow> grows s (fold f xs s)"
  by (induction xs arbitrary: s) (auto intro: grows_trans)

end

end
