(* ===== verification/Candidate_Table.thy ===== *)
theory Candidate_Table
  imports Ranking_Config Invariant_Order
begin

text \<open>
  The candidate table, \<open>query/kernel-candidates.ts\<close>.  A row of the parallel typed arrays is
  one record; \<open>ct_rows\<close> holds the first \<open>size\<close> rows.  The flat \<open>laneRank\<close>/\<open>laneScore\<close> arrays
  are a row's four cells, as functions of the lane.  A missing slot, node or edge is \<open>-1\<close>
  in a column; \<open>slotOf\<close> and \<open>admit\<close> return an option.
\<close>

subsection \<open>State\<close>

record candidate =
  c_node :: int
  c_seed :: int
  c_parentNode :: int
  c_parentEdge :: int
  c_depth :: nat
  c_flags :: "32 word"
  c_group :: int
  c_tokenCost :: int
  c_nodeFlags :: "32 word"
  c_graphScore :: int
  c_anchorTerm :: int
  c_confidence :: int
  c_originLane :: int
  c_laneRank :: "lane \<Rightarrow> nat"
  c_laneScore :: "lane \<Rightarrow> int"

record candidate_table =
  ct_capacity :: nat
  ct_overflow :: nat
  ct_rows :: "candidate list"
  ct_slots :: "int \<rightharpoonup> nat"

definition new_table :: "int \<Rightarrow> candidate_table" where
  "new_table capacity =
     \<lparr>ct_capacity = nat (max 0 capacity), ct_overflow = 0, ct_rows = [], ct_slots = Map.empty\<rparr>"

definition ct_size :: "candidate_table \<Rightarrow> nat" where
  "ct_size t = length (ct_rows t)"

definition row :: "candidate_table \<Rightarrow> nat \<Rightarrow> candidate" where
  "row t slot = ct_rows t ! slot"

definition update_row :: "(candidate \<Rightarrow> candidate) \<Rightarrow> nat \<Rightarrow> candidate_table \<Rightarrow> candidate_table" where
  "update_row f slot t = t\<lparr>ct_rows := (ct_rows t)[slot := f (row t slot)]\<rparr>"

definition WEAKEST_CONFIDENCE_CODE :: int where
  "WEAKEST_CONFIDENCE_CODE = kernelConfidenceCode text_candidate"

subsection \<open>Operations\<close>

definition slotOf :: "candidate_table \<Rightarrow> int \<Rightarrow> nat option" where
  "slotOf t node = ct_slots t node"

definition admitted_row :: "index_reader \<Rightarrow> int \<Rightarrow> candidate" where
  "admitted_row reader node =
     \<lparr>c_node = node, c_seed = - 1, c_parentNode = - 1, c_parentEdge = - 1, c_depth = 0,
      c_flags = 0, c_group = to_int32 (rd_nodeGroup reader node),
      c_tokenCost = to_int32 (rd_nodeTokenCost reader node),
      c_nodeFlags = rd_nodeFlags reader node, c_graphScore = 0, c_anchorTerm = - 1,
      c_confidence = WEAKEST_CONFIDENCE_CODE, c_originLane = - 1,
      c_laneRank = (\<lambda>_. 0), c_laneScore = (\<lambda>_. 0)\<rparr>"

definition admit :: "index_reader \<Rightarrow> int \<Rightarrow> candidate_table \<Rightarrow> candidate_table \<times> nat option" where
  "admit reader node t =
     (case ct_slots t node of
        Some existing \<Rightarrow> (t, Some existing)
      | None \<Rightarrow>
          if ct_capacity t \<le> ct_size t then (t\<lparr>ct_overflow := ct_overflow t + 1\<rparr>, None)
          else (t\<lparr>ct_rows := ct_rows t @ [admitted_row reader node],
                  ct_slots := (ct_slots t)(node \<mapsto> ct_size t)\<rparr>, Some (ct_size t)))"

definition claim :: "nat \<Rightarrow> lane \<Rightarrow> seed_confidence \<Rightarrow> candidate_table \<Rightarrow> candidate_table" where
  "claim slot l confidence =
     update_row
       (\<lambda>r. let code = kernelConfidenceCode confidence
            in if c_originLane r \<noteq> - 1 \<and> c_confidence r \<le> code then r
               else r\<lparr>c_confidence := code, c_originLane := int (LANE_SLOT l)\<rparr>) slot"

definition laneOf :: "candidate_table \<Rightarrow> nat \<Rightarrow> lane" where
  "laneOf t slot =
     (let origin = c_originLane (row t slot)
      in if origin < 0 then L_lexical
         else case array_at RETRIEVAL_LANES (nat origin) of Some l \<Rightarrow> l | None \<Rightarrow> L_lexical)"

definition confidenceOf :: "candidate_table \<Rightarrow> nat \<Rightarrow> seed_confidence" where
  "confidenceOf t slot = kernelConfidenceAt (c_confidence (row t slot))"

definition mark :: "nat \<Rightarrow> 32 word \<Rightarrow> candidate_table \<Rightarrow> candidate_table" where
  "mark slot bits = update_row (\<lambda>r. r\<lparr>c_flags := c_flags r OR bits\<rparr>) slot"

definition has :: "candidate_table \<Rightarrow> nat \<Rightarrow> 32 word \<Rightarrow> bool" where
  "has t slot bits \<longleftrightarrow> hasFlag (c_flags (row t slot)) bits"

definition contribute :: "nat \<Rightarrow> lane \<Rightarrow> nat \<Rightarrow> int \<Rightarrow> int \<Rightarrow> candidate_table \<Rightarrow> candidate_table" where
  "contribute slot l rank score termId =
     update_row
       (\<lambda>r. if c_laneRank r l \<noteq> 0 then r
            else r\<lparr>c_laneRank := (c_laneRank r)(l := rank + 1),
                   c_laneScore := (c_laneScore r)(l := to_int32 score),
                   c_anchorTerm := (if 0 \<le> termId then termId else c_anchorTerm r)\<rparr>) slot"

definition rankIn :: "candidate_table \<Rightarrow> nat \<Rightarrow> lane \<Rightarrow> int" where
  "rankIn t slot l = int (c_laneRank (row t slot) l) - 1"

definition scoreIn :: "candidate_table \<Rightarrow> nat \<Rightarrow> lane \<Rightarrow> int" where
  "scoreIn t slot l = c_laneScore (row t slot) l"

definition link :: "nat \<Rightarrow> int \<Rightarrow> int \<Rightarrow> int \<Rightarrow> nat \<Rightarrow> candidate_table \<Rightarrow> candidate_table" where
  "link slot seed parentNode parentEdge depth =
     update_row
       (\<lambda>r. r\<lparr>c_seed := seed, c_parentNode := parentNode, c_parentEdge := parentEdge,
              c_depth := depth\<rparr>) slot"

definition set_graphScore :: "nat \<Rightarrow> int \<Rightarrow> candidate_table \<Rightarrow> candidate_table" where
  "set_graphScore slot score = update_row (\<lambda>r. r\<lparr>c_graphScore := to_int32 score\<rparr>) slot"

text \<open>The loop pushes the edges from the leaf up and reverses them at the end.\<close>

fun chain_from :: "candidate_table \<Rightarrow> nat \<Rightarrow> nat \<Rightarrow> int list" where
  "chain_from t cursor steps =
     (let edge = c_parentEdge (row t cursor)
      in if edge = - 1 then []
         else edge #
           (case slotOf t (c_parentNode (row t cursor)) of
              None \<Rightarrow> []
            | Some parent \<Rightarrow>
                if parent = cursor then []
                else (case steps of 0 \<Rightarrow> [] | Suc n \<Rightarrow> chain_from t parent n)))"

definition parentChain :: "candidate_table \<Rightarrow> nat \<Rightarrow> nat \<Rightarrow> int list" where
  "parentChain t slot maxDepth = rev (chain_from t slot maxDepth)"

subsection \<open>The invariant and the growth order\<close>

text \<open>
  One row per node, found again through the slot map, with the scalars the index holds for
  that node; and a row's confidence is in the
  exact family only when the anchor lane owns the claim.
\<close>

definition row_inv :: "index_reader \<Rightarrow> candidate \<Rightarrow> bool" where
  "row_inv reader r \<longleftrightarrow>
     c_nodeFlags r = rd_nodeFlags reader (c_node r) \<and>
     c_group r = to_int32 (rd_nodeGroup reader (c_node r)) \<and>
     c_tokenCost r = to_int32 (rd_nodeTokenCost reader (c_node r)) \<and>
     0 \<le> c_confidence r \<and> c_confidence r \<le> WEAKEST_CONFIDENCE_CODE \<and>
     - 1 \<le> c_originLane r \<and> c_originLane r \<le> 3 \<and>
     (c_originLane r = - 1 \<longrightarrow> c_confidence r = WEAKEST_CONFIDENCE_CODE) \<and>
     (isExactKernelConfidence (kernelConfidenceAt (c_confidence r)) \<longrightarrow>
        c_originLane r = int (LANE_SLOT L_anchor))"

definition table_inv :: "index_reader \<Rightarrow> candidate_table \<Rightarrow> bool" where
  "table_inv reader t \<longleftrightarrow>
     ct_size t \<le> ct_capacity t \<and>
     (\<forall>n s. ct_slots t n = Some s \<longleftrightarrow> s < ct_size t \<and> c_node (row t s) = n) \<and>
     (\<forall>s < ct_size t. row_inv reader (row t s))"

text \<open>
  A row grows by gaining flags, lane contributions and stronger claims; what admission
  read from the index never changes.
\<close>

definition row_le :: "candidate \<Rightarrow> candidate \<Rightarrow> bool" where
  "row_le r r' \<longleftrightarrow>
     c_node r' = c_node r \<and> c_group r' = c_group r \<and> c_tokenCost r' = c_tokenCost r \<and>
     c_nodeFlags r' = c_nodeFlags r \<and>
     (\<forall>b. hasFlag (c_flags r) b \<longrightarrow> hasFlag (c_flags r') b) \<and>
     c_confidence r' \<le> c_confidence r \<and>
     (\<forall>l. c_laneRank r l \<noteq> 0 \<longrightarrow>
        c_laneRank r' l = c_laneRank r l \<and> c_laneScore r' l = c_laneScore r l)"

definition table_le :: "candidate_table \<Rightarrow> candidate_table \<Rightarrow> bool" where
  "table_le t t' \<longleftrightarrow>
     ct_capacity t' = ct_capacity t \<and> ct_overflow t \<le> ct_overflow t' \<and> ct_size t \<le> ct_size t' \<and>
     (\<forall>s < ct_size t. row_le (row t s) (row t' s))"

lemma row_le_refl [simp]: "row_le r r"
  by (simp add: row_le_def)

lemma row_le_trans: "row_le a b \<Longrightarrow> row_le b c \<Longrightarrow> row_le a c"
  unfolding row_le_def by simp

interpretation tbl: invariant_order "table_inv reader" table_le for reader
proof
  show "table_le s s" for s by (simp add: table_le_def)
  show "table_le s u" if "table_le s t" "table_le t u" for s t u
    using that unfolding table_le_def by (auto intro: row_le_trans)
qed

lemma new_table_inv: "table_inv reader (new_table c)"
  by (simp add: table_inv_def new_table_def ct_size_def)

lemma new_table_size [simp]: "ct_size (new_table c) = 0"
  by (simp add: new_table_def ct_size_def)

lemma size_update_row [simp]: "ct_size (update_row f s t) = ct_size t"
  by (simp add: update_row_def ct_size_def)

lemma capacity_update_row [simp]: "ct_capacity (update_row f s t) = ct_capacity t"
  by (simp add: update_row_def)

lemma overflow_update_row [simp]: "ct_overflow (update_row f s t) = ct_overflow t"
  by (simp add: update_row_def)

lemma slots_update_row [simp]: "ct_slots (update_row f s t) = ct_slots t"
  by (simp add: update_row_def)

lemma row_update_row:
  "s' < ct_size t \<Longrightarrow> row (update_row f s t) s' = (if s' = s then f (row t s) else row t s')"
  by (simp add: update_row_def row_def ct_size_def nth_list_update)

lemma row_update_row_at:
  "s < ct_size t \<Longrightarrow> row (update_row f s t) s' = (if s' = s then f (row t s) else row t s')"
  by (auto simp: update_row_def row_def ct_size_def)

lemma update_row_outside: "ct_size t \<le> s \<Longrightarrow> update_row f s t = t"
  by (cases t) (simp add: update_row_def ct_size_def list_update_beyond)

lemma update_row_grows:
  assumes "\<And>r. row_inv reader r \<Longrightarrow> row_inv reader (f r) \<and> row_le r (f r)"
  shows "tbl.grows reader t (update_row f s t)"
proof (rule tbl.growsI)
  assume t: "table_inv reader t"
  have f: "c_node (f r) = c_node r" if "row_inv reader r" for r
    using assms [OF that] by (simp add: row_le_def)
  show "table_inv reader (update_row f s t)"
    using t assms f unfolding table_inv_def by (auto simp: row_update_row)
  show "table_le t (update_row f s t)"
    using t assms unfolding table_le_def table_inv_def by (auto simp: row_update_row)
qed

lemma mark_grows: "tbl.grows reader t (mark s b t)"
  unfolding mark_def
  by (rule update_row_grows) (simp add: row_inv_def row_le_def hasFlag_or)

lemma contribute_grows: "tbl.grows reader t (contribute s l k v i t)"
  unfolding contribute_def
  by (rule update_row_grows) (simp add: row_inv_def row_le_def)

lemma link_grows: "tbl.grows reader t (link s a b c d t)"
  unfolding link_def
  by (rule update_row_grows) (simp add: row_inv_def row_le_def)

lemma set_graphScore_grows: "tbl.grows reader t (set_graphScore s v t)"
  unfolding set_graphScore_def
  by (rule update_row_grows) (simp add: row_inv_def row_le_def)

lemma WEAKEST_eq: "WEAKEST_CONFIDENCE_CODE = 5"
  by (simp add: WEAKEST_CONFIDENCE_CODE_def kernelConfidenceCode_def KERNEL_CONFIDENCE_CODES_def)

lemma claim_grows:
  assumes "l = L_anchor \<or> \<not> isExactKernelConfidence c"
  shows "tbl.grows reader t (claim s l c t)"
  unfolding claim_def
  by (rule update_row_grows)
    (use assms kernelConfidenceCode_range [of c] in
      \<open>cases l; auto simp: Let_def row_inv_def row_le_def WEAKEST_eq\<close>)

lemma admitted_row_inv: "row_inv reader (admitted_row reader n)"
  by (simp add: row_inv_def admitted_row_def WEAKEST_eq kernelConfidenceAt_def array_at_def
      KERNEL_CONFIDENCE_CODES_def)

lemma admit_cases:
  assumes "admit reader n t = (t', s)"
  obtains (existing) k where "t' = t" "s = Some k" "ct_slots t n = Some k"
  | (refused) "ct_slots t n = None" "ct_capacity t \<le> ct_size t" "s = None"
      "t' = t\<lparr>ct_overflow := ct_overflow t + 1\<rparr>"
  | (added) "ct_slots t n = None" "ct_size t < ct_capacity t" "s = Some (ct_size t)"
      "t' = t\<lparr>ct_rows := ct_rows t @ [admitted_row reader n],
              ct_slots := (ct_slots t)(n \<mapsto> ct_size t)\<rparr>"
proof (cases "ct_slots t n")
  case None
  then show ?thesis using assms that(2,3) by (auto simp: admit_def split: if_splits)
next
  case (Some k)
  show ?thesis by (rule that(1) [OF _ _ Some]) (use assms Some in \<open>simp_all add: admit_def\<close>)
qed

lemma admit_grows: "tbl.grows reader t (fst (admit reader n t))"
proof (rule tbl.growsI)
  assume t: "table_inv reader t"
  obtain t' s where e: "admit reader n t = (t', s)" by fastforce
  have rows: "row (t\<lparr>ct_rows := ct_rows t @ [a], ct_slots := m\<rparr>) k =
      (if k < ct_size t then row t k else if k = ct_size t then a else [] ! (k - ct_size t - 1))"
    for a m k by (auto simp: row_def ct_size_def nth_append nth_Cons')
  have node: "c_node (admitted_row reader n) = n" by (simp add: admitted_row_def)
  show "table_inv reader (fst (admit reader n t))"
    using e
  proof (cases rule: admit_cases)
    case added
    moreover from added(1) t have "c_node (row t k) \<noteq> n" if "k < ct_size t" for k
      using that by (metis table_inv_def option.distinct(1))
    ultimately show ?thesis using t e admitted_row_inv [of reader n] node
      by (auto simp: table_inv_def rows less_Suc_eq ct_size_def [of "_\<lparr>ct_rows := _, ct_slots := _\<rparr>"]
          simp flip: ct_size_def)
  qed (use t e in \<open>simp_all add: table_inv_def ct_size_def row_def\<close>)
  show "table_le t (fst (admit reader n t))"
    using e
  proof (cases rule: admit_cases)
    case added
    then show ?thesis using e by (simp add: table_le_def rows, simp add: ct_size_def)
  qed (use e in \<open>simp_all add: table_le_def ct_size_def row_def\<close>)
qed

lemma admit_slot:
  assumes "table_inv reader t" "admit reader n t = (t', Some s)"
  shows "s < ct_size t'" and "c_node (row t' s) = n"
proof -
  have "table_inv reader t'" using admit_grows [of reader t n] assms by (simp add: tbl.grows_def)
  moreover have "ct_slots t' n = Some s"
    using assms(2) by (cases rule: admit_cases) auto
  ultimately show "s < ct_size t'" "c_node (row t' s) = n" by (auto simp: table_inv_def)
qed

lemma table_inv_size: "table_inv reader t \<Longrightarrow> ct_size t \<le> ct_capacity t"
  by (simp add: table_inv_def)

lemma table_nodes_distinct: "table_inv reader t \<Longrightarrow> distinct (map c_node (ct_rows t))"
  unfolding table_inv_def distinct_conv_nth row_def ct_size_def by (metis length_map nth_map option.inject)

lemma exact_only_from_anchor:
  assumes "table_inv reader t" "s < ct_size t" "isExactKernelConfidence (confidenceOf t s)"
  shows "laneOf t s = L_anchor"
  using assms by (auto simp: table_inv_def row_inv_def confidenceOf_def laneOf_def array_at_def
      RETRIEVAL_LANES_def)

lemma has_mono: "table_le t t' \<Longrightarrow> s < ct_size t \<Longrightarrow> has t s b \<Longrightarrow> has t' s b"
  by (simp add: table_le_def row_le_def has_def)

lemma has_mark: "s < ct_size t \<Longrightarrow> has (mark s b t) s' c \<longleftrightarrow> has t s' c \<or> s' = s \<and> hasFlag b c"
  by (auto simp: has_def mark_def row_update_row_at hasFlag_or)

lemma length_chain_from: "length (chain_from t s n) \<le> n + 1"
  by (induction t s n rule: chain_from.induct) (auto simp: Let_def split: option.split nat.split)

end
