(* ===== verification/Kernel_Plan.thy ===== *)
theory Kernel_Plan
  imports Ranking_Config
begin

text \<open>
  Plan resolution, \<open>query/kernel-plan.ts\<close> with \<open>paths.ts\<close>'s path test and
  \<open>query/name-anchors.ts\<close>'s query-shape gate.  The lexicon's query normalizer
  (\<open>runtime-index/lexicon-tokenizer.ts\<close>) is an argument: a function from the query to its
  normal form, its distinct terms and the two counters the plan reads.
\<close>

subsection \<open>Strings\<close>

definition is_ws :: "char \<Rightarrow> bool" where
  "is_ws c \<longleftrightarrow> of_char c \<in> {9, 10, 11, 12, 13, 32, 160 :: nat}"

text \<open>\<open>value.split(/\s+/)\<close>: a leading or trailing run leaves an empty string there.\<close>

function (sequential) split_ws :: "string \<Rightarrow> string list" where
  "split_ws [] = [[]]"
| "split_ws (c # cs) =
     (if is_ws c then [] # split_ws (dropWhile is_ws cs)
      else case split_ws cs of [] \<Rightarrow> [[c]] | w # ws \<Rightarrow> (c # w) # ws)"
  by pat_completeness auto
termination
  by (relation "measure length") (auto simp: le_imp_less_Suc length_dropWhile_le)

definition strip_trailing :: "char set \<Rightarrow> string \<Rightarrow> string" where
  "strip_trailing cs s = rev (dropWhile (\<lambda>c. c \<in> cs) (rev s))"

definition starts_with :: "string \<Rightarrow> string \<Rightarrow> bool" where
  "starts_with s p \<longleftrightarrow> take (length p) s = p"

definition ends_with :: "string \<Rightarrow> string \<Rightarrow> bool" where
  "ends_with s p \<longleftrightarrow> starts_with (rev s) (rev p)"

fun includes_str :: "string \<Rightarrow> string \<Rightarrow> bool" where
  "includes_str [] p \<longleftrightarrow> p = []"
| "includes_str (c # cs) p \<longleftrightarrow> starts_with (c # cs) p \<or> includes_str cs p"

definition last_index_of :: "string \<Rightarrow> char \<Rightarrow> int" where
  "last_index_of s c =
     (case index_of (rev s) c of None \<Rightarrow> - 1 | Some i \<Rightarrow> int (length s) - 1 - int i)"

definition is_ascii_letter :: "char \<Rightarrow> bool" where
  "is_ascii_letter c \<longleftrightarrow>
     (65 \<le> (of_char c :: nat) \<and> (of_char c :: nat) \<le> 90) \<or> (97 \<le> (of_char c :: nat) \<and> (of_char c :: nat) \<le> 122)"

definition isWorkspaceRelativePosixPath :: "string \<Rightarrow> bool" where
  "isWorkspaceRelativePosixPath value =
     (if value = [] then False
      else if CHR 0x5C \<in> set value then False
      else if starts_with value ''/'' then False
      else if 3 \<le> length value \<and> is_ascii_letter (value ! 0) \<and> value ! 1 = CHR '':'' \<and>
              value ! 2 = CHR ''/'' then False
      else if value = ''..'' \<or> starts_with value ''../'' \<or> includes_str value ''/../'' \<or>
              ends_with value ''/..'' then False
      else if starts_with value ''~'' then False
      else True)"

subsection \<open>The plan\<close>

datatype query_shape = anchored | mixed | natural

record query_plan =
  pl_profile :: profile_name
  pl_shape :: query_shape
  pl_termIds :: "int list"
  pl_fieldMask :: "32 word"
  pl_profileMask :: "32 word"
  pl_maxDepth :: nat
  pl_frontierBudget :: int
  pl_postingCapPerTerm :: nat
  pl_candidateBudget :: int
  pl_tokenBudget :: int

text \<open>The immutable part of the plan context.\<close>

record plan_context =
  px_plan :: query_plan
  px_config :: ranking_config
  px_kernelConfig :: kernel_config
  px_normalizedQuery :: string
  px_terms :: "string list"
  px_anchorTerms :: "string list"
  px_focusPaths :: "string list"
  px_highRisk :: bool
  px_maxSelected :: nat
  px_startedAt :: int
  px_deadline :: "int option"
  px_clock :: kernel_clock
  px_edgeWeights :: "int list"
  px_edgeTypeMask :: "32 word"
  px_safetyEdgeMask :: "32 word"
  px_conflictEdgeMask :: "32 word"
  px_confidenceMultipliers :: "int list"
  px_laneWeights :: "lane \<Rightarrow> int"
  px_rrf :: "int list"

record normalized_query =
  nq_normalized :: string
  nq_terms :: "string list"
  nq_redactedSpans :: nat
  nq_cappedFieldTokens :: nat

definition KERNEL_SAFETY_EDGE_TYPES :: "edge_type list" where
  "KERNEL_SAFETY_EDGE_TYPES =
     [E_tests, E_verified_by, E_gated_by, E_affected_by, E_invalidates, E_conflicts_with]"

definition KERNEL_CONFLICT_EDGE_TYPES :: "edge_type list" where
  "KERNEL_CONFLICT_EDGE_TYPES = [E_invalidates, E_conflicts_with]"

definition fixed :: "rat \<Rightarrow> int" where
  "fixed v = toFixedPoint (Finite v) CONTEXT_INDEX_FIXED_POINT_SCALE"

definition isAnchorShapedToken :: "string \<Rightarrow> bool" where
  "isAnchorShapedToken token =
     (if length token = 0 then False
      else if includes_str token '':'' \<or> includes_str token ''/'' \<or> includes_str token ''#'' then True
      else let dot = last_index_of token (CHR ''.'') in 0 < dot \<and> dot < int (length token) - 1)"

definition classifyShape :: "nat \<Rightarrow> nat \<Rightarrow> kernel_config \<Rightarrow> query_shape" where
  "classifyShape anchorShaped termCount kernelConfig =
     (if 0 < anchorShaped \<and> termCount \<le> kc_anchoredMaxTerms kernelConfig then anchored
      else if anchorShaped = 0 \<and> kc_naturalMinTerms kernelConfig \<le> termCount then natural
      else if 0 < anchorShaped then mixed else natural)"

datatype lexicon_field =
    F_CANONICAL_ID | F_EXACT_LABEL | F_SYMBOL_SEGMENT | F_MANIFEST_NAME | F_BASENAME
  | F_PATH_SEGMENT | F_PURPOSE | F_EVIDENCE | F_COARSE

fun CONTEXT_LEXICON_FIELD :: "lexicon_field \<Rightarrow> nat" where
  "CONTEXT_LEXICON_FIELD F_CANONICAL_ID = 0"
| "CONTEXT_LEXICON_FIELD F_EXACT_LABEL = 1"
| "CONTEXT_LEXICON_FIELD F_SYMBOL_SEGMENT = 2"
| "CONTEXT_LEXICON_FIELD F_MANIFEST_NAME = 3"
| "CONTEXT_LEXICON_FIELD F_BASENAME = 4"
| "CONTEXT_LEXICON_FIELD F_PATH_SEGMENT = 5"
| "CONTEXT_LEXICON_FIELD F_PURPOSE = 6"
| "CONTEXT_LEXICON_FIELD F_EVIDENCE = 7"
| "CONTEXT_LEXICON_FIELD F_COARSE = 8"

definition lexiconFieldMask :: "lexicon_field \<Rightarrow> 32 word" where
  "lexiconFieldMask field = push_bit (CONTEXT_LEXICON_FIELD field) 1"

definition fieldMaskFor :: "query_shape \<Rightarrow> 32 word" where
  "fieldMaskFor shape =
     (let anchorFields = lexiconFieldMask F_EXACT_LABEL OR lexiconFieldMask F_MANIFEST_NAME OR
                         lexiconFieldMask F_BASENAME OR lexiconFieldMask F_PATH_SEGMENT;
          textFields = lexiconFieldMask F_SYMBOL_SEGMENT OR lexiconFieldMask F_PURPOSE OR
                       lexiconFieldMask F_EVIDENCE OR lexiconFieldMask F_COARSE
      in if shape = anchored then anchorFields
         else if shape = natural then anchorFields OR textFields
         else anchorFields OR textFields)"

definition profileMaskFor :: "profile_name \<Rightarrow> 32 word" where
  "profileMaskFor profile =
     (case index_of CONTEXT_GRAPH_QUERY_PROFILE_NAMES profile of
        None \<Rightarrow> 1 | Some position \<Rightarrow> push_bit position 1)"

definition usableFocusPaths :: "kernel_request \<Rightarrow> kernel_omissions \<Rightarrow> string list \<times> kernel_omissions" where
  "usableFocusPaths request omissions =
     fold (\<lambda>focus (out, om).
         let undotted = (if starts_with focus ''./'' then drop 2 focus else focus);
             normalized = strip_trailing {CHR ''/''} undotted
         in if normalized = [] \<or> \<not> isWorkspaceRelativePosixPath normalized
            then (out, addOmission om O_focus_filtered 1)
            else (if normalized \<in> set out then out else out @ [normalized], om))
       (rq_focusPaths request) ([], omissions)"

definition edgeTables :: "query_profile \<Rightarrow> int list \<times> 32 word" where
  "edgeTables profile =
     (map (\<lambda>type. let weight = profileEdgeWeight profile type
                  in if weight \<le> 0 then 0 else to_int32 (fixed weight)) CONTEXT_GRAPH_EDGE_TYPES,
      fold (\<lambda>(code, type) mask. if profileEdgeWeight profile type \<le> 0 then mask
                                else mask OR push_bit code 1)
        (enumerate 0 CONTEXT_GRAPH_EDGE_TYPES) 0)"

definition edgeTypeMaskOf :: "edge_type list \<Rightarrow> 32 word" where
  "edgeTypeMaskOf types =
     fold (\<lambda>type mask. case index_of CONTEXT_GRAPH_EDGE_TYPES type of
                         None \<Rightarrow> mask | Some code \<Rightarrow> mask OR push_bit code 1) types 0"

text \<open>\<open>(mask >>> type) & 1\<close>; a shift count is taken modulo 32.\<close>

definition mask_has :: "32 word \<Rightarrow> nat \<Rightarrow> bool" where
  "mask_has bits type \<longleftrightarrow> (drop_bit (type mod 32) bits) AND 1 \<noteq> 0"

definition rrfTable :: "kernel_config \<Rightarrow> int list" where
  "rrfTable kernelConfig =
     map (\<lambda>rank. to_int32 (math_round (fl (of_int (CONTEXT_INDEX_FIXED_POINT_SCALE * CONTEXT_INDEX_FIXED_POINT_SCALE)
                     / of_int (kc_rrfK kernelConfig + int rank + 1)))))
       [0..<kc_rrfRankCap kernelConfig]"

definition collect_anchor :: "string \<Rightarrow> string list \<times> nat \<Rightarrow> string list \<times> nat" where
  "collect_anchor raw acc =
     (let token = strip_trailing {CHR '','', CHR '';''} raw
      in if token = [] \<or> token \<in> set (fst acc) then acc
         else (fst acc @ [token], if isAnchorShapedToken token then snd acc + 1 else snd acc))"

definition collect_anchors :: "string \<Rightarrow> string list \<times> nat" where
  "collect_anchors normalized = fold collect_anchor (split_ws normalized) ([], 0)"

definition anchor_terms :: "string \<Rightarrow> string list" where
  "anchor_terms normalized =
     (let terms = fst (collect_anchors normalized)
      in if normalized \<noteq> [] \<and> normalized \<notin> set terms then normalized # terms else terms)"

definition resolveQueryPlan ::
  "(string \<Rightarrow> normalized_query) \<Rightarrow> index_reader \<Rightarrow> kernel_request \<Rightarrow> ranking_config \<Rightarrow> kernel_config \<Rightarrow>
   kernel_clock \<Rightarrow> plan_context \<times> kernel_omissions \<times> kernel_warning list" where
  "resolveQueryPlan normalizeLexiconQuery reader request config kernelConfig clock =
     (let caps = CONTEXT_GRAPH_TRAVERSAL_CAPS;
          profile = contextGraphQueryProfile (rq_profile request);
          normalization = normalizeLexiconQuery (rq_query request);
          (_, anchorShaped) = collect_anchors (nq_normalized normalization);
          anchorTerms = anchor_terms (nq_normalized normalization);
          warnings = (if 0 < nq_redactedSpans normalization then [W_path_redacted] else []);
          omissions = addOmission Map.empty O_query_terms_capped (int (nq_cappedFieldTokens normalization));
          shape = classifyShape anchorShaped (length (nq_terms normalization)) kernelConfig;
          highRisk = (rq_risk request = Some Risk_high);
          termIds = filter (\<lambda>i. 0 \<le> i) (map (rd_termId reader) (nq_terms normalization));
          postingMultiplier = (if shape = anchored then 1 else kc_textShapePostingMultiplier kernelConfig);
          plan = \<lparr>pl_profile = qp_name profile, pl_shape = shape, pl_termIds = termIds,
                  pl_fieldMask = fieldMaskFor shape, pl_profileMask = profileMaskFor (qp_name profile),
                  pl_maxDepth = (if highRisk then qp_maxDepthHighRisk profile else qp_maxDepth profile),
                  pl_frontierBudget = kc_frontierBudget kernelConfig,
                  pl_postingCapPerTerm = POSTING_CAP_PER_TERM * postingMultiplier,
                  pl_candidateBudget = kc_candidateBudget kernelConfig,
                  pl_tokenBudget =
                    max 0 (case rq_tokenBudget request of Some b \<Rightarrow> b | None \<Rightarrow> cap_defaultTokenBudget caps)\<rparr>;
          edges = edgeTables profile;
          startedAt = clock 0;
          timeoutMs = max 0 (case rq_timeoutMs request of Some ms \<Rightarrow> ms | None \<Rightarrow> cap_queryTimeoutMs caps);
          (focusPaths, omissions') = usableFocusPaths request omissions
      in (\<lparr>px_plan = plan, px_config = config, px_kernelConfig = kernelConfig,
           px_normalizedQuery = nq_normalized normalization, px_terms = nq_terms normalization,
           px_anchorTerms = anchorTerms, px_focusPaths = focusPaths, px_highRisk = highRisk,
           px_maxSelected =
             nat (max 0 (min (case rq_maxSelected request of Some m \<Rightarrow> m | None \<Rightarrow> cap_maxSelectedNodes caps)
                             (cap_maxSelectedNodes caps))),
           px_startedAt = startedAt,
           px_deadline = (if 0 < timeoutMs then Some (startedAt + timeoutMs) else None),
           px_clock = clock, px_edgeWeights = fst edges, px_edgeTypeMask = snd edges,
           px_safetyEdgeMask = edgeTypeMaskOf KERNEL_SAFETY_EDGE_TYPES,
           px_conflictEdgeMask = edgeTypeMaskOf KERNEL_CONFLICT_EDGE_TYPES,
           px_confidenceMultipliers =
             map (\<lambda>c. to_int32 (fixed (rc_edgeConfidenceMultiplier config c))) CONFIDENCE_CODES,
           px_laneWeights = (\<lambda>l. to_int32 (fixed (kc_laneWeights kernelConfig (qp_name profile) l))),
           px_rrf = rrfTable kernelConfig\<rparr>,
          omissions', warnings))"

subsection \<open>The query-shape gate of the name anchors\<close>

definition nameAnchorTermOf :: "plan_context \<Rightarrow> string option" where
  "nameAnchorTermOf context =
     (if length (px_anchorTerms context) \<noteq> 1 then None
      else let term = px_anchorTerms context ! 0 in if term = [] then None else Some term)"

subsection \<open>Facts of the plan\<close>

lemma mask_has_iff: "mask_has bits type \<longleftrightarrow> bit bits (type mod 32)"
  by (simp add: mask_has_def and_one_eq bit_iff_odd_drop_bit odd_iff_mod_2_eq_one)

lemma bit_code_mask: "bit (push_bit k (1 :: 32 word)) n \<longleftrightarrow> n = k \<and> n < 32"
  by (simp add: bit_exp_iff) auto

lemma bit_edgeTables_fold:
  "bit (fold (\<lambda>(code, type) mask. if w type \<le> (0::rat) then mask else mask OR push_bit code 1) es (m :: 32 word)) n
   \<longleftrightarrow> bit m n \<or> (\<exists>type. (n, type) \<in> set es \<and> 0 < w type \<and> n < 32)"
  by (induction es arbitrary: m) (auto simp: bit_or_iff bit_code_mask [simplified] not_le split: if_splits)

lemma edge_type_count: "length CONTEXT_GRAPH_EDGE_TYPES = 21"
  by (simp add: CONTEXT_GRAPH_EDGE_TYPES_def)

lemma bit_edge_mask:
  assumes "n < 32"
  shows "bit (snd (edgeTables p)) n \<longleftrightarrow> n < 21 \<and> profileTraversesEdge p (CONTEXT_GRAPH_EDGE_TYPES ! n)"
  using assms
  by (auto simp: edgeTables_def bit_edgeTables_fold profileTraversesEdge_def edge_type_count
      in_set_enumerate_eq)

lemma collect_anchors_distinct:
  "distinct (fst acc) \<Longrightarrow> [] \<notin> set (fst acc) \<Longrightarrow>
   distinct (fst (fold collect_anchor raws acc)) \<and> [] \<notin> set (fst (fold collect_anchor raws acc))"
proof (induction raws arbitrary: acc)
  case (Cons raw raws)
  have "distinct (fst (collect_anchor raw acc)) \<and> [] \<notin> set (fst (collect_anchor raw acc))"
    using Cons.prems by (auto simp: collect_anchor_def Let_def)
  then show ?case using Cons.IH by simp
qed simp

lemma anchor_terms_distinct: "distinct (anchor_terms q) \<and> [] \<notin> set (anchor_terms q)"
  using collect_anchors_distinct [of "([], 0)" "split_ws q"]
  by (auto simp: anchor_terms_def collect_anchors_def Let_def)

lemma collect_anchors_Nil [simp]: "collect_anchors [] = ([], 0)"
  by (simp add: collect_anchors_def collect_anchor_def strip_trailing_def)

lemma anchor_terms_single: "length (anchor_terms q) = 1 \<Longrightarrow> anchor_terms q = [q]"
  by (cases "fst (collect_anchors q)") (auto simp: anchor_terms_def Let_def split: if_splits)

lemma plan_facts:
  assumes "resolveQueryPlan tokenizer reader request config kernelConfig clock = (px, om, ws)"
  shows "px_config px = config" "px_kernelConfig px = kernelConfig" "px_clock px = clock"
    "px_maxSelected px \<le> 64" "0 \<le> pl_tokenBudget (px_plan px)"
    "pl_maxDepth (px_plan px) = (if px_highRisk px then 3 else 2)"
    "px_highRisk px \<longleftrightarrow> rq_risk request = Some Risk_high"
    "px_anchorTerms px = anchor_terms (px_normalizedQuery px)"
    "px_edgeWeights px = fst (edgeTables (CONTEXT_GRAPH_QUERY_PROFILES (pl_profile (px_plan px))))"
    "px_edgeTypeMask px = snd (edgeTables (CONTEXT_GRAPH_QUERY_PROFILES (pl_profile (px_plan px))))"
    "px_safetyEdgeMask px = edgeTypeMaskOf KERNEL_SAFETY_EDGE_TYPES"
    "px_conflictEdgeMask px = edgeTypeMaskOf KERNEL_CONFLICT_EDGE_TYPES"
    "px_rrf px = rrfTable kernelConfig"
    "px_laneWeights px = (\<lambda>l. to_int32 (fixed (kc_laneWeights kernelConfig (pl_profile (px_plan px)) l)))"
    "pl_candidateBudget (px_plan px) = kc_candidateBudget kernelConfig"
    "pl_frontierBudget (px_plan px) = kc_frontierBudget kernelConfig"
    "px_confidenceMultipliers px = map (\<lambda>c. to_int32 (fixed (rc_edgeConfidenceMultiplier config c))) CONFIDENCE_CODES"
  using assms
  by (auto simp: resolveQueryPlan_def Let_def CONTEXT_GRAPH_TRAVERSAL_CAPS_def contextGraphQueryProfile_def
      CONTEXT_GRAPH_QUERY_PROFILES_def split: prod.splits)

text \<open>C28: the edge mask the plan hands to the traversal admits, edge type by edge type, exactly the
  relations the requested profile gives a positive weight.\<close>

theorem plan_walks_profile_edges:
  "case resolveQueryPlan tokenizer reader request config kernelConfig clock of (px, _, _) \<Rightarrow>
     map (mask_has (px_edgeTypeMask px)) [0..<length CONTEXT_GRAPH_EDGE_TYPES] =
     map (profileTraversesEdge (contextGraphQueryProfile (rq_profile request))) CONTEXT_GRAPH_EDGE_TYPES"
proof -
  obtain px om ws where p: "resolveQueryPlan tokenizer reader request config kernelConfig clock = (px, om, ws)"
    by (metis prod_cases3)
  have m: "px_edgeTypeMask px = snd (edgeTables (contextGraphQueryProfile (rq_profile request)))"
    using p by (auto simp: resolveQueryPlan_def Let_def split: prod.splits)
  show ?thesis
    unfolding p prod.case by (auto simp: mask_has_iff bit_edge_mask edge_type_count m intro!: nth_equalityI)
qed

text \<open>C29: the name anchor of a plan, where there is one, is the whole normalized query and never empty,
  so a name can not match on one word of a longer question.\<close>

theorem name_anchor_is_whole_query:
  "case resolveQueryPlan tokenizer reader request config kernelConfig clock of (px, _, _) \<Rightarrow>
     case nameAnchorTermOf px of None \<Rightarrow> True | Some term \<Rightarrow> term = px_normalizedQuery px \<and> term \<noteq> []"
proof -
  obtain px om ws where p: "resolveQueryPlan tokenizer reader request config kernelConfig clock = (px, om, ws)"
    by (metis prod_cases3)
  show ?thesis
    using anchor_terms_single [of "px_normalizedQuery px"] plan_facts(8) [OF p]
    by (auto simp: p nameAnchorTermOf_def Let_def)
qed

text \<open>The reciprocal-rank table of the shipped configuration has one cell per rank, its values fit the
  32-bit cells, and a later rank never contributes more than an earlier one.\<close>

lemma default_rrf_table_decreases:
  "length (rrfTable CONTEXT_GRAPH_KERNEL_CONFIG) = 64 \<and> sorted (rev (rrfTable CONTEXT_GRAPH_KERNEL_CONFIG)) \<and>
   set (rrfTable CONTEXT_GRAPH_KERNEL_CONFIG) \<subseteq> {8064..16394}"
proof -
  define g where "g = (\<lambda>rank :: nat. math_round (fl (1000000 / of_int (61 + int rank))))"
  have b: "8064 \<le> g r \<and> g r \<le> 16394" if "r < 64" for r
    using that math_round_fl_bounds [of 8064 "1000000 / of_int (61 + int r)" 16394]
    by (simp add: g_def field_simps)
  have mono: "g s \<le> g r" if "r \<le> s" for r s
    unfolding g_def using that by (intro math_round_mono fl_mono divide_left_mono) auto
  have t: "rrfTable CONTEXT_GRAPH_KERNEL_CONFIG = map g [0..<64]"
    unfolding rrfTable_def CONTEXT_GRAPH_KERNEL_CONFIG_def CONTEXT_INDEX_FIXED_POINT_SCALE_def
      kernel_config.simps
  proof (intro list.map_cong0)
    fix r assume "r \<in> set [0..<64]"
    then have "to_int32 (g r) = g r" using b [of r] by (intro to_int32_id) auto
    then show "to_int32 (math_round (fl (rat_of_int (1000 * 1000) / rat_of_int (60 + int r + 1)))) = g r"
      by (simp add: g_def add.commute add.left_commute)
  qed
  have "sorted (rev (map g [0..<64]))"
    by (simp add: sorted_iff_nth_mono rev_nth mono)
  then show ?thesis using b by (auto simp: t)
qed

end
