(* ===== verification/Kernel_Lanes.thy ===== *)
theory Kernel_Lanes
  imports Candidate_Table Kernel_Plan
begin

text \<open>
  The three seeding lanes, \<open>query/kernel-lanes.ts\<close>, and the name marks of
  \<open>query/name-anchors.ts\<close>, as steps on the kernel's mutable state: the candidate table,
  the omission counters, the warnings and the number of clock readings taken so far.
\<close>

subsection \<open>The kernel state\<close>

record kernel_state =
  ks_table :: candidate_table
  ks_omissions :: kernel_omissions
  ks_warnings :: "kernel_warning list"
  ks_ticks :: nat

definition omit :: "omission_reason \<Rightarrow> int \<Rightarrow> kernel_state \<Rightarrow> kernel_state" where
  "omit reason amount s = s\<lparr>ks_omissions := addOmission (ks_omissions s) reason amount\<rparr>"

definition warn :: "kernel_warning \<Rightarrow> kernel_state \<Rightarrow> kernel_state" where
  "warn w s = s\<lparr>ks_warnings := ks_warnings s @ [w]\<rparr>"

definition on_table :: "(candidate_table \<Rightarrow> candidate_table) \<Rightarrow> kernel_state \<Rightarrow> kernel_state" where
  "on_table f s = s\<lparr>ks_table := f (ks_table s)\<rparr>"

definition kernel_inv :: "index_reader \<Rightarrow> kernel_state \<Rightarrow> bool" where
  "kernel_inv reader s \<longleftrightarrow> table_inv reader (ks_table s)"

definition kernel_le :: "kernel_state \<Rightarrow> kernel_state \<Rightarrow> bool" where
  "kernel_le s s' \<longleftrightarrow>
     table_le (ks_table s) (ks_table s') \<and>
     (\<forall>r. omission_count (ks_omissions s) r \<le> omission_count (ks_omissions s') r) \<and>
     set (ks_warnings s) \<subseteq> set (ks_warnings s') \<and> ks_ticks s \<le> ks_ticks s'"

interpretation ker: invariant_order "kernel_inv reader" kernel_le for reader
proof
  show "kernel_le s s" if "kernel_inv reader s" for s
    using that by (simp add: kernel_le_def kernel_inv_def tbl.le_refl)
  show "kernel_le s u" if "kernel_inv reader s" "kernel_inv reader t" "kernel_inv reader u" "kernel_le s t" "kernel_le t u"
    for s t u
    using that unfolding kernel_le_def kernel_inv_def by (meson order_trans subset_trans tbl.le_trans)
qed

lemma kernel_le_refl [simp]: "kernel_le s s"
  by (simp add: kernel_le_def table_le_def)

lemma omit_grows [intro!, simp]: "ker.grows reader s (omit r n s)"
  by (rule ker.growsI) (simp_all add: kernel_inv_def kernel_le_def omit_def omission_count_add tbl.le_refl)

lemma warn_grows [intro!, simp]: "ker.grows reader s (warn w s)"
  by (rule ker.growsI) (auto simp: kernel_inv_def kernel_le_def warn_def tbl.le_refl)

lemma grows_omit [intro]: "ker.grows reader s t \<Longrightarrow> ker.grows reader s (omit r n t)"
  by (rule ker.grows_trans [OF _ omit_grows])

lemma grows_warn [intro]: "ker.grows reader s t \<Longrightarrow> ker.grows reader s (warn w t)"
  by (rule ker.grows_trans [OF _ warn_grows])

lemma on_table_grows: "tbl.grows reader (ks_table s) (f (ks_table s)) \<Longrightarrow> ker.grows reader s (on_table f s)"
  unfolding ker.grows_def tbl.grows_def kernel_inv_def kernel_le_def on_table_def by simp

subsection \<open>Admitting one posting run\<close>

record lane_counters =
  lc_postingsExamined :: nat
  lc_matchedTerms :: nat
  lc_candidates :: nat
  lc_truncated :: bool

definition counters :: lane_counters where
  "counters = \<lparr>lc_postingsExamined = 0, lc_matchedTerms = 0, lc_candidates = 0, lc_truncated = False\<rparr>"

definition telemetry :: "lane \<Rightarrow> lane_counters \<Rightarrow> lane_telemetry" where
  "telemetry l c =
     \<lparr>lt_lane = l, lt_matchedTerms = lc_matchedTerms c, lt_postingsExamined = lc_postingsExamined c,
      lt_candidates = lc_candidates c, lt_truncated = lc_truncated c\<rparr>"

text \<open>What a lane threads through its loops.\<close>

record lane_run =
  lr_state :: kernel_state
  lr_count :: lane_counters
  lr_rank :: nat

type_synonym admission = "nat \<Rightarrow> nat \<Rightarrow> candidate_table \<Rightarrow> candidate_table"

fun admitPostings :: "index_reader \<Rightarrow> admission \<Rightarrow> nat \<Rightarrow> int list \<Rightarrow> lane_run \<Rightarrow> lane_run" where
  "admitPostings reader admission limit [] run = run"
| "admitPostings reader admission limit (node # nodes) run =
     (if limit \<le> lr_rank run then run\<lparr>lr_count := (lr_count run)\<lparr>lc_truncated := True\<rparr>\<rparr>
      else
        let c = (lr_count run)\<lparr>lc_postingsExamined := lc_postingsExamined (lr_count run) + 1\<rparr>;
            before = ct_size (ks_table (lr_state run));
            (t, slot) = admit reader node (ks_table (lr_state run))
        in case slot of
             None \<Rightarrow> run\<lparr>lr_state := (lr_state run)\<lparr>ks_table := t\<rparr>,
                         lr_count := c\<lparr>lc_truncated := True\<rparr>\<rparr>
           | Some s \<Rightarrow>
               let c' = (if before < ct_size t then c\<lparr>lc_candidates := lc_candidates c + 1\<rparr> else c)
               in admitPostings reader admission limit nodes
                    (run\<lparr>lr_state := (lr_state run)\<lparr>ks_table := admission s (lr_rank run) t\<rparr>,
                         lr_count := c', lr_rank := lr_rank run + 1\<rparr>))"

subsection \<open>The anchor lane\<close>

definition trunc_number :: "rat \<Rightarrow> int" where
  "trunc_number r = (if r < 0 then - \<lfloor>- r\<rfloor> else \<lfloor>r\<rfloor>)"

definition claimExact :: "plan_context \<Rightarrow> int \<Rightarrow> seed_confidence \<Rightarrow> bool \<Rightarrow> admission" where
  "claimExact px termId confidence focus slot position t =
     (let t1 = claim slot L_anchor confidence t;
          t2 = contribute slot L_anchor position
                 (trunc_number (kc_exactAnchorPriority (px_kernelConfig px))) termId t1;
          t3 = mark slot (SEED OR EXACT_SEED OR (if focus then FOCUS else 0)) t2
      in link slot (c_node (row t3 slot)) (- 1) (- 1) 0 t3)"

definition count_match :: "'a list \<Rightarrow> lane_run \<Rightarrow> lane_run" where
  "count_match postings run =
     (if 0 < length postings
      then run\<lparr>lr_count := (lr_count run)\<lparr>lc_matchedTerms := lc_matchedTerms (lr_count run) + 1\<rparr>\<rparr>
      else run)"

definition anchor_term :: "index_reader \<Rightarrow> plan_context \<Rightarrow> nat \<Rightarrow> string \<Rightarrow> lane_run \<Rightarrow> lane_run" where
  "anchor_term reader px limit term run =
     (let termId = rd_termId reader term;
          ids = rd_exact reader term (pl_fieldMask (px_plan px));
          run1 = admitPostings reader (claimExact px termId exact_reference False) limit ids
                   (count_match ids run);
          paths = rd_basename reader term
      in admitPostings reader (claimExact px termId file_path False) limit paths
           (count_match paths run1))"

definition anchor_focus :: "index_reader \<Rightarrow> plan_context \<Rightarrow> nat \<Rightarrow> string \<Rightarrow> lane_run \<Rightarrow> lane_run" where
  "anchor_focus reader px limit focus run =
     (let paths = rd_basename reader focus
      in if length paths = 0
         then run\<lparr>lr_state := omit O_focus_filtered 1 (warn W_focus_unmatched (lr_state run))\<rparr>
         else admitPostings reader (claimExact px (- 1) file_path True) limit paths run)"

definition admit_seed :: "plan_context \<Rightarrow> provided_seed \<Rightarrow> admission" where
  "admit_seed px seed slot position t =
     (let verified = (case ps_verified seed of Some v \<Rightarrow> v
                      | None \<Rightarrow> isExactKernelConfidence (ps_confidence seed));
          l = (if verified then L_anchor else L_lexical);
          t1 = claim slot l (if verified then ps_confidence seed else text_candidate) t;
          t2 = contribute slot l position
                 (if verified then trunc_number (kc_exactAnchorPriority (px_kernelConfig px)) else 0) (- 1) t1;
          t3 = mark slot (SEED OR PROVIDED OR (if verified then EXACT_SEED else 0)) t2
      in link slot (c_node (row t3 slot)) (- 1) (- 1) 0 t3)"

definition provided_step ::
  "index_reader \<Rightarrow> plan_context \<Rightarrow> nat \<Rightarrow> provided_seed \<Rightarrow> lane_run \<times> nat \<Rightarrow> lane_run \<times> nat" where
  "provided_step reader px limit seed acc =
     (if ps_nodeId seed = [] then acc
      else let postings = rd_exact reader (ps_nodeId seed) CONTEXT_INDEX_FIELD_MASK_ALL
           in if length postings = 0 then (fst acc, snd acc + 1)
              else (admitPostings reader (admit_seed px seed) limit postings (fst acc), snd acc))"

definition admitProvidedSeeds ::
  "index_reader \<Rightarrow> plan_context \<Rightarrow> kernel_request \<Rightarrow> nat \<Rightarrow> lane_run \<Rightarrow> lane_run" where
  "admitProvidedSeeds reader px request limit run =
     (let (run', unknown) = fold (provided_step reader px limit) (rq_seeds request) (run, 0)
      in if 0 < unknown
         then run'\<lparr>lr_state := omit O_unknown_seed (int unknown) (warn (W_unknown_seeds unknown) (lr_state run'))\<rparr>
         else run')"

definition runAnchorLane ::
  "index_reader \<Rightarrow> plan_context \<Rightarrow> kernel_request \<Rightarrow> kernel_state \<Rightarrow> kernel_state \<times> lane_telemetry" where
  "runAnchorLane reader px request s =
     (let limit = kc_laneTopN (px_kernelConfig px);
          run0 = \<lparr>lr_state = s, lr_count = counters, lr_rank = 0\<rparr>;
          run1 = fold (anchor_term reader px limit) (px_anchorTerms px) run0;
          run2 = fold (anchor_focus reader px limit) (px_focusPaths px) run1;
          run3 = admitProvidedSeeds reader px request limit run2
      in (if lc_truncated (lr_count run3) then omit O_posting_cap 1 (lr_state run3) else lr_state run3,
          telemetry L_anchor (lr_count run3)))"

subsection \<open>The two posting lanes\<close>

fun posting_loop ::
  "index_reader \<Rightarrow> lane \<Rightarrow> (int \<times> int) list \<Rightarrow> nat \<Rightarrow> candidate_table \<times> lane_counters \<Rightarrow>
   candidate_table \<times> lane_counters" where
  "posting_loop reader l [] index (t, c) = (t, c)"
| "posting_loop reader l ((node, score) # rest) index (t, c) =
     (let c1 = c\<lparr>lc_postingsExamined := lc_postingsExamined c + 1\<rparr>;
          (t1, slot) = admit reader node t
      in case slot of
           None \<Rightarrow> (t1, c1\<lparr>lc_truncated := True\<rparr>)
         | Some s \<Rightarrow>
             let (t2, c2) =
                   (if ct_size t < ct_size t1
                    then (link s node (- 1) (- 1) 0 (mark s SEED t1), c1\<lparr>lc_candidates := lc_candidates c1 + 1\<rparr>)
                    else (t1, c1))
             in posting_loop reader l rest (index + 1)
                  (contribute s l index score (- 1) (claim s l text_candidate t2), c2))"

definition plan_bounds :: "query_plan \<Rightarrow> query_bounds" where
  "plan_bounds plan =
     \<lparr>qb_postingCapPerTerm = pl_postingCapPerTerm plan, qb_candidateBudget = pl_candidateBudget plan\<rparr>"

definition runPostingLane ::
  "index_reader \<Rightarrow> plan_context \<Rightarrow> lane \<Rightarrow> kernel_state \<Rightarrow> kernel_state \<times> lane_telemetry" where
  "runPostingLane reader px l s =
     (let plan = px_plan px
      in if length (pl_termIds plan) = 0 then (s, telemetry l counters)
         else
           let merged = (if l = L_lexical then rd_lexical reader (pl_termIds plan) (plan_bounds plan)
                         else rd_coarse reader (pl_termIds plan) (plan_bounds plan));
               c0 = counters\<lparr>lc_matchedTerms := ss_matchedTerms merged, lc_truncated := ss_truncated merged\<rparr>;
               limit = min (length (ss_postings merged)) (kc_laneTopN (px_kernelConfig px));
               (t, c) = posting_loop reader l (take limit (ss_postings merged)) 0 (ks_table s, c0);
               c' = (if limit < length (ss_postings merged) then c\<lparr>lc_truncated := True\<rparr> else c);
               s' = s\<lparr>ks_table := t\<rparr>
           in (if lc_truncated c' then omit O_posting_cap 1 s' else s', telemetry l c'))"

definition runSeedLanes ::
  "index_reader \<Rightarrow> plan_context \<Rightarrow> kernel_request \<Rightarrow> kernel_state \<Rightarrow> kernel_state \<times> lane_telemetry list" where
  "runSeedLanes reader px request s =
     (let (s1, anchor) = runAnchorLane reader px request s;
          (s2, lexical) = runPostingLane reader px L_lexical s1;
          (s3, coarse) = runPostingLane reader px L_coarse s2;
          overflow = ct_overflow (ks_table s3);
          s4 = (if 0 < overflow then omit O_candidate_budget (int overflow) s3 else s3);
          s5 = (if ct_size (ks_table s4) = 0 then warn W_nothing_matched s4 else s4)
      in (s5, [anchor, lexical, coarse]))"

subsection \<open>Name marks\<close>

definition name_step ::
  "index_reader \<Rightarrow> string \<Rightarrow> nat \<Rightarrow> candidate_table \<times> nat \<Rightarrow> candidate_table \<times> nat" where
  "name_step reader name slot acc =
     (if rd_nodeHasName reader (c_node (row (fst acc) slot)) name
      then (mark slot NAME_MATCH (fst acc), snd acc + 1) else acc)"

definition markNameAnchors :: "index_reader \<Rightarrow> plan_context \<Rightarrow> candidate_table \<Rightarrow> candidate_table \<times> nat" where
  "markNameAnchors reader px t =
     (case nameAnchorTermOf px of
        None \<Rightarrow> (t, 0)
      | Some name \<Rightarrow> fold (name_step reader name) [0..<ct_size t] (t, 0))"

subsection \<open>Every lane grows the state\<close>

lemma set_table_grows: "tbl.grows reader (ks_table s) t \<Longrightarrow> ker.grows reader s (s\<lparr>ks_table := t\<rparr>)"
  using on_table_grows [of reader s "\<lambda>_. t"] by (simp add: on_table_def)

lemma admitPostings_grows:
  assumes "\<And>slot rank t. tbl.grows reader t (admission slot rank t)"
  shows "ker.grows reader (lr_state run) (lr_state (admitPostings reader admission limit nodes run))"
proof (induction nodes arbitrary: run)
  case (Cons node nodes)
  obtain t slot where a: "admit reader node (ks_table (lr_state run)) = (t, slot)" by fastforce
  then have t: "tbl.grows reader (ks_table (lr_state run)) t"
    using admit_grows [of reader "ks_table (lr_state run)" node] by simp
  show ?case
  proof (cases slot)
    case None
    then show ?thesis using t by (simp add: a set_table_grows)
  next
    case (Some s)
    have "ker.grows reader (lr_state run) ((lr_state run)\<lparr>ks_table := admission s (lr_rank run) t\<rparr>)"
      using t assms by (intro set_table_grows) (rule tbl.grows_trans)
    then show ?thesis
      using Some by (auto simp: a Let_def intro!: ker.grows_trans [OF _ Cons.IH])
  qed
qed simp

lemma claimExact_grows: "tbl.grows reader t (claimExact px termId c focus slot position t)"
  unfolding claimExact_def Let_def
  by (intro tbl.grows_step [OF _ link_grows] tbl.grows_step [OF _ mark_grows]
      tbl.grows_step [OF _ contribute_grows] claim_grows) simp

lemma admit_seed_grows: "tbl.grows reader t (admit_seed px seed slot position t)"
  unfolding admit_seed_def Let_def
  by (intro tbl.grows_step [OF _ link_grows] tbl.grows_step [OF _ mark_grows]
      tbl.grows_step [OF _ contribute_grows] claim_grows) simp

lemma lr_state_count_match [simp]: "lr_state (count_match ps run) = lr_state run"
  by (simp add: count_match_def)

lemma anchor_term_grows: "ker.grows reader (lr_state run) (lr_state (anchor_term reader px limit term run))"
proof -
  have "ker.grows reader (lr_state r)
      (lr_state (admitPostings reader (claimExact px i c f) limit ps (count_match qs r)))" for i c f ps qs r
    using admitPostings_grows [of reader "claimExact px i c f", OF claimExact_grows, of "count_match qs r"] by simp
  note step = this
  show ?thesis unfolding anchor_term_def Let_def by (rule ker.grows_trans [OF step step])
qed

lemma anchor_focus_grows: "ker.grows reader (lr_state run) (lr_state (anchor_focus reader px limit f run))"
  unfolding anchor_focus_def Let_def
  by (auto intro: ker.grows_trans [OF warn_grows omit_grows] admitPostings_grows [OF claimExact_grows])

text \<open>Runs are ordered by their state; a fold of growing steps grows.\<close>

interpretation run: invariant_order "\<lambda>r. kernel_inv reader (lr_state r)" "\<lambda>r r'. kernel_le (lr_state r) (lr_state r')" for reader
  by unfold_locales (auto intro: ker.le_refl ker.le_trans)

lemma run_grows_iff: "run.grows reader r r' \<longleftrightarrow> ker.grows reader (lr_state r) (lr_state r')"
  by (simp add: run.grows_def ker.grows_def)

lemma provided_fold_grows:
  "ker.grows reader (lr_state (fst acc)) (lr_state (fst (fold (provided_step reader px limit) seeds acc)))"
proof (induction seeds arbitrary: acc)
  case (Cons seed seeds)
  have "ker.grows reader (lr_state (fst acc)) (lr_state (fst (provided_step reader px limit seed acc)))"
    by (simp add: provided_step_def Let_def admitPostings_grows [OF admit_seed_grows])
  from ker.grows_trans [OF this Cons.IH] show ?case by simp
qed simp

lemma admitProvidedSeeds_grows:
  "ker.grows reader (lr_state run) (lr_state (admitProvidedSeeds reader px request limit run))"
proof -
  obtain run' u where f: "fold (provided_step reader px limit) (rq_seeds request) (run, 0) = (run', u)"
    by fastforce
  then have "ker.grows reader (lr_state run) (lr_state run')"
    using provided_fold_grows [where acc = "(run, 0)" and seeds = "rq_seeds request"] by (metis fst_conv)
  then show ?thesis
    by (auto simp: admitProvidedSeeds_def f intro: ker.grows_trans warn_grows omit_grows)
qed

lemma anchor_lane_grows: "ker.grows reader s (fst (runAnchorLane reader px request s))"
proof -
  let ?limit = "kc_laneTopN (px_kernelConfig px)"
  define run0 where "run0 = \<lparr>lr_state = s, lr_count = counters, lr_rank = 0\<rparr>"
  define run1 where "run1 = fold (anchor_term reader px ?limit) (px_anchorTerms px) run0"
  define run2 where "run2 = fold (anchor_focus reader px ?limit) (px_focusPaths px) run1"
  have "run.grows reader run0 run1" unfolding run1_def
    by (rule run.grows_fold) (simp add: run_grows_iff anchor_term_grows)
  moreover have "run.grows reader run1 run2" unfolding run2_def
    by (rule run.grows_fold) (simp add: run_grows_iff anchor_focus_grows)
  ultimately have "run.grows reader run0 (admitProvidedSeeds reader px request ?limit run2)"
    using admitProvidedSeeds_grows run_grows_iff run.grows_trans by blast
  then have "ker.grows reader s (lr_state (admitProvidedSeeds reader px request ?limit run2))"
    by (simp add: run_grows_iff run0_def)
  then show ?thesis
    by (auto simp: runAnchorLane_def Let_def run2_def run1_def run0_def intro: ker.grows_trans)
qed

lemma posting_loop_grows: "tbl.grows reader t (fst (posting_loop reader l ps i (t, c)))"
proof (induction ps arbitrary: t c i)
  case (Cons p ps)
  obtain node score where p: "p = (node, score)" by fastforce
  obtain t1 slot where a: "admit reader node t = (t1, slot)" by fastforce
  then have t1: "tbl.grows reader t t1" using admit_grows [of reader t node] by simp
  have new: "tbl.grows reader t1 (link k node (- 1) (- 1) 0 (mark k SEED t1))" for k
    by (intro tbl.grows_step [OF _ link_grows] mark_grows)
  have step: "tbl.grows reader u (contribute k l i score (- 1) (claim k l text_candidate u))" for k u
    by (intro tbl.grows_step [OF _ contribute_grows] claim_grows) simp
  have "tbl.grows reader t (fst (posting_loop reader l ps j (contribute k l i score (- 1) (claim k l text_candidate v), d)))"
    if "tbl.grows reader t1 v" for v k j d
    by (rule tbl.grows_trans [OF tbl.grows_trans [OF tbl.grows_trans [OF t1 that] step] Cons.IH])
  from this [OF new] this [OF tbl.grows_refl] show ?case using t1
    by (simp add: p a Let_def split: option.split)
qed simp

lemma posting_lane_grows: "ker.grows reader s (fst (runPostingLane reader px l s))"
proof (cases "length (pl_termIds (px_plan px)) = 0")
  case False
  define merged where "merged = (if l = L_lexical then rd_lexical reader (pl_termIds (px_plan px)) (plan_bounds (px_plan px))
                         else rd_coarse reader (pl_termIds (px_plan px)) (plan_bounds (px_plan px)))"
  define limit where "limit = min (length (ss_postings merged)) (kc_laneTopN (px_kernelConfig px))"
  obtain t c where e: "posting_loop reader l (take limit (ss_postings merged)) 0
      (ks_table s, counters\<lparr>lc_matchedTerms := ss_matchedTerms merged, lc_truncated := ss_truncated merged\<rparr>) = (t, c)"
    by fastforce
  then have "tbl.grows reader (ks_table s) t"
    using posting_loop_grows by (metis fst_conv)
  then have "ker.grows reader s (s\<lparr>ks_table := t\<rparr>)" by (rule set_table_grows)
  then show ?thesis using False e
    by (auto simp: runPostingLane_def Let_def merged_def [symmetric] limit_def [symmetric]
        intro: ker.grows_trans split: prod.split)
qed (simp add: runPostingLane_def)

lemma runSeedLanes_grows: "ker.grows reader s (fst (runSeedLanes reader px request s))"
proof -
  obtain s1 a where 1: "runAnchorLane reader px request s = (s1, a)" by fastforce
  obtain s2 b where 2: "runPostingLane reader px L_lexical s1 = (s2, b)" by fastforce
  obtain s3 c where 3: "runPostingLane reader px L_coarse s2 = (s3, c)" by fastforce
  have "ker.grows reader s s1" "ker.grows reader s1 s2" "ker.grows reader s2 s3"
    using anchor_lane_grows posting_lane_grows 1 2 3 by (metis fst_conv)+
  then have "ker.grows reader s s3" by (blast intro: ker.grows_trans)
  then show ?thesis
    by (auto simp: runSeedLanes_def 1 2 3 Let_def intro: ker.grows_trans)
qed

lemma markNameAnchors_grows: "tbl.grows reader t (fst (markNameAnchors reader px t))"
proof -
  have "tbl.grows reader (fst acc) (fst (fold (name_step reader name) slots acc))" for name slots acc
  proof (induction slots arbitrary: acc)
    case (Cons k slots)
    have "tbl.grows reader (fst acc) (fst (name_step reader name k acc))"
      by (simp add: name_step_def mark_grows)
    from tbl.grows_trans [OF this Cons.IH] show ?case by simp
  qed simp
  from this [where acc = "(t, 0)"] show ?thesis by (simp add: markNameAnchors_def split: option.split)
qed

end
