(* ===== verification/Kernel_Safety.thy ===== *)
theory Kernel_Safety
  imports Kernel_Lanes
begin

text \<open>
  The safety closure, \<open>query/kernel-safety.ts\<close>: a breadth-first walk over the safety relations
  from every seed, run before the relevance traversal.  \<open>cl_queue\<close> is the filled prefix of
  the \<open>queue\<close> and \<open>depths\<close> arrays.  Each round of the loop consumes one of the queue's
  \<open>maxNodes\<close> cells, so \<open>maxNodes\<close> rounds of fuel are enough (\<open>closure_loop_done\<close>).
\<close>

subsection \<open>State\<close>

record closure =
  cl_state :: kernel_state
  cl_queue :: "(int \<times> nat) list"
  cl_seen :: "int set"
  cl_head :: nat
  cl_edges :: nat
  cl_capHit :: bool
  cl_timedOut :: bool
  cl_since :: nat

record safety_outcome =
  so_visitedNodes :: nat
  so_visitedEdges :: nat
  so_capHit :: bool
  so_timedOut :: bool

subsection \<open>Steps\<close>

text \<open>
  The deadline check both walks share: every \<open>timeoutCheckInterval\<close> edges the injected
  clock is read, and only when there is a deadline.  The result is the new counter, the
  number of readings, and whether the deadline has passed.
\<close>

definition deadline_check :: "plan_context \<Rightarrow> nat \<Rightarrow> nat \<Rightarrow> nat \<times> nat \<times> bool" where
  "deadline_check px since ticks =
     (if rc_timeoutCheckInterval (px_config px) \<le> since then
        (case px_deadline px of
           None \<Rightarrow> (0, ticks, False)
         | Some d \<Rightarrow> (0, ticks + 1, d < px_clock px ticks))
      else (since, ticks, False))"

definition enqueue :: "nat \<Rightarrow> int \<Rightarrow> nat \<Rightarrow> closure \<Rightarrow> closure \<times> bool" where
  "enqueue maxNodes node depth c =
     (if node \<in> cl_seen c then (c, True)
      else if maxNodes \<le> length (cl_queue c) then (c\<lparr>cl_capHit := True\<rparr>, False)
      else (c\<lparr>cl_seen := insert node (cl_seen c), cl_queue := cl_queue c @ [(node, depth)]\<rparr>, True))"

definition closure_mark :: "plan_context \<Rightarrow> edge_view \<Rightarrow> nat \<Rightarrow> candidate_table \<Rightarrow> candidate_table" where
  "closure_mark px e slot t =
     (let t1 = mark slot SAFETY t;
          t2 = (if mask_has (px_conflictEdgeMask px) (ev_type e) then mark slot CONFLICT t1 else t1);
          t3 = (if hasFlag (c_nodeFlags (row t2 slot)) NODE_PROTECTED then mark slot PROTECTED t2 else t2)
      in if hasFlag (c_nodeFlags (row t3 slot)) NODE_IS_TEST_OR_GATE then mark slot TEST_OR_GATE t3 else t3)"

definition closure_link :: "int \<Rightarrow> edge_view \<Rightarrow> nat \<Rightarrow> nat \<Rightarrow> candidate_table \<Rightarrow> candidate_table" where
  "closure_link node e depth slot t =
     (if c_parentEdge (row t slot) < 0 \<and> \<not> has t slot SEED
      then link slot node node (ev_edge e) (depth + 1) t else t)"

text \<open>One call of \<open>cursor.next()\<close> and the loop body it opens; \<open>True\<close> asks for another.\<close>

definition closure_edge ::
  "index_reader \<Rightarrow> plan_context \<Rightarrow> nat \<Rightarrow> int \<Rightarrow> nat \<Rightarrow> edge_view \<Rightarrow> closure \<Rightarrow> closure \<times> bool" where
  "closure_edge reader px maxNodes node depth e c =
     (let (since, ticks, expired) = deadline_check px (cl_since c + 1) (ks_ticks (cl_state c));
          c1 = c\<lparr>cl_edges := cl_edges c + 1, cl_since := since,
                 cl_state := (cl_state c)\<lparr>ks_ticks := ticks\<rparr>\<rparr>
      in if expired then (c1\<lparr>cl_timedOut := True\<rparr>, False)
         else if kc_safetyMaxVisitedEdges (px_kernelConfig px) \<le> cl_edges c1
              then (c1\<lparr>cl_capHit := True\<rparr>, False)
         else if \<not> mask_has (px_safetyEdgeMask px) (ev_type e) then (c1, True)
         else
           let (t, slot) = admit reader (ev_target e) (ks_table (cl_state c1))
           in case slot of
                None \<Rightarrow> (c1\<lparr>cl_state := (cl_state c1)\<lparr>ks_table := t\<rparr>, cl_capHit := True\<rparr>, True)
              | Some s \<Rightarrow>
                  enqueue maxNodes (ev_target e) (depth + 1)
                    (c1\<lparr>cl_state := (cl_state c1)\<lparr>ks_table :=
                          closure_link node e depth s (closure_mark px e s t)\<rparr>\<rparr>))"

fun closure_edges ::
  "index_reader \<Rightarrow> plan_context \<Rightarrow> nat \<Rightarrow> int \<Rightarrow> nat \<Rightarrow> edge_view list \<Rightarrow> closure \<Rightarrow> closure" where
  "closure_edges reader px maxNodes node depth [] c = c"
| "closure_edges reader px maxNodes node depth (e # es) c =
     (let (c', continue) = closure_edge reader px maxNodes node depth e c
      in if continue then closure_edges reader px maxNodes node depth es c' else c')"

definition closure_visit :: "index_reader \<Rightarrow> plan_context \<Rightarrow> nat \<Rightarrow> closure \<Rightarrow> closure" where
  "closure_visit reader px maxNodes c =
     (let (node, depth) = cl_queue c ! cl_head c;
          c1 = c\<lparr>cl_head := cl_head c + 1\<rparr>
      in if kc_safetyMaxDepth (px_kernelConfig px) \<le> depth then c1
         else
           let mask = pl_profileMask (px_plan px);
               c2 = closure_edges reader px maxNodes node depth (rd_outgoing reader node mask) c1
           in if cl_timedOut c2 then c2
              else closure_edges reader px maxNodes node depth (rd_incoming reader node mask) c2)"

definition closure_continues :: "closure \<Rightarrow> bool" where
  "closure_continues c \<longleftrightarrow> cl_head c < length (cl_queue c) \<and> \<not> cl_timedOut c"

fun closure_loop :: "index_reader \<Rightarrow> plan_context \<Rightarrow> nat \<Rightarrow> nat \<Rightarrow> closure \<Rightarrow> closure" where
  "closure_loop reader px maxNodes 0 c = c"
| "closure_loop reader px maxNodes (Suc fuel) c =
     (if closure_continues c
      then closure_loop reader px maxNodes fuel (closure_visit reader px maxNodes c) else c)"

fun closure_seeds :: "nat \<Rightarrow> candidate_table \<Rightarrow> nat list \<Rightarrow> closure \<Rightarrow> closure" where
  "closure_seeds maxNodes t [] c = c"
| "closure_seeds maxNodes t (slot # slots) c =
     (if \<not> has t slot SEED then closure_seeds maxNodes t slots c
      else let (c', continue) = enqueue maxNodes (c_node (row t slot)) 0 c
           in if continue then closure_seeds maxNodes t slots c' else c')"

definition closure_max_nodes :: "plan_context \<Rightarrow> nat" where
  "closure_max_nodes px = nat (max 0 (kc_safetyMaxVisitedNodes (px_kernelConfig px)))"

definition closure_start :: "kernel_state \<Rightarrow> closure" where
  "closure_start s =
     \<lparr>cl_state = s, cl_queue = [], cl_seen = {}, cl_head = 0, cl_edges = 0, cl_capHit = False,
      cl_timedOut = False, cl_since = 0\<rparr>"

definition closure_run :: "index_reader \<Rightarrow> plan_context \<Rightarrow> kernel_state \<Rightarrow> closure" where
  "closure_run reader px s =
     closure_loop reader px (closure_max_nodes px) (closure_max_nodes px)
       (closure_seeds (closure_max_nodes px) (ks_table s) [0..<ct_size (ks_table s)] (closure_start s))"

definition runSafetyClosure ::
  "index_reader \<Rightarrow> plan_context \<Rightarrow> kernel_state \<Rightarrow> kernel_state \<times> safety_outcome" where
  "runSafetyClosure reader px s =
     (let c = closure_run reader px s;
          s1 = (if cl_capHit c then omit O_safety_cap 1 (warn W_safety_cap (cl_state c)) else cl_state c);
          s2 = (if cl_timedOut c then omit O_timeout 1 (warn W_safety_deadline s1) else s1)
      in (s2, \<lparr>so_visitedNodes = length (cl_queue c), so_visitedEdges = cl_edges c,
               so_capHit = cl_capHit c, so_timedOut = cl_timedOut c\<rparr>))"

subsection \<open>Invariant and growth\<close>

definition closure_inv :: "index_reader \<Rightarrow> nat \<Rightarrow> closure \<Rightarrow> bool" where
  "closure_inv reader maxNodes c \<longleftrightarrow>
     kernel_inv reader (cl_state c) \<and> length (cl_queue c) \<le> maxNodes \<and> cl_seen c = fst ` set (cl_queue c) \<and>
     distinct (map fst (cl_queue c)) \<and> cl_head c \<le> length (cl_queue c)"

definition closure_le :: "closure \<Rightarrow> closure \<Rightarrow> bool" where
  "closure_le c c' \<longleftrightarrow>
     kernel_le (cl_state c) (cl_state c') \<and> (\<exists>more. cl_queue c' = cl_queue c @ more) \<and>
     cl_head c \<le> cl_head c' \<and> cl_edges c \<le> cl_edges c' \<and>
     (cl_capHit c \<longrightarrow> cl_capHit c') \<and> (cl_timedOut c \<longrightarrow> cl_timedOut c')"

interpretation clo: invariant_order "closure_inv reader maxNodes" closure_le for reader maxNodes
proof
  show "closure_le c c" if "closure_inv reader maxNodes c" for c
    using that by (simp add: closure_le_def closure_inv_def kernel_le_refl)
  show "closure_le c e" if "closure_inv reader maxNodes c" "closure_inv reader maxNodes d" "closure_inv reader maxNodes e"
    "closure_le c d" "closure_le d e" for c d e
    using that unfolding closure_le_def closure_inv_def
    by (auto intro: ker.le_trans [of reader "cl_state c" "cl_state d" "cl_state e"])
qed

lemma deadline_check_ticks: "deadline_check px since ticks = (since', ticks', b) \<Longrightarrow> ticks \<le> ticks'"
  by (auto simp: deadline_check_def split: if_splits option.splits)

lemma ticks_grows: "ks_ticks s \<le> n \<Longrightarrow> ker.grows reader s (s\<lparr>ks_ticks := n\<rparr>)"
  by (rule ker.growsI) (simp_all add: kernel_inv_def kernel_le_def tbl.le_refl)

lemma state_grows:
  assumes "ker.grows reader (cl_state c) (cl_state c')" "cl_edges c \<le> cl_edges c'"
    "cl_capHit c \<longrightarrow> cl_capHit c'" "cl_timedOut c \<longrightarrow> cl_timedOut c'"
    "cl_queue c' = cl_queue c" "cl_seen c' = cl_seen c" "cl_head c' = cl_head c"
  shows "clo.grows reader maxNodes c c'"
  using assms by (auto simp: clo.grows_def closure_inv_def closure_le_def ker.grows_def)

lemma enqueue_grows: "clo.grows reader maxNodes c (fst (enqueue maxNodes node depth c))"
  by (rule clo.growsI) (auto simp: enqueue_def closure_inv_def closure_le_def kernel_le_refl rev_image_eqI)

lemma closure_mark_grows: "tbl.grows reader t (closure_mark px e slot t)"
proof -
  have if_mark: "tbl.grows reader t (if b then mark slot f u else u)" if "tbl.grows reader t u" for b f u
    using that by (auto intro: tbl.grows_step [OF _ mark_grows])
  show ?thesis unfolding closure_mark_def Let_def by (intro if_mark mark_grows)
qed

lemma closure_link_grows: "tbl.grows reader t (closure_link node e depth slot t)"
  by (simp add: closure_link_def link_grows)

text \<open>The state and counters an edge leaves before the neighbour is enqueued.\<close>

lemma closure_edge_cases:
  assumes "closure_edge reader px maxNodes node depth e c = (c', continue)"
  obtains (stopped) "\<not> continue" "cl_capHit c' \<or> cl_timedOut c'" "clo.grows reader maxNodes c c'"
  | (skipped) "continue" "\<not> mask_has (px_safetyEdgeMask px) (ev_type e)" "clo.grows reader maxNodes c c'"
      "cl_queue c' = cl_queue c" "cl_timedOut c' = cl_timedOut c"
  | (refused) "continue" "cl_capHit c'" "clo.grows reader maxNodes c c'" "cl_queue c' = cl_queue c"
  | (reached) c2 slot t where "clo.grows reader maxNodes c c2" "cl_queue c2 = cl_queue c"
      "ks_table (cl_state c2) = closure_link node e depth slot (closure_mark px e slot t)"
      "tbl.grows reader (ks_table (cl_state c)) t"
      "admit reader (ev_target e) (ks_table (cl_state c)) = (t, Some slot)"
      "enqueue maxNodes (ev_target e) (depth + 1) c2 = (c', continue)"
      "cl_timedOut c2 = cl_timedOut c"
proof -
  obtain since ticks expired where d: "deadline_check px (cl_since c + 1) (ks_ticks (cl_state c)) = (since, ticks, expired)"
    by (cases "deadline_check px (cl_since c + 1) (ks_ticks (cl_state c))") auto
  obtain t slot where a: "admit reader (ev_target e) (ks_table (cl_state c)) = (t, slot)" by fastforce
  define s1 where "s1 = (cl_state c)\<lparr>ks_ticks := ticks\<rparr>"
  define c1 where "c1 = c\<lparr>cl_edges := cl_edges c + 1, cl_since := since, cl_state := s1\<rparr>"
  have s1: "ker.grows reader (cl_state c) s1"
    unfolding s1_def by (rule ticks_grows) (rule deadline_check_ticks [OF d])
  have t: "tbl.grows reader (ks_table (cl_state c)) t" using admit_grows [of reader "ks_table (cl_state c)" "ev_target e"] a by simp
  have tab: "ker.grows reader (cl_state c) (s1\<lparr>ks_table := u\<rparr>)" if "tbl.grows reader (ks_table (cl_state c)) u" for u
    by (rule ker.grows_trans [OF s1 set_table_grows]) (simp add: s1_def that)
  have e: "closure_edge reader px maxNodes node depth e c =
     (if expired then (c1\<lparr>cl_timedOut := True\<rparr>, False)
      else if kc_safetyMaxVisitedEdges (px_kernelConfig px) \<le> cl_edges c1 then (c1\<lparr>cl_capHit := True\<rparr>, False)
      else if \<not> mask_has (px_safetyEdgeMask px) (ev_type e) then (c1, True)
      else case slot of
             None \<Rightarrow> (c1\<lparr>cl_state := s1\<lparr>ks_table := t\<rparr>, cl_capHit := True\<rparr>, True)
           | Some s \<Rightarrow> enqueue maxNodes (ev_target e) (depth + 1)
               (c1\<lparr>cl_state := s1\<lparr>ks_table := closure_link node e depth s (closure_mark px e s t)\<rparr>\<rparr>))"
    by (simp add: closure_edge_def d [simplified] a c1_def s1_def Let_def split: option.split)
  consider "expired" | "\<not> expired" "kc_safetyMaxVisitedEdges (px_kernelConfig px) \<le> cl_edges c1"
    | "\<not> expired" "\<not> kc_safetyMaxVisitedEdges (px_kernelConfig px) \<le> cl_edges c1" "\<not> mask_has (px_safetyEdgeMask px) (ev_type e)"
    | "\<not> expired" "\<not> kc_safetyMaxVisitedEdges (px_kernelConfig px) \<le> cl_edges c1" "mask_has (px_safetyEdgeMask px) (ev_type e)" "slot = None"
    | s where "\<not> expired" "\<not> kc_safetyMaxVisitedEdges (px_kernelConfig px) \<le> cl_edges c1" "mask_has (px_safetyEdgeMask px) (ev_type e)" "slot = Some s"
    by (cases slot) blast+
  then show thesis
  proof cases
    case 1
    then show ?thesis using assms e s1 by (intro stopped state_grows) (auto simp: c1_def)
  next
    case 2
    then show ?thesis using assms e s1 by (intro stopped state_grows) (auto simp: c1_def)
  next
    case 3
    then show ?thesis using assms e s1 by (intro skipped state_grows) (auto simp: c1_def)
  next
    case 4
    then show ?thesis using assms e tab [OF t] by (intro refused state_grows) (auto simp: c1_def)
  next
    case (5 s)
    let ?u = "closure_link node e depth s (closure_mark px e s t)"
    let ?c2 = "c1\<lparr>cl_state := s1\<lparr>ks_table := ?u\<rparr>\<rparr>"
    have "tbl.grows reader (ks_table (cl_state c)) ?u"
      by (intro tbl.grows_step [OF _ closure_link_grows] tbl.grows_step [OF _ closure_mark_grows] t)
    then have "clo.grows reader maxNodes c ?c2"
      using tab by (intro state_grows) (simp_all add: c1_def)
    then show ?thesis
      by (rule reached [of ?c2 s t]) (use assms e 5 t a in \<open>auto simp: c1_def\<close>)
  qed
qed

subsection \<open>What an uncapped closure has covered\<close>

definition clean :: "closure \<Rightarrow> bool" where
  "clean c \<longleftrightarrow> \<not> cl_capHit c \<and> \<not> cl_timedOut c"

text \<open>The far end of a safety edge is a candidate that carries every mark the edge asks for.\<close>

definition edge_covered :: "plan_context \<Rightarrow> edge_view \<Rightarrow> candidate_table \<Rightarrow> bool" where
  "edge_covered px e t \<longleftrightarrow>
     (\<exists>s < ct_size t. c_node (row t s) = ev_target e \<and> has t s SAFETY \<and>
        (mask_has (px_conflictEdgeMask px) (ev_type e) \<longrightarrow> has t s CONFLICT) \<and>
        (hasFlag (c_nodeFlags (row t s)) NODE_PROTECTED \<longrightarrow> has t s PROTECTED) \<and>
        (hasFlag (c_nodeFlags (row t s)) NODE_IS_TEST_OR_GATE \<longrightarrow> has t s TEST_OR_GATE))"

definition closure_covers :: "plan_context \<Rightarrow> nat \<Rightarrow> edge_view \<Rightarrow> closure \<Rightarrow> bool" where
  "closure_covers px depth e c \<longleftrightarrow>
     mask_has (px_safetyEdgeMask px) (ev_type e) \<longrightarrow>
       edge_covered px e (ks_table (cl_state c)) \<and>
       (\<exists>d \<le> depth + 1. (ev_target e, d) \<in> set (cl_queue c))"

lemma edge_covered_mono: "table_le t t' \<Longrightarrow> edge_covered px e t \<Longrightarrow> edge_covered px e t'"
  unfolding edge_covered_def table_le_def row_le_def has_def by (smt (verit, best) order_less_le_trans)

lemma closure_covers_mono:
  assumes "closure_le c c'" "closure_covers px depth e c"
  shows "closure_covers px depth e c'"
  using assms edge_covered_mono [of "ks_table (cl_state c)" "ks_table (cl_state c')"]
  unfolding closure_covers_def closure_le_def kernel_le_def by fastforce

lemma clean_mono: "closure_le c c' \<Longrightarrow> clean c' \<Longrightarrow> clean c"
  by (auto simp: closure_le_def clean_def)

lemma flags_mark_other: "s < ct_size t \<Longrightarrow> c_nodeFlags (row (mark s f t) s') = c_nodeFlags (row t s')"
  and node_mark: "s < ct_size t \<Longrightarrow> c_node (row (mark s f t) s') = c_node (row t s')"
  by (simp_all add: mark_def row_update_row_at)

lemma size_mark [simp]: "ct_size (mark s f t) = ct_size t"
  and size_link [simp]: "ct_size (link s a b c d t) = ct_size t"
  by (simp_all add: mark_def link_def)

lemma has_link [simp]: "s < ct_size t \<Longrightarrow> has (link s a b c d t) s' f = has t s' f"
  by (simp add: has_def link_def row_update_row_at)

lemma hasFlag_self: "hasFlag SAFETY SAFETY" "hasFlag CONFLICT CONFLICT" "hasFlag PROTECTED PROTECTED"
  "hasFlag TEST_OR_GATE TEST_OR_GATE"
  by (simp_all add: hasFlag_def candidate_flag_defs)

lemma closure_mark_covers:
  assumes "s < ct_size t" "c_node (row t s) = ev_target e"
  shows "edge_covered px e (closure_link node e depth s (closure_mark px e s t))"
proof -
  let ?m = "closure_mark px e s t"
  have m: "ct_size ?m = ct_size t" "c_node (row ?m s) = ev_target e" "has ?m s SAFETY"
    "mask_has (px_conflictEdgeMask px) (ev_type e) \<longrightarrow> has ?m s CONFLICT"
    "hasFlag (c_nodeFlags (row ?m s)) NODE_PROTECTED \<longrightarrow> has ?m s PROTECTED"
    "hasFlag (c_nodeFlags (row ?m s)) NODE_IS_TEST_OR_GATE \<longrightarrow> has ?m s TEST_OR_GATE"
    using assms
    by (simp_all add: closure_mark_def Let_def has_mark hasFlag_self flags_mark_other node_mark)
  have "row (closure_link node e depth s ?m) s =
      (if c_parentEdge (row ?m s) < 0 \<and> \<not> has ?m s SEED
       then (row ?m s)\<lparr>c_seed := node, c_parentNode := node, c_parentEdge := ev_edge e, c_depth := depth + 1\<rparr>
       else row ?m s)"
    using assms m(1) by (simp add: closure_link_def link_def row_update_row)
  moreover have "ct_size (closure_link node e depth s ?m) = ct_size t"
    using m(1) by (simp add: closure_link_def)
  ultimately show ?thesis
    using m assms unfolding edge_covered_def
    by (intro exI [of _ s]) (auto simp: has_def)
qed

lemma enqueue_queue:
  assumes "enqueue maxNodes node depth c = (c', continue)"
  shows "\<exists>more. cl_queue c' = cl_queue c @ more \<and> set more \<subseteq> {(node, depth)}"
    and "cl_state c' = cl_state c"
    and "closure_inv reader maxNodes c \<Longrightarrow> continue \<Longrightarrow> \<exists>d. (node, d) \<in> set (cl_queue c')"
    and "\<not> continue \<Longrightarrow> cl_capHit c'"
    and "cl_timedOut c' = cl_timedOut c"
  using assms by (auto simp: enqueue_def closure_inv_def split: if_splits)

lemma closure_edge_step:
  assumes "closure_edge reader px maxNodes node depth e c = (c', continue)"
  shows "clo.grows reader maxNodes c c'"
    and "\<exists>more. cl_queue c' = cl_queue c @ more \<and> set more \<subseteq> {(ev_target e, depth + 1)}"
    and "clean c' \<Longrightarrow> continue"
    and "closure_inv reader maxNodes c \<Longrightarrow> \<forall>x \<in> set (cl_queue c). snd x \<le> depth + 1 \<Longrightarrow> clean c' \<Longrightarrow>
         closure_covers px depth e c'"
proof -
  have "clo.grows reader maxNodes c c' \<and>
    (clean c' \<longrightarrow> continue) \<and>
    (\<exists>more. cl_queue c' = cl_queue c @ more \<and> set more \<subseteq> {(ev_target e, depth + 1)}) \<and>
    (closure_inv reader maxNodes c \<longrightarrow> (\<forall>x \<in> set (cl_queue c). snd x \<le> depth + 1) \<longrightarrow> clean c' \<longrightarrow>
         closure_covers px depth e c')"
    using assms
  proof (cases rule: closure_edge_cases)
    case stopped
    have "cl_queue c' = cl_queue c" using assms stopped(1,2)
      by (auto simp: closure_edge_def Let_def enqueue_def split: prod.splits if_splits option.splits)
    then show ?thesis using stopped by (auto simp: clean_def)
  next
    case (reached c2 slot t)
    have g: "clo.grows reader maxNodes c c'"
      using reached(1) enqueue_grows [of reader maxNodes c2 "ev_target e" "depth + 1"] reached(6) clo.grows_trans
      by (metis fst_conv)
    obtain more where more: "cl_queue c' = cl_queue c @ more" "set more \<subseteq> {(ev_target e, depth + 1)}"
      using enqueue_queue(1) [OF reached(6)] reached(2) by auto
    have cont: "clean c' \<longrightarrow> continue" using enqueue_queue(4) [OF reached(6)] by (auto simp: clean_def)
    have "closure_covers px depth e c'" if i: "closure_inv reader maxNodes c"
      and q: "\<forall>x \<in> set (cl_queue c). snd x \<le> depth + 1" and cl: "clean c'"
    proof -
      have c2: "closure_inv reader maxNodes c2" using reached(1) i by (simp add: clo.grows_def)
      have ti: "table_inv reader (ks_table (cl_state c))" using i by (simp add: closure_inv_def kernel_inv_def)
      have "edge_covered px e (ks_table (cl_state c'))"
        unfolding enqueue_queue(2) [OF reached(6)] reached(3)
        by (rule closure_mark_covers) (use admit_slot [OF ti reached(5)] in auto)
      moreover obtain d where "(ev_target e, d) \<in> set (cl_queue c')"
        using enqueue_queue(3) [OF reached(6) c2] cont cl by blast
      moreover have "\<forall>x \<in> set (cl_queue c'). snd x \<le> depth + 1" using more q by auto
      ultimately show ?thesis by (fastforce simp: closure_covers_def)
    qed
    then show ?thesis using g more cont by blast
  qed (auto simp: clean_def closure_covers_def)
  then show "clo.grows reader maxNodes c c'" "clean c' \<Longrightarrow> continue"
    "\<exists>more. cl_queue c' = cl_queue c @ more \<and> set more \<subseteq> {(ev_target e, depth + 1)}"
    "closure_inv reader maxNodes c \<Longrightarrow> \<forall>x \<in> set (cl_queue c). snd x \<le> depth + 1 \<Longrightarrow> clean c' \<Longrightarrow>
         closure_covers px depth e c'"
    by blast+
qed

lemma enqueue_head [simp]: "cl_head (fst (enqueue maxNodes node depth c)) = cl_head c"
  by (simp add: enqueue_def)

lemma closure_edge_head: "cl_head (fst (closure_edge reader px maxNodes node depth e c)) = cl_head c"
  by (simp add: closure_edge_def Let_def split: prod.split option.split)

lemma closure_edges_head: "cl_head (closure_edges reader px maxNodes node depth es c) = cl_head c"
proof (induction es arbitrary: c)
  case (Cons e es)
  obtain c1 continue where "closure_edge reader px maxNodes node depth e c = (c1, continue)" by fastforce
  then show ?case using closure_edge_head [of reader px maxNodes node depth e c] Cons.IH by simp
qed simp

lemma closure_edges_all:
  fixes es :: "edge_view list" and reader px maxNodes node depth
  defines "run \<equiv> \<lambda>es c. closure_edges reader px maxNodes node depth es c"
  shows "clo.grows reader maxNodes c (run es c) \<and>
    (\<exists>more. cl_queue (run es c) = cl_queue c @ more \<and> (\<forall>x \<in> set more. snd x = depth + 1)) \<and>
    (closure_inv reader maxNodes c \<longrightarrow> (\<forall>x \<in> set (cl_queue c). snd x \<le> depth + 1) \<longrightarrow> clean (run es c) \<longrightarrow>
       (\<forall>e \<in> set es. closure_covers px depth e (run es c)))"
proof (induction es arbitrary: c)
  case (Cons e es)
  obtain c1 continue where e: "closure_edge reader px maxNodes node depth e c = (c1, continue)" by fastforce
  note s = closure_edge_step [OF e]
  obtain more where more: "cl_queue c1 = cl_queue c @ more" "set more \<subseteq> {(ev_target e, depth + 1)}"
    using s(2) by blast
  define c' where "c' = run (e # es) c"
  have c'_eq: "c' = (if continue then run es c1 else c1)" by (simp add: c'_def run_def e)
  have g1: "clo.grows reader maxNodes c1 c'" using Cons.IH [of c1] by (simp add: c'_eq)
  have g: "clo.grows reader maxNodes c c'" by (rule clo.grows_trans [OF s(1) g1])
  have q: "\<exists>more. cl_queue c' = cl_queue c @ more \<and> (\<forall>x \<in> set more. snd x = depth + 1)"
  proof (cases continue)
    case True
    then obtain more' where "cl_queue c' = cl_queue c1 @ more'" "\<forall>x \<in> set more'. snd x = depth + 1"
      using Cons.IH [of c1] by (auto simp: c'_eq)
    then show ?thesis using more by (intro exI [of _ "more @ more'"]) auto
  qed (use more in \<open>auto simp: c'_eq\<close>)
  have "\<forall>e' \<in> set (e # es). closure_covers px depth e' c'"
    if i: "closure_inv reader maxNodes c" and d: "\<forall>x \<in> set (cl_queue c). snd x \<le> depth + 1" and cl: "clean c'"
  proof -
    have i1: "closure_inv reader maxNodes c1" using s(1) i by (simp add: clo.grows_def)
    then have le: "closure_le c1 c'" using g1 by (simp add: clo.grows_def)
    then have "clean c1" using clean_mono cl by blast
    then have cov: "continue" "closure_covers px depth e c1" using s(3,4) i d by blast+
    have "\<forall>x \<in> set (cl_queue c1). snd x \<le> depth + 1" using more d by auto
    then have "\<forall>e \<in> set es. closure_covers px depth e c'"
      using Cons.IH [of c1] i1 cl cov(1) by (simp add: c'_eq)
    then show ?thesis using closure_covers_mono [OF le cov(2)] by simp
  qed
  then show ?case using g q by (simp add: c'_def)
qed (simp add: run_def)

lemmas closure_edges_grows = closure_edges_all [THEN conjunct1]
lemmas closure_edges_queue = closure_edges_all [THEN conjunct2, THEN conjunct1]
lemmas closure_edges_cover = closure_edges_all [THEN conjunct2, THEN conjunct2, rule_format]

subsection \<open>The loop\<close>

text \<open>
  Queue depths ascend, and never pass the depth of the next node to visit by more than
  one: that is what makes a first discovery a shallowest one.
\<close>

definition level_ordered :: "closure \<Rightarrow> bool" where
  "level_ordered c \<longleftrightarrow>
     sorted (map snd (cl_queue c)) \<and>
     (cl_head c < length (cl_queue c) \<longrightarrow>
        (\<forall>x \<in> set (cl_queue c). snd x \<le> snd (cl_queue c ! cl_head c) + 1))"

definition visited_cover :: "index_reader \<Rightarrow> plan_context \<Rightarrow> closure \<Rightarrow> bool" where
  "visited_cover reader px c \<longleftrightarrow>
     (\<forall>i < cl_head c. \<forall>e.
        snd (cl_queue c ! i) < kc_safetyMaxDepth (px_kernelConfig px) \<longrightarrow>
        e \<in> set (rd_outgoing reader (fst (cl_queue c ! i)) (pl_profileMask (px_plan px))) \<union>
            set (rd_incoming reader (fst (cl_queue c ! i)) (pl_profileMask (px_plan px))) \<longrightarrow>
        closure_covers px (snd (cl_queue c ! i)) e c)"

definition loop_inv :: "index_reader \<Rightarrow> plan_context \<Rightarrow> nat \<Rightarrow> closure \<Rightarrow> bool" where
  "loop_inv reader px maxNodes c \<longleftrightarrow>
     closure_inv reader maxNodes c \<and> level_ordered c \<and> (clean c \<longrightarrow> visited_cover reader px c)"

lemma closure_visit_step:
  assumes inv: "loop_inv reader px maxNodes c" and more: "cl_head c < length (cl_queue c)"
  shows "loop_inv reader px maxNodes (closure_visit reader px maxNodes c)"
    and "closure_le c (closure_visit reader px maxNodes c)"
    and "cl_head (closure_visit reader px maxNodes c) = cl_head c + 1"
proof -
  obtain node depth where nd: "cl_queue c ! cl_head c = (node, depth)" by fastforce
  define c1 where "c1 = c\<lparr>cl_head := cl_head c + 1\<rparr>"
  define out where "out = rd_outgoing reader node (pl_profileMask (px_plan px))"
  define inc where "inc = rd_incoming reader node (pl_profileMask (px_plan px))"
  define c2 where "c2 = closure_edges reader px maxNodes node depth out c1"
  define c3 where "c3 = closure_edges reader px maxNodes node depth inc c2"
  define deep where "deep = (kc_safetyMaxDepth (px_kernelConfig px) \<le> depth)"
  define c' where "c' = closure_visit reader px maxNodes c"
  have c': "c' = (if deep then c1 else if cl_timedOut c2 then c2 else c3)"
    by (simp add: c'_def closure_visit_def nd Let_def c1_def c2_def c3_def out_def inc_def deep_def)
  have i0: "closure_inv reader maxNodes c" and lo: "level_ordered c" using inv by (simp_all add: loop_inv_def)
  have i1: "closure_inv reader maxNodes c1" using i0 more by (simp add: closure_inv_def c1_def)
  have le1: "closure_le c c1" using i0
    by (simp add: closure_le_def c1_def kernel_le_refl closure_inv_def)
  have d1: "\<forall>x \<in> set (cl_queue c1). snd x \<le> depth + 1"
    using lo more nd by (simp add: level_ordered_def c1_def)
  have i2: "closure_inv reader maxNodes c2" and le2: "closure_le c1 c2"
    using closure_edges_grows [of reader maxNodes c1 px node depth out] i1
    by (simp_all add: clo.grows_def c2_def)
  obtain m2 where m2: "cl_queue c2 = cl_queue c1 @ m2" "\<forall>x \<in> set m2. snd x = depth + 1"
    using closure_edges_queue [of reader px maxNodes node depth out c1] by (auto simp: c2_def)
  have d2: "\<forall>x \<in> set (cl_queue c2). snd x \<le> depth + 1" using d1 m2 by auto
  have i3: "closure_inv reader maxNodes c3" and le3: "closure_le c2 c3"
    using closure_edges_grows [of reader maxNodes c2 px node depth inc] i2
    by (simp_all add: clo.grows_def c3_def)
  obtain m3 where m3: "cl_queue c3 = cl_queue c2 @ m3" "\<forall>x \<in> set m3. snd x = depth + 1"
    using closure_edges_queue [of reader px maxNodes node depth inc c2] by (auto simp: c3_def)
  have i': "closure_inv reader maxNodes c'" and le1': "closure_le c1 c'"
    using i1 i2 i3 le2 clo.le_trans [OF i1 i2 i3 le2 le3] clo.le_refl [OF i1] by (auto simp: c')
  have le': "closure_le c c'" by (rule clo.le_trans [OF i0 i1 i' le1 le1'])
  obtain m where m: "cl_queue c' = cl_queue c @ m" "\<forall>x \<in> set m. snd x = depth + 1"
  proof (rule that)
    show "cl_queue c' = cl_queue c @ (if deep then [] else if cl_timedOut c2 then m2 else m2 @ m3)"
      using m2 m3 by (simp add: c' c1_def)
  qed (use m2 m3 in auto)
  have head: "cl_head c' = cl_head c + 1"
    by (simp add: c' c3_def c2_def c1_def closure_edges_head)
  show "cl_head (closure_visit reader px maxNodes c) = cl_head c + 1" using head by (simp add: c'_def)
  show "closure_le c (closure_visit reader px maxNodes c)" using le' by (simp add: c'_def)
  have "level_ordered c'"
  proof -
    have "sorted (map snd m)" using m(2) by (induction m) auto
    then have "sorted (map snd (cl_queue c'))"
      using lo more nd m unfolding level_ordered_def by (auto simp: sorted_append)
    moreover have "depth \<le> snd (cl_queue c' ! cl_head c')" if h: "cl_head c' < length (cl_queue c')"
    proof -
      have "snd (cl_queue c' ! cl_head c) \<le> snd (cl_queue c' ! cl_head c')"
        using sorted_nth_mono [OF calculation, of "cl_head c" "cl_head c'"] h head by simp
      then show ?thesis using nd m(1) more by (simp add: nth_append)
    qed
    moreover have "\<forall>x \<in> set (cl_queue c'). snd x \<le> depth + 1" using d1 m by (auto simp: c1_def)
    ultimately show ?thesis unfolding level_ordered_def by fastforce
  qed
  moreover have "visited_cover reader px c'" if cl: "clean c'"
    unfolding visited_cover_def
  proof (intro allI impI)
    fix i e
    assume i: "i < cl_head c'" "snd (cl_queue c' ! i) < kc_safetyMaxDepth (px_kernelConfig px)"
      and e: "e \<in> set (rd_outgoing reader (fst (cl_queue c' ! i)) (pl_profileMask (px_plan px))) \<union>
            set (rd_incoming reader (fst (cl_queue c' ! i)) (pl_profileMask (px_plan px)))"
    have qi: "cl_queue c' ! i = cl_queue c ! i" using i(1) head more m(1) by (simp add: nth_append)
    show "closure_covers px (snd (cl_queue c' ! i)) e c'"
    proof (cases "i = cl_head c")
      case False
      have "clean c" using clean_mono [OF le' cl] .
      then have "visited_cover reader px c" using inv by (simp add: loop_inv_def)
      then show ?thesis using False i e head qi closure_covers_mono [OF le']
        unfolding visited_cover_def by fastforce
    next
      case True
      then have "\<not> deep" using i(2) qi nd by (simp add: deep_def)
      moreover have "\<not> cl_timedOut c2" using calculation cl by (auto simp: c' clean_def split: if_splits)
      ultimately have c3: "c' = c3" by (simp add: c')
      have "clean c2" using clean_mono [OF le3] cl c3 by simp
      then have "e \<in> set out \<Longrightarrow> closure_covers px depth e c2"
        using closure_edges_cover [OF i1 d1 [rule_format], of px node out e] by (simp add: c2_def)
      then have "e \<in> set out \<Longrightarrow> closure_covers px depth e c3"
        using closure_covers_mono [OF le3] by blast
      moreover have "e \<in> set inc \<Longrightarrow> closure_covers px depth e c3"
        using closure_edges_cover [OF i2 d2 [rule_format], of px node inc e] cl c3 by (simp add: c3_def)
      ultimately show ?thesis using e True qi nd c3 by (auto simp: out_def inc_def)
    qed
  qed
  ultimately show "loop_inv reader px maxNodes (closure_visit reader px maxNodes c)"
    using i' by (simp add: loop_inv_def c'_def)
qed

text \<open>The loop consumes one queue cell a round, so the array's length bounds it.\<close>

lemma closure_loop_step:
  assumes "loop_inv reader px maxNodes c" "maxNodes \<le> cl_head c + fuel"
  shows "loop_inv reader px maxNodes (closure_loop reader px maxNodes fuel c)"
    and "closure_le c (closure_loop reader px maxNodes fuel c)"
    and "\<not> closure_continues (closure_loop reader px maxNodes fuel c)"
proof -
  have "loop_inv reader px maxNodes (closure_loop reader px maxNodes fuel c) \<and>
    closure_le c (closure_loop reader px maxNodes fuel c) \<and>
    \<not> closure_continues (closure_loop reader px maxNodes fuel c)"
    using assms
  proof (induction fuel arbitrary: c)
    case 0
    then have i: "closure_inv reader maxNodes c" by (simp add: loop_inv_def)
    then show ?case using 0 clo.le_refl [OF i] by (auto simp: closure_inv_def closure_continues_def)
  next
    case (Suc fuel)
    have i: "closure_inv reader maxNodes c" using Suc.prems by (simp add: loop_inv_def)
    show ?case
    proof (cases "closure_continues c")
      case True
      then have more: "cl_head c < length (cl_queue c)" by (simp add: closure_continues_def)
      note v = closure_visit_step [OF Suc.prems(1) more]
      define c' where "c' = closure_visit reader px maxNodes c"
      define c'' where "c'' = closure_loop reader px maxNodes fuel c'"
      have IH: "loop_inv reader px maxNodes c''" "closure_le c' c''" "\<not> closure_continues c''"
        using Suc.IH [OF v(1)] v(3) Suc.prems(2) by (simp_all add: c'_def c''_def)
      have "closure_le c c''"
        by (rule clo.le_trans [of reader maxNodes c c' c'']) (use i v IH in \<open>auto simp: loop_inv_def c'_def\<close>)
      then show ?thesis using IH True by (simp add: c'_def c''_def)
    qed (use Suc.prems clo.le_refl [OF i] in simp)
  qed
  then show "loop_inv reader px maxNodes (closure_loop reader px maxNodes fuel c)"
    "closure_le c (closure_loop reader px maxNodes fuel c)"
    "\<not> closure_continues (closure_loop reader px maxNodes fuel c)" by blast+
qed

subsection \<open>The seeds\<close>

lemma closure_seeds_step:
  assumes "closure_inv reader maxNodes c" "\<forall>x \<in> set (cl_queue c). snd x = 0"
  shows "closure_inv reader maxNodes (closure_seeds maxNodes t slots c)"
    and "closure_le c (closure_seeds maxNodes t slots c)"
    and "\<forall>x \<in> set (cl_queue (closure_seeds maxNodes t slots c)). snd x = 0"
    and "cl_head (closure_seeds maxNodes t slots c) = cl_head c"
    and "cl_state (closure_seeds maxNodes t slots c) = cl_state c"
    and "clean (closure_seeds maxNodes t slots c) \<Longrightarrow> s \<in> set slots \<Longrightarrow> has t s SEED \<Longrightarrow>
         (c_node (row t s), 0) \<in> set (cl_queue (closure_seeds maxNodes t slots c))"
proof -
  have "closure_inv reader maxNodes (closure_seeds maxNodes t slots c) \<and>
    closure_le c (closure_seeds maxNodes t slots c) \<and>
    (\<forall>x \<in> set (cl_queue (closure_seeds maxNodes t slots c)). snd x = 0) \<and>
    cl_head (closure_seeds maxNodes t slots c) = cl_head c \<and>
    cl_state (closure_seeds maxNodes t slots c) = cl_state c \<and>
    (clean (closure_seeds maxNodes t slots c) \<longrightarrow>
      (\<forall>s \<in> set slots. has t s SEED \<longrightarrow> (c_node (row t s), 0) \<in> set (cl_queue (closure_seeds maxNodes t slots c))))"
    using assms
  proof (induction slots arbitrary: c)
    case Nil
    then show ?case by (simp add: clo.le_refl)
  next
    case (Cons k slots)
    show ?case
    proof (cases "has t k SEED")
      case False
      then show ?thesis using Cons.IH [OF Cons.prems] by auto
    next
      case True
      obtain c1 continue where e: "enqueue maxNodes (c_node (row t k)) 0 c = (c1, continue)" by fastforce
      define c' where "c' = closure_seeds maxNodes t (k # slots) c"
      have c': "c' = (if continue then closure_seeds maxNodes t slots c1 else c1)"
        using True by (simp add: c'_def e)
      have 1: "closure_inv reader maxNodes c1" "closure_le c c1"
        using enqueue_grows [of reader maxNodes c "c_node (row t k)" 0] Cons.prems(1) by (simp_all add: e clo.grows_def)
      obtain more where "cl_queue c1 = cl_queue c @ more" "set more \<subseteq> {(c_node (row t k), 0)}"
        using enqueue_queue(1) [OF e] by blast
      moreover have "\<forall>x \<in> {(c_node (row t k), 0 :: nat)}. snd x = 0" by simp
      ultimately have z: "\<forall>x \<in> set (cl_queue c1). snd x = 0"
        using Cons.prems(2) by (simp only: set_append ball_Un) blast
      have h: "cl_head c1 = cl_head c"
        using enqueue_head [of maxNodes "c_node (row t k)" 0 c] e by simp
      note IH = Cons.IH [OF 1(1) z]
      have i': "closure_inv reader maxNodes c'" and l1: "closure_le c1 c'" using IH 1 clo.le_refl [OF 1(1)] by (simp_all add: c')
      have le: "closure_le c c'" by (rule clo.le_trans [OF Cons.prems(1) 1(1) i' 1(2) l1])
      have here: "(c_node (row t k), 0) \<in> set (cl_queue c')" if "clean c'"
      proof -
        have "clean c1" using clean_mono [OF l1 that] .
        then have "continue" using enqueue_queue(4) [OF e] by (auto simp: clean_def)
        then obtain d where "(c_node (row t k), d) \<in> set (cl_queue c1)"
          using enqueue_queue(3) [OF e Cons.prems(1)] by blast
        then have "(c_node (row t k), 0) \<in> set (cl_queue c1)" using z by fastforce
        then show ?thesis using l1 by (auto simp: closure_le_def)
      qed
      have cont: "clean c' \<Longrightarrow> continue"
        using enqueue_queue(4) [OF e] by (cases continue) (simp_all add: c' clean_def)
      have later: "(c_node (row t s), 0) \<in> set (cl_queue c')" if "clean c'" "s \<in> set slots" "has t s SEED" for s
        using IH cont [OF that(1)] that by (simp add: c')
      have "\<forall>x \<in> set (cl_queue c'). snd x = 0" "cl_head c' = cl_head c" "cl_state c' = cl_state c"
        using IH z h enqueue_queue(2) [OF e] by (simp_all add: c')
      then show ?thesis using i' le here later unfolding c'_def [symmetric] by simp
    qed
  qed
  then show "closure_inv reader maxNodes (closure_seeds maxNodes t slots c)"
    "closure_le c (closure_seeds maxNodes t slots c)"
    "\<forall>x \<in> set (cl_queue (closure_seeds maxNodes t slots c)). snd x = 0"
    "cl_head (closure_seeds maxNodes t slots c) = cl_head c"
    "cl_state (closure_seeds maxNodes t slots c) = cl_state c"
    "clean (closure_seeds maxNodes t slots c) \<Longrightarrow> s \<in> set slots \<Longrightarrow> has t s SEED \<Longrightarrow>
         (c_node (row t s), 0) \<in> set (cl_queue (closure_seeds maxNodes t slots c))"
    by blast+
qed

subsection \<open>Reachability over the safety relations\<close>

text \<open>A hop leaves or enters the node, within the profile's edges, over a safety relation.\<close>

definition safety_hop :: "index_reader \<Rightarrow> plan_context \<Rightarrow> int \<Rightarrow> edge_view \<Rightarrow> bool" where
  "safety_hop reader px node e \<longleftrightarrow>
     e \<in> set (rd_outgoing reader node (pl_profileMask (px_plan px))) \<union>
         set (rd_incoming reader node (pl_profileMask (px_plan px))) \<and>
     mask_has (px_safetyEdgeMask px) (ev_type e)"

inductive safety_reach :: "index_reader \<Rightarrow> plan_context \<Rightarrow> candidate_table \<Rightarrow> int \<Rightarrow> nat \<Rightarrow> bool"
  for reader px t where
  seed: "s < ct_size t \<Longrightarrow> has t s SEED \<Longrightarrow> safety_reach reader px t (c_node (row t s)) 0"
| hop: "safety_reach reader px t node d \<Longrightarrow> d < kc_safetyMaxDepth (px_kernelConfig px) \<Longrightarrow>
        safety_hop reader px node e \<Longrightarrow> safety_reach reader px t (ev_target e) (d + 1)"

inductive_cases safety_reach_SucE: "safety_reach reader px t n (Suc d)"

lemma closure_run_inv:
  assumes "kernel_inv reader s"
  shows "loop_inv reader px (closure_max_nodes px) (closure_run reader px s)"
    and "kernel_le s (cl_state (closure_run reader px s))"
    and "\<not> closure_continues (closure_run reader px s)"
    and "clean (closure_run reader px s) \<Longrightarrow> k < ct_size (ks_table s) \<Longrightarrow> has (ks_table s) k SEED \<Longrightarrow>
         (c_node (row (ks_table s) k), 0) \<in> set (cl_queue (closure_run reader px s))"
proof -
  let ?N = "closure_max_nodes px" and ?slots = "[0..<ct_size (ks_table s)]"
  define c0 where "c0 = closure_seeds ?N (ks_table s) ?slots (closure_start s)"
  have i: "closure_inv reader ?N (closure_start s)" using assms by (simp add: closure_inv_def closure_start_def)
  have z: "\<forall>x \<in> set (cl_queue (closure_start s)). snd x = 0" by (simp add: closure_start_def)
  note st = closure_seeds_step [OF i z, of "ks_table s" ?slots, folded c0_def]
  have h: "cl_head c0 = 0" "cl_state c0 = s" using st(4,5) by (simp_all add: closure_start_def)
  have "sorted (map snd (cl_queue c0))"
    using st(3) by (auto simp: sorted_iff_nth_mono)
  then have "loop_inv reader px ?N c0"
    using st(1,3) h by (auto simp: loop_inv_def level_ordered_def visited_cover_def)
  note l = closure_loop_step [OF this, of ?N, simplified, folded c0_def]
  have run: "closure_run reader px s = closure_loop reader px ?N ?N c0"
    by (simp add: closure_run_def c0_def)
  show "loop_inv reader px ?N (closure_run reader px s)" "\<not> closure_continues (closure_run reader px s)"
    using l by (simp_all add: run)
  show "kernel_le s (cl_state (closure_run reader px s))" using l(2) h by (simp add: run closure_le_def)
  show "clean (closure_run reader px s) \<Longrightarrow> k < ct_size (ks_table s) \<Longrightarrow> has (ks_table s) k SEED \<Longrightarrow>
         (c_node (row (ks_table s) k), 0) \<in> set (cl_queue (closure_run reader px s))"
    using st(6) [of k] clean_mono [OF l(2)] l(2) unfolding run by (auto simp: closure_le_def)
qed

lemma closure_reaches:
  assumes "kernel_inv reader s" "clean (closure_run reader px s)" "safety_reach reader px (ks_table s) n d"
  shows "\<exists>d' \<le> d. (n, d') \<in> set (cl_queue (closure_run reader px s))"
  using assms(3)
proof (induction rule: safety_reach.induct)
  case (seed k)
  then show ?case using closure_run_inv(4) [OF assms(1,2)] by blast
next
  case (hop node d e)
  define c where "c = closure_run reader px s"
  obtain d' where d': "d' \<le> d" "(node, d') \<in> set (cl_queue c)" using hop.IH by (auto simp: c_def)
  then obtain i where i: "i < length (cl_queue c)" "cl_queue c ! i = (node, d')" by (meson in_set_conv_nth)
  have "visited_cover reader px c" "\<not> closure_continues c"
    using closure_run_inv(1,3) [OF assms(1)] assms(2) by (simp_all add: c_def loop_inv_def)
  moreover have "i < cl_head c" using i(1) calculation(2) assms(2)
    by (simp add: closure_continues_def clean_def c_def)
  ultimately have "closure_covers px d' e c"
    using i(2) hop.hyps d'(1) unfolding visited_cover_def safety_hop_def by fastforce
  then obtain d'' where "d'' \<le> d' + 1" "(ev_target e, d'') \<in> set (cl_queue c)"
    using hop.hyps(3) by (auto simp: closure_covers_def safety_hop_def)
  then show ?case using d'(1) by (intro exI [of _ d'']) (simp add: c_def)
qed

lemma closure_reach_marked:
  assumes "kernel_inv reader s" "clean (closure_run reader px s)"
    "safety_reach reader px (ks_table s) n d" "d < kc_safetyMaxDepth (px_kernelConfig px)"
    "safety_hop reader px n e"
  shows "edge_covered px e (ks_table (cl_state (closure_run reader px s)))"
proof -
  define c where "c = closure_run reader px s"
  obtain d' where d': "d' \<le> d" "(n, d') \<in> set (cl_queue c)"
    using closure_reaches [OF assms(1-3)] by (auto simp: c_def)
  then obtain i where i: "i < length (cl_queue c)" "cl_queue c ! i = (n, d')" by (meson in_set_conv_nth)
  have "visited_cover reader px c" "\<not> closure_continues c"
    using closure_run_inv(1,3) [OF assms(1)] assms(2) by (simp_all add: c_def loop_inv_def)
  moreover have "i < cl_head c" using i(1) calculation(2) assms(2)
    by (simp add: closure_continues_def clean_def c_def)
  ultimately have "closure_covers px d' e c"
    using i(2) assms d'(1) unfolding visited_cover_def safety_hop_def by fastforce
  then show ?thesis using assms(5) by (simp add: closure_covers_def safety_hop_def c_def)
qed

lemma runSafetyClosure_grows: "ker.grows reader s (fst (runSafetyClosure reader px s))"
proof -
  have "ker.grows reader s (cl_state (closure_run reader px s))"
    using closure_run_inv(1,2) by (simp add: ker.grows_def loop_inv_def closure_inv_def)
  then show ?thesis by (simp add: runSafetyClosure_def Let_def grows_omit grows_warn)
qed

lemma closure_table [simp]:
  "ks_table (fst (runSafetyClosure reader px s)) = ks_table (cl_state (closure_run reader px s))"
  by (simp add: runSafetyClosure_def Let_def omit_def warn_def)

lemma closure_outcome_clean:
  "\<not> so_capHit (snd (runSafetyClosure reader px s)) \<Longrightarrow> \<not> so_timedOut (snd (runSafetyClosure reader px s)) \<Longrightarrow>
   clean (closure_run reader px s)"
  by (simp add: runSafetyClosure_def Let_def clean_def)

end
