(* ===== verification/Binary_Heap.thy ===== *)
theory Binary_Heap
  imports Prelude
begin

text \<open>
  The array heap the kernel uses twice: the sift loops of \<open>TraversalFrontier\<close>
  (\<open>query/kernel-frontier.ts\<close>) and of \<open>BoundedTopK\<close> (\<open>query/kernel-fuse.ts\<close>), written
  once over the comparison they call.  The interface is the locale \<open>before_order\<close>: any
  strict weak order makes the loops restore the heap property.
\<close>

subsection \<open>The loops\<close>

definition heap_parent :: "nat \<Rightarrow> nat" where
  "heap_parent child = (child - 1) div 2"

function sift_up :: "('a \<Rightarrow> 'a \<Rightarrow> bool) \<Rightarrow> 'a list \<Rightarrow> nat \<Rightarrow> 'a list" where
  "sift_up before xs child =
     (if child = 0 then xs
      else if \<not> before (xs ! child) (xs ! heap_parent child) then xs
      else sift_up before (swap_cells xs child (heap_parent child)) (heap_parent child))"
  by pat_completeness auto
termination
  by (relation "measure (\<lambda>(before, xs, child). child)") (auto simp: heap_parent_def)

declare sift_up.simps [simp del]

definition best_child :: "('a \<Rightarrow> 'a \<Rightarrow> bool) \<Rightarrow> 'a list \<Rightarrow> nat \<Rightarrow> nat" where
  "best_child before xs parent =
     (let left = parent * 2 + 1; right = left + 1
      in if right < length xs \<and> before (xs ! right) (xs ! left) then right else left)"

function sift_down :: "('a \<Rightarrow> 'a \<Rightarrow> bool) \<Rightarrow> 'a list \<Rightarrow> nat \<Rightarrow> 'a list" where
  "sift_down before xs parent =
     (if length xs \<le> parent * 2 + 1 then xs
      else if \<not> before (xs ! best_child before xs parent) (xs ! parent) then xs
      else sift_down before (swap_cells xs (best_child before xs parent) parent)
             (best_child before xs parent))"
  by pat_completeness auto
termination
  by (relation "measure (\<lambda>(before, xs, parent). length xs - parent)")
    (auto simp: best_child_def Let_def)

declare sift_down.simps [simp del]

definition is_heap :: "('a \<Rightarrow> 'a \<Rightarrow> bool) \<Rightarrow> 'a list \<Rightarrow> bool" where
  "is_heap before xs \<longleftrightarrow>
     (\<forall>i. 0 < i \<and> i < length xs \<longrightarrow> \<not> before (xs ! i) (xs ! heap_parent i))"

subsection \<open>What holds for any comparison: the cells are permuted\<close>

lemma heap_parent_less: "0 < i \<Longrightarrow> heap_parent i < i"
  by (auto simp: heap_parent_def)

lemma heap_parent_child [simp]:
  "heap_parent (p * 2 + 1) = p" "heap_parent (Suc (p * 2)) = p"
  "heap_parent (p * 2 + 1 + 1) = p" "heap_parent (Suc (Suc (p * 2))) = p"
  by (simp_all add: heap_parent_def)

lemma heap_parent_eq: "0 < i \<Longrightarrow> heap_parent i = p \<longleftrightarrow> i = p * 2 + 1 \<or> i = p * 2 + 2"
  unfolding heap_parent_def by presburger

lemma best_child_cases: "best_child before xs p = p * 2 + 1 \<or>
    best_child before xs p = p * 2 + 2 \<and> p * 2 + 2 < length xs"
  by (simp add: best_child_def Let_def)

lemma best_child_less: "p * 2 + 1 < length xs \<Longrightarrow> best_child before xs p < length xs"
  using best_child_cases [of before xs p] by auto

lemma mset_sift_up [simp]:
  "child < length xs \<Longrightarrow> mset (sift_up before xs child) = mset xs"
proof (induction before xs child rule: sift_up.induct)
  case (1 before xs child)
  show ?case
    using 1 heap_parent_less [of child] by (subst sift_up.simps) auto
qed

lemma length_sift_up [simp]: "length (sift_up before xs child) = length xs"
proof (induction before xs child rule: sift_up.induct)
  case (1 before xs child)
  show ?case using 1 by (subst sift_up.simps) simp
qed

lemma mset_sift_down [simp]: "mset (sift_down before xs parent) = mset xs"
proof (induction before xs parent rule: sift_down.induct)
  case (1 before xs parent)
  have "parent * 2 + 1 < length xs \<Longrightarrow> parent < length xs" by simp
  then show ?case
    using 1 by (subst sift_down.simps) (simp add: best_child_less not_le)
qed

lemma length_sift_down [simp]: "length (sift_down before xs parent) = length xs"
  by (metis mset_sift_down size_mset)

lemma set_sift_up [simp]: "child < length xs \<Longrightarrow> set (sift_up before xs child) = set xs"
  by (metis mset_sift_up set_mset_mset)

lemma set_sift_down [simp]: "set (sift_down before xs parent) = set xs"
  by (metis mset_sift_down set_mset_mset)

text \<open>The loops look at cells of the array only, so a comparison that agrees on them does.\<close>

lemma sift_up_cong:
  assumes "\<And>x y. x \<in> set xs \<Longrightarrow> y \<in> set xs \<Longrightarrow> f x y = g x y" "child < length xs"
  shows "sift_up f xs child = sift_up g xs child"
  using assms
proof (induction f xs child rule: sift_up.induct)
  case (1 f xs child)
  show ?case
  proof (cases "child = 0")
    case True
    then show ?thesis by (simp add: sift_up.simps)
  next
    case False
    then have p: "heap_parent child < length xs" using heap_parent_less [of child] 1(3) by simp
    then have eq: "f (xs ! child) (xs ! heap_parent child) = g (xs ! child) (xs ! heap_parent child)"
      using 1(2,3) by simp
    show ?thesis
      using False 1 p eq by (simp add: sift_up.simps [of _ xs child])
  qed
qed

subsection \<open>The interface: a strict weak order\<close>

locale before_order =
  fixes before :: "'a \<Rightarrow> 'a \<Rightarrow> bool"
  assumes asym: "before x y \<Longrightarrow> \<not> before y x"
    and neg_trans: "\<not> before x y \<Longrightarrow> \<not> before y z \<Longrightarrow> \<not> before x z"
begin

lemma irrefl: "\<not> before x x"
  using asym by blast

lemma before_neg_trans: "before x y \<Longrightarrow> \<not> before z y \<Longrightarrow> before x z"
  using neg_trans by blast

lemma root_first:
  assumes "is_heap before xs" "i < length xs"
  shows "\<not> before (xs ! i) (xs ! 0)"
  using assms(2)
proof (induction i rule: less_induct)
  case (less i)
  show ?case
  proof (cases "i = 0")
    case True
    then show ?thesis by (simp add: irrefl)
  next
    case False
    then have p: "heap_parent i < i" by (simp add: heap_parent_less)
    with less have "\<not> before (xs ! heap_parent i) (xs ! 0)" by simp
    moreover have "\<not> before (xs ! i) (xs ! heap_parent i)"
      using assms(1) less.prems False by (simp add: is_heap_def)
    ultimately show ?thesis using neg_trans by blast
  qed
qed

text \<open>One defect, at the cell that is still too good for its place.\<close>

definition up_defect :: "'a list \<Rightarrow> nat \<Rightarrow> bool" where
  "up_defect xs c \<longleftrightarrow>
     (\<forall>i. 0 < i \<and> i < length xs \<and> i \<noteq> c \<longrightarrow> \<not> before (xs ! i) (xs ! heap_parent i)) \<and>
     (\<forall>i. 0 < i \<and> i < length xs \<and> heap_parent i = c \<and> 0 < c \<longrightarrow>
        \<not> before (xs ! i) (xs ! heap_parent c))"

lemma up_defect_swap:
  assumes d: "up_defect xs c" and c: "0 < c" "c < length xs"
    and b: "before (xs ! c) (xs ! heap_parent c)"
  shows "up_defect (swap_cells xs c (heap_parent c)) (heap_parent c)"
proof -
  let ?p = "heap_parent c" and ?ys = "swap_cells xs c (heap_parent c)"
  have p: "?p < c" "?p < length xs" using c heap_parent_less [of c] by simp_all
  note nth = nth_swap_cells [OF c(2) p(2)]
  have ok: "\<not> before (xs ! i) (xs ! heap_parent i)" if "0 < i" "i < length xs" "i \<noteq> c" for i
    using d that by (simp add: up_defect_def)
  have kid: "\<not> before (xs ! i) (xs ! ?p)" if "0 < i" "i < length xs" "heap_parent i = c" for i
    using d that c by (simp add: up_defect_def)
  have 1: "\<not> before (?ys ! i) (?ys ! heap_parent i)" if i: "0 < i" "i < length xs" "i \<noteq> ?p" for i
  proof -
    have q: "heap_parent i < i" "heap_parent i < length xs" using i heap_parent_less [of i] by simp_all
    consider "i = c" | "i \<noteq> c" "heap_parent i = c" | "i \<noteq> c" "heap_parent i = ?p"
      | "i \<noteq> c" "heap_parent i \<noteq> c" "heap_parent i \<noteq> ?p" by blast
    then show ?thesis
    proof cases
      case 1
      then show ?thesis using b c p asym by (simp add: nth)
    next
      case 2
      then show ?thesis using kid [OF i(1,2)] p i c by (simp add: nth)
    next
      case 3
      have "\<not> before (xs ! i) (xs ! c)"
        using ok [OF i(1,2) 3(1)] b 3(2) before_neg_trans asym by metis
      then show ?thesis using 3 p i by (simp add: nth c)
    next
      case 4
      then show ?thesis using ok [OF i(1,2)] q i by (simp add: nth)
    qed
  qed
  have 2: "\<not> before (?ys ! i) (?ys ! heap_parent ?p)"
    if i: "0 < i" "i < length xs" "heap_parent i = ?p" "0 < ?p" for i
  proof -
    have g: "heap_parent ?p < ?p" using i by (simp add: heap_parent_less)
    have top: "\<not> before (xs ! ?p) (xs ! heap_parent ?p)" using ok [of ?p] i p by simp
    show ?thesis
    proof (cases "i = c")
      case True
      then show ?thesis using top g p c by (simp add: nth)
    next
      case False
      then have "\<not> before (xs ! i) (xs ! ?p)" using ok [OF i(1,2)] i(3) by simp
      then have "\<not> before (xs ! i) (xs ! heap_parent ?p)" using top neg_trans by blast
      moreover have "i \<noteq> ?p" using i heap_parent_less [of i] by auto
      ultimately show ?thesis using False g p i by (simp add: nth)
    qed
  qed
  show ?thesis using 1 2 by (simp add: up_defect_def)
qed

lemma sift_up_heap:
  "up_defect xs c \<Longrightarrow> c < length xs \<Longrightarrow> is_heap before (sift_up before xs c)"
proof (induction c arbitrary: xs rule: less_induct)
  case (less c)
  show ?case
  proof (cases "0 < c \<and> before (xs ! c) (xs ! heap_parent c)")
    case True
    then have "up_defect (swap_cells xs c (heap_parent c)) (heap_parent c)"
      using up_defect_swap less.prems by blast
    moreover have "heap_parent c < length xs" using True less.prems heap_parent_less [of c] by simp
    ultimately show ?thesis
      using less.IH [of "heap_parent c"] True heap_parent_less [of c]
      by (subst sift_up.simps) simp
  next
    case False
    have "is_heap before xs"
      unfolding is_heap_def
    proof (intro allI impI)
      fix i assume i: "0 < i \<and> i < length xs"
      show "\<not> before (xs ! i) (xs ! heap_parent i)"
        using False less.prems i by (cases "i = c") (simp_all add: up_defect_def)
    qed
    then show ?thesis using False by (subst sift_up.simps) auto
  qed
qed

lemma append_heap:
  assumes "is_heap before xs"
  shows "is_heap before (sift_up before (xs @ [x]) (length xs))"
proof (rule sift_up_heap)
  have "\<not> before ((xs @ [x]) ! i) ((xs @ [x]) ! heap_parent i)" if "0 < i" "i < length xs" for i
    using assms that heap_parent_less [OF that(1)] by (simp add: is_heap_def nth_append)
  moreover have "heap_parent i \<noteq> length xs" if "0 < i" "i < length (xs @ [x])" for i
    using that heap_parent_less [OF that(1)] by simp
  ultimately show "up_defect (xs @ [x]) (length xs)"
    unfolding up_defect_def length_append_singleton less_Suc_eq by blast
qed simp

text \<open>The dual defect, at the cell that is too bad for its place.\<close>

definition down_defect :: "'a list \<Rightarrow> nat \<Rightarrow> bool" where
  "down_defect xs p \<longleftrightarrow>
     (\<forall>i. 0 < i \<and> i < length xs \<and> heap_parent i \<noteq> p \<longrightarrow>
        \<not> before (xs ! i) (xs ! heap_parent i)) \<and>
     (\<forall>i. 0 < i \<and> i < length xs \<and> heap_parent i = p \<and> 0 < p \<longrightarrow>
        \<not> before (xs ! i) (xs ! heap_parent p))"

lemma best_child_first:
  assumes "0 < i" "i < length xs" "heap_parent i = p"
  shows "\<not> before (xs ! i) (xs ! best_child before xs p)"
proof -
  from assms have "i = p * 2 + 1 \<or> i = p * 2 + 2" by (simp add: heap_parent_eq)
  then show ?thesis
    using assms asym irrefl by (auto simp: best_child_def Let_def)
qed

lemma down_defect_swap:
  assumes d: "down_defect xs p" and l: "p * 2 + 1 < length xs"
    and b: "before (xs ! best_child before xs p) (xs ! p)"
  shows "down_defect (swap_cells xs (best_child before xs p) p) (best_child before xs p)"
proof -
  let ?c = "best_child before xs p"
  let ?ys = "swap_cells xs ?c p"
  have c: "?c < length xs" "0 < ?c" "heap_parent ?c = p"
    using best_child_cases [of before xs p] best_child_less [OF l] by auto
  have p: "p < length xs" "p < ?c" using l c heap_parent_less [of ?c] by simp_all
  note nth = nth_swap_cells [OF c(1) p(1)]
  have ok: "\<not> before (xs ! i) (xs ! heap_parent i)"
    if "0 < i" "i < length xs" "heap_parent i \<noteq> p" for i
    using d that by (simp add: down_defect_def)
  have 1: "\<not> before (?ys ! i) (?ys ! heap_parent i)"
    if i: "0 < i" "i < length xs" "heap_parent i \<noteq> ?c" for i
  proof -
    have q: "heap_parent i < i" "heap_parent i < length xs" using i heap_parent_less [of i] by simp_all
    consider "i = ?c" | "i = p" | "i \<noteq> ?c" "i \<noteq> p" "heap_parent i = p"
      | "i \<noteq> ?c" "i \<noteq> p" "heap_parent i \<noteq> p" by blast
    then show ?thesis
    proof cases
      case 1
      then show ?thesis using b p c asym by (simp add: nth)
    next
      case 2
      then have "\<not> before (xs ! ?c) (xs ! heap_parent p)"
        using d c i by (simp add: down_defect_def)
      then show ?thesis using 2 q c p by (simp add: nth)
    next
      case 3
      then show ?thesis using best_child_first [OF i(1,2) 3(3)] p c i by (simp add: nth)
    next
      case 4
      then show ?thesis using ok [OF i(1,2)] i q by (simp add: nth)
    qed
  qed
  have 2: "\<not> before (?ys ! i) (?ys ! heap_parent ?c)"
    if i: "0 < i" "i < length xs" "heap_parent i = ?c" for i
  proof -
    have "\<not> before (xs ! i) (xs ! ?c)" using ok [OF i(1,2)] i(3) p by simp
    moreover have "i \<noteq> ?c" "i \<noteq> p" using i p heap_parent_less [of i] by auto
    ultimately show ?thesis using c p i by (simp add: nth)
  qed
  show ?thesis using 1 2 by (simp add: down_defect_def)
qed

lemma sift_down_heap: "down_defect xs p \<Longrightarrow> is_heap before (sift_down before xs p)"
proof (induction "length xs - p" arbitrary: xs p rule: less_induct)
  case less
  let ?c = "best_child before xs p"
  show ?case
  proof (cases "p * 2 + 1 < length xs \<and> before (xs ! ?c) (xs ! p)")
    case True
    then have "down_defect (swap_cells xs ?c p) ?c"
      using down_defect_swap less.prems by blast
    moreover have "p < ?c" "?c < length xs"
      using best_child_cases [of before xs p] best_child_less True by auto
    ultimately show ?thesis
      using less.hyps [of "swap_cells xs ?c p" ?c] True by (subst sift_down.simps) simp
  next
    case False
    have "is_heap before xs"
      unfolding is_heap_def
    proof (intro allI impI)
      fix i assume i: "0 < i \<and> i < length xs"
      show "\<not> before (xs ! i) (xs ! heap_parent i)"
      proof (cases "heap_parent i = p")
        case True
        then have "p * 2 + 1 < length xs" using i by (auto simp: heap_parent_eq)
        with False have "\<not> before (xs ! ?c) (xs ! p)" by simp
        then show ?thesis using best_child_first [of i xs p] True i neg_trans by blast
      next
        case False
        then show ?thesis using less.prems i by (simp add: down_defect_def)
      qed
    qed
    then show ?thesis using False by (subst sift_down.simps) auto
  qed
qed

lemma replace_root_heap:
  assumes "is_heap before xs"
  shows "is_heap before (sift_down before (xs[0 := x]) 0)"
proof (rule sift_down_heap)
  show "down_defect (xs[0 := x]) 0"
    using assms by (auto simp: down_defect_def is_heap_def nth_list_update)
qed

lemma butlast_heap:
  assumes "is_heap before xs"
  shows "is_heap before (butlast xs)"
  unfolding is_heap_def
proof (intro allI impI)
  fix i assume i: "0 < i \<and> i < length (butlast xs)"
  then have "heap_parent i < length (butlast xs)" using heap_parent_less [of i] by linarith
  moreover have "i < length xs" using i length_butlast [of xs] by linarith
  ultimately show "\<not> before (butlast xs ! i) (butlast xs ! heap_parent i)"
    using assms i by (simp add: is_heap_def nth_butlast)
qed

end

end
