(* ===== verification/Priority_Interface.thy ===== *)
theory Priority_Interface
  imports Prelude
begin

text \<open>
  What a best-first walk asks of its frontier: a bounded bag with a distinguished order.
  \<open>content\<close> is the multiset of queued entries, \<open>offer\<close> refuses when the bag holds
  \<open>limit\<close> entries, \<open>take_best\<close> removes an entry nothing in the bag comes before.
\<close>

locale bounded_priority_bag =
  fixes content :: "'q \<Rightarrow> 'e multiset"
    and inv :: "'q \<Rightarrow> bool"
    and limit :: "'q \<Rightarrow> nat"
    and before :: "'e \<Rightarrow> 'e \<Rightarrow> bool"
    and offer :: "'q \<Rightarrow> 'e \<Rightarrow> 'q \<times> bool"
    and take_best :: "'q \<Rightarrow> ('q \<times> 'e) option"
  assumes bounded: "inv q \<Longrightarrow> size (content q) \<le> limit q"
    and offer_inv: "inv q \<Longrightarrow> inv (fst (offer q e))"
    and offer_limit: "limit (fst (offer q e)) = limit q"
    and offer_accepts: "inv q \<Longrightarrow> snd (offer q e) \<longleftrightarrow> size (content q) < limit q"
    and offer_content: "inv q \<Longrightarrow>
      content (fst (offer q e)) = (if snd (offer q e) then add_mset e (content q) else content q)"
    and take_None: "inv q \<Longrightarrow> take_best q = None \<longleftrightarrow> content q = {#}"
    and take_Some: "inv q \<Longrightarrow> take_best q = Some (q', e) \<Longrightarrow>
      inv q' \<and> limit q' = limit q \<and> content q = add_mset e (content q')"
    and take_first: "inv q \<Longrightarrow> take_best q = Some (q', e) \<Longrightarrow> x \<in># content q \<Longrightarrow> \<not> before x e"
begin

text \<open>Draining: taking until nothing is left. The fuel is the number of entries.\<close>

fun drain_bag :: "nat \<Rightarrow> 'q \<Rightarrow> 'e list" where
  "drain_bag 0 q = []"
| "drain_bag (Suc n) q = (case take_best q of None \<Rightarrow> [] | Some (q', e) \<Rightarrow> e # drain_bag n q')"

lemma drain_content: "inv q \<Longrightarrow> size (content q) \<le> n \<Longrightarrow> mset (drain_bag n q) = content q"
proof (induction n arbitrary: q)
  case (Suc n)
  show ?case
  proof (cases "take_best q")
    case None
    then show ?thesis using take_None [OF Suc.prems(1)] by simp
  next
    case (Some r)
    obtain q' e where r: "r = (q', e)" by (cases r)
    then show ?thesis using Suc Some take_Some [of q q' e] by simp
  qed
qed simp

lemma drain_ordered: "inv q \<Longrightarrow> size (content q) \<le> n \<Longrightarrow>
    sorted_wrt (\<lambda>x y. \<not> before y x) (drain_bag n q)"
proof (induction n arbitrary: q)
  case (Suc n)
  show ?case
  proof (cases "take_best q")
    case (Some r)
    obtain q' e where r: "r = (q', e)" by (cases r)
    with Some Suc.prems take_Some [of q q' e]
    have q': "inv q'" "content q = add_mset e (content q')" "size (content q') \<le> n" by auto
    have "set (drain_bag n q') = set_mset (content q')"
      using drain_content [OF q'(1,3)] by (metis set_mset_mset)
    moreover have "\<not> before x e" if "x \<in># content q'" for x
      using take_first [OF Suc.prems(1)] Some r q' that by simp
    ultimately show ?thesis using Some r Suc.IH [OF q'(1,3)] by simp
  qed simp
qed simp

end

end
