(* ===== verification/Traversal_Frontier.thy ===== *)
theory Traversal_Frontier
  imports Binary_Heap Priority_Interface
begin

text \<open>
  The bounded best-first frontier, \<open>query/kernel-frontier.ts\<close>.  The typed arrays are the
  lists of their used prefixes: \<open>fr_heap\<close> the first \<open>size\<close> cells of \<open>heap\<close>, \<open>fr_free\<close>
  the first \<open>freeCount\<close> cells of \<open>free\<close>, \<open>fr_keys\<close> the first \<open>used\<close> rows of the
  parallel key columns.
\<close>

subsection \<open>State\<close>

record frontier_key =
  k_score :: int
  k_depth :: nat
  k_priority :: int
  k_node :: int
  k_seed :: int
  k_parentNode :: int
  k_parentEdge :: int
  k_flags :: "32 word"

record frontier =
  fr_capacity :: nat
  fr_rejected :: nat
  fr_heap :: "nat list"
  fr_free :: "nat list"
  fr_keys :: "frontier_key list"

definition new_frontier :: "int \<Rightarrow> frontier" where
  "new_frontier capacity =
     \<lparr>fr_capacity = nat (max 1 capacity), fr_rejected = 0, fr_heap = [], fr_free = [], fr_keys = []\<rparr>"

subsection \<open>The order\<close>

definition key_better :: "frontier_key \<Rightarrow> frontier_key \<Rightarrow> bool" where
  "key_better left right =
     (if k_score left \<noteq> k_score right then k_score right < k_score left
      else if k_depth left \<noteq> k_depth right then k_depth left < k_depth right
      else if k_priority left \<noteq> k_priority right then k_priority right < k_priority left
      else k_node left < k_node right)"

definition better :: "frontier_key list \<Rightarrow> nat \<Rightarrow> nat \<Rightarrow> bool" where
  "better keys left right = key_better (keys ! left) (keys ! right)"

interpretation key_order: before_order key_better
  by unfold_locales (auto simp: key_better_def split: if_splits)

interpretation slot_order: before_order "better keys" for keys
  by unfold_locales (auto simp: better_def dest: key_order.asym key_order.neg_trans)

subsection \<open>Operations\<close>

definition empty :: "frontier \<Rightarrow> bool" where
  "empty f \<longleftrightarrow> length (fr_heap f) = 0"

definition peekScore :: "frontier \<Rightarrow> int option" where
  "peekScore f = (case fr_heap f of [] \<Rightarrow> None | slot # _ \<Rightarrow> Some (k_score (fr_keys f ! slot)))"

definition allocate :: "frontier \<Rightarrow> frontier_key \<Rightarrow> (frontier \<times> nat) option" where
  "allocate f entry =
     (if fr_free f \<noteq> [] then
        Some (f\<lparr>fr_free := butlast (fr_free f), fr_keys := (fr_keys f)[last (fr_free f) := entry]\<rparr>,
              last (fr_free f))
      else if fr_capacity f \<le> length (fr_keys f) then None
      else Some (f\<lparr>fr_keys := fr_keys f @ [entry]\<rparr>, length (fr_keys f)))"

definition push :: "frontier \<Rightarrow> frontier_key \<Rightarrow> frontier \<times> bool" where
  "push f entry =
     (case allocate f entry of
        None \<Rightarrow> (f\<lparr>fr_rejected := Suc (fr_rejected f)\<rparr>, False)
      | Some (g, slot) \<Rightarrow>
          (g\<lparr>fr_heap := sift_up (better (fr_keys g)) (fr_heap g @ [slot]) (length (fr_heap g))\<rparr>, True))"

definition pop :: "frontier \<Rightarrow> (frontier \<times> frontier_key) option" where
  "pop f =
     (if fr_heap f = [] then None
      else let winner = hd (fr_heap f);
               rest = butlast (fr_heap f);
               heap = (if rest = [] then rest
                       else sift_down (better (fr_keys f)) (rest[0 := last (fr_heap f)]) 0)
           in Some (f\<lparr>fr_heap := heap, fr_free := fr_free f @ [winner]\<rparr>, fr_keys f ! winner))"

subsection \<open>The invariant and the abstraction\<close>

text \<open>Every key slot is either queued or released, never both and never twice.\<close>

definition frontier_inv :: "frontier \<Rightarrow> bool" where
  "frontier_inv f \<longleftrightarrow>
     distinct (fr_heap f @ fr_free f) \<and>
     set (fr_heap f @ fr_free f) = {..< length (fr_keys f)} \<and>
     length (fr_keys f) \<le> fr_capacity f \<and>
     is_heap (better (fr_keys f)) (fr_heap f)"

definition queued :: "frontier \<Rightarrow> frontier_key multiset" where
  "queued f = image_mset (\<lambda>slot. fr_keys f ! slot) (mset (fr_heap f))"

lemma frontier_inv_new: "frontier_inv (new_frontier c)"
  and queued_new: "queued (new_frontier c) = {#}"
  by (simp_all add: frontier_inv_def new_frontier_def is_heap_def queued_def)

lemma frontier_size: "frontier_inv f \<Longrightarrow> length (fr_heap f) + length (fr_free f) = length (fr_keys f)"
  unfolding frontier_inv_def by (metis card_lessThan distinct_card length_append)

lemma size_queued [simp]: "size (queued f) = length (fr_heap f)"
  by (simp add: queued_def)

text \<open>
  Allocation hands out a slot no heap cell names: the keys of the queued slots are
  untouched by writing the new entry.
\<close>

lemma allocate_None:
  "frontier_inv f \<Longrightarrow> allocate f e = None \<longleftrightarrow> fr_capacity f \<le> length (fr_heap f)"
  using frontier_size [of f]
  by (cases "fr_free f") (auto simp: allocate_def frontier_inv_def)

lemma allocate_Some:
  assumes "frontier_inv f" "allocate f e = Some (g, slot)"
  shows "slot \<notin> set (fr_heap f)" "fr_heap g = fr_heap f" "slot < length (fr_keys g)"
    "fr_keys g ! slot = e" "\<forall>s \<in> set (fr_heap f). fr_keys g ! s = fr_keys f ! s"
    "distinct (slot # fr_heap f @ fr_free g)"
    "set (slot # fr_heap f @ fr_free g) = {..< length (fr_keys g)}"
    "length (fr_keys g) \<le> fr_capacity g" "fr_capacity g = fr_capacity f"
    "fr_rejected g = fr_rejected f"
proof -
  consider (free) "fr_free f \<noteq> []" | (fresh) "fr_free f = []" "length (fr_keys f) < fr_capacity f"
    using assms by (auto simp: allocate_def split: if_splits)
  then have "slot \<notin> set (fr_heap f) \<and> fr_heap g = fr_heap f \<and> slot < length (fr_keys g) \<and>
    fr_keys g ! slot = e \<and> (\<forall>s \<in> set (fr_heap f). fr_keys g ! s = fr_keys f ! s) \<and>
    distinct (slot # fr_heap f @ fr_free g) \<and>
    set (slot # fr_heap f @ fr_free g) = {..< length (fr_keys g)} \<and>
    length (fr_keys g) \<le> fr_capacity g \<and> fr_capacity g = fr_capacity f \<and>
    fr_rejected g = fr_rejected f"
  proof cases
    case free
    then obtain xs x where f: "fr_free f = xs @ [x]" by (metis append_butlast_last_id)
    then have "x < length (fr_keys f)" "x \<notin> set (fr_heap f)"
      using assms(1) by (auto simp: frontier_inv_def)
    moreover have "x \<noteq> s" if "s \<in> set (fr_heap f)" for s
      using that calculation by auto
    ultimately show ?thesis
      using assms f by (auto simp: allocate_def frontier_inv_def)
  next
    case fresh
    have g: "g = f\<lparr>fr_keys := fr_keys f @ [e]\<rparr>" "slot = length (fr_keys f)"
      using assms fresh by (simp_all add: allocate_def)
    have h: "distinct (fr_heap f)" "set (fr_heap f) = {..< length (fr_keys f)}"
      using assms(1) fresh(1) by (simp_all add: frontier_inv_def)
    show ?thesis
      using fresh h(1) by (simp add: g h(2) lessThan_Suc nth_append Suc_le_eq)
  qed
  then show "slot \<notin> set (fr_heap f)" "fr_heap g = fr_heap f" "slot < length (fr_keys g)"
    "fr_keys g ! slot = e" "\<forall>s \<in> set (fr_heap f). fr_keys g ! s = fr_keys f ! s"
    "distinct (slot # fr_heap f @ fr_free g)"
    "set (slot # fr_heap f @ fr_free g) = {..< length (fr_keys g)}"
    "length (fr_keys g) \<le> fr_capacity g" "fr_capacity g = fr_capacity f"
    "fr_rejected g = fr_rejected f"
    by blast+
qed

lemma is_heap_better_cong:
  assumes "\<forall>s \<in> set xs. ks ! s = ks' ! s"
  shows "is_heap (better ks) xs = is_heap (better ks') xs"
proof -
  have "better ks (xs ! i) (xs ! heap_parent i) = better ks' (xs ! i) (xs ! heap_parent i)"
    if "0 < i" "i < length xs" for i
    using assms that heap_parent_less [of i] by (simp add: better_def)
  then show ?thesis by (auto simp: is_heap_def)
qed

lemma push_refused:
  assumes "frontier_inv f" "fr_capacity f \<le> length (fr_heap f)"
  shows "push f e = (f\<lparr>fr_rejected := Suc (fr_rejected f)\<rparr>, False)"
  using assms by (simp add: push_def allocate_None [THEN iffD2])

lemma push_accepted:
  assumes f: "frontier_inv f" and room: "length (fr_heap f) < fr_capacity f"
  shows "frontier_inv (fst (push f e)) \<and> snd (push f e) \<and>
    queued (fst (push f e)) = add_mset e (queued f) \<and>
    fr_capacity (fst (push f e)) = fr_capacity f \<and> fr_rejected (fst (push f e)) = fr_rejected f"
proof -
  obtain g slot where a: "allocate f e = Some (g, slot)"
    using allocate_None [OF f, of e] room by (cases "allocate f e") auto
  note g = allocate_Some [OF f a]
  let ?h = "sift_up (better (fr_keys g)) (fr_heap f @ [slot]) (length (fr_heap f))"
  have m: "mset ?h = add_mset slot (mset (fr_heap f))" by simp
  have heap: "is_heap (better (fr_keys g)) ?h"
    using f is_heap_better_cong [OF g(5)]
    by (intro slot_order.append_heap) (simp add: frontier_inv_def)
  have p: "mset (?h @ fr_free g) = mset (slot # fr_heap f @ fr_free g)" by (simp add: m)
  have "distinct (?h @ fr_free g)" "set (?h @ fr_free g) = {..< length (fr_keys g)}"
    unfolding mset_eq_imp_distinct_iff [OF p] mset_eq_setD [OF p] by (rule g(6), rule g(7))
  moreover have "image_mset (\<lambda>s. fr_keys g ! s) (mset ?h) = add_mset e (queued f)"
  proof -
    have "image_mset (\<lambda>s. fr_keys g ! s) (mset (fr_heap f)) = queued f"
      unfolding queued_def using g(5) by (intro image_mset_cong) simp
    then show ?thesis using g(4) by (simp add: m)
  qed
  ultimately show ?thesis
    using heap g by (simp add: push_def a frontier_inv_def queued_def)
qed

lemma pop_None: "pop f = None \<longleftrightarrow> queued f = {#}"
  by (simp add: pop_def queued_def Let_def)

lemma pop_Some:
  assumes f: "frontier_inv f" and p: "pop f = Some (g, e)"
  shows "frontier_inv g \<and> queued f = add_mset e (queued g) \<and> fr_capacity g = fr_capacity f \<and>
    fr_rejected g = fr_rejected f \<and> (\<forall>x. x \<in># queued f \<longrightarrow> \<not> key_better x e)"
proof -
  obtain w ws where h: "fr_heap f = w # ws" using p by (cases "fr_heap f") (auto simp: pop_def)
  let ?rest = "butlast (fr_heap f)"
  define h' where "h' = (if ?rest = [] then ?rest
    else sift_down (better (fr_keys f)) (?rest[0 := last (fr_heap f)]) 0)"
  have g: "g = f\<lparr>fr_heap := h', fr_free := fr_free f @ [w]\<rparr>" and e: "e = fr_keys f ! w"
    using p h unfolding pop_def Let_def h'_def by auto
  have m: "mset h' = mset ws"
  proof (cases ws)
    case Nil
    then show ?thesis by (simp add: h'_def h)
  next
    case (Cons v vs)
    have "mset (?rest[0 := last (fr_heap f)]) = mset (last ws # butlast ws)"
      using Cons by (simp add: h)
    also have "\<dots> = mset ws" using mset_butlast_last [of ws] Cons by simp
    finally show ?thesis using Cons by (simp add: h'_def h)
  qed
  have hp: "is_heap (better (fr_keys f)) (fr_heap f)" using f by (simp add: frontier_inv_def)
  have "is_heap (better (fr_keys f)) h'"
    using slot_order.replace_root_heap [OF slot_order.butlast_heap [OF hp]]
    by (simp add: h'_def is_heap_def)
  moreover have pm: "mset (h' @ fr_free f @ [w]) = mset (fr_heap f @ fr_free f)" by (simp add: m h)
  have "distinct (h' @ fr_free f @ [w])" "set (h' @ fr_free f @ [w]) = {..< length (fr_keys f)}"
    using f unfolding mset_eq_imp_distinct_iff [OF pm] mset_eq_setD [OF pm] frontier_inv_def
    by simp_all
  ultimately have "frontier_inv g"
    using f by (simp add: g frontier_inv_def)
  moreover have "queued f = add_mset e (queued g)"
    by (simp add: queued_def g e h m)
  moreover have "\<not> key_better x e" if "x \<in># queued f" for x
  proof -
    from that obtain i where "i < length (fr_heap f)" "x = fr_keys f ! (fr_heap f ! i)"
      by (auto simp: queued_def in_set_conv_nth)
    then show ?thesis
      using slot_order.root_first [OF hp] by (simp add: better_def e h)
  qed
  ultimately show ?thesis by (simp add: g)
qed

interpretation frontier_bag:
  bounded_priority_bag queued frontier_inv fr_capacity key_better push pop
proof unfold_locales
  fix q e
  show "frontier_inv q \<Longrightarrow> size (queued q) \<le> fr_capacity q"
    using frontier_size [of q] by (simp add: frontier_inv_def)
  show "fr_capacity (fst (push q e)) = fr_capacity q"
    by (auto simp: push_def allocate_def split: option.splits if_splits)
  assume q: "frontier_inv q"
  have r: "frontier_inv (q\<lparr>fr_rejected := n\<rparr>)" "queued (q\<lparr>fr_rejected := n\<rparr>) = queued q" for n
    using q by (simp_all add: frontier_inv_def queued_def)
  show "frontier_inv (fst (push q e))"
    using push_accepted [OF q] push_refused [OF q] r by (cases "length (fr_heap q) < fr_capacity q") auto
  show "snd (push q e) \<longleftrightarrow> size (queued q) < fr_capacity q"
    using push_accepted [OF q] push_refused [OF q] by (cases "length (fr_heap q) < fr_capacity q") auto
  show "queued (fst (push q e)) = (if snd (push q e) then add_mset e (queued q) else queued q)"
    using push_accepted [OF q] push_refused [OF q] r by (cases "length (fr_heap q) < fr_capacity q") auto
  show "pop q = None \<longleftrightarrow> queued q = {#}" by (rule pop_None)
  fix q'
  show "pop q = Some (q', e) \<Longrightarrow>
      frontier_inv q' \<and> fr_capacity q' = fr_capacity q \<and> queued q = add_mset e (queued q')"
    using pop_Some [OF q] by blast
  show "\<And>x. pop q = Some (q', e) \<Longrightarrow> x \<in># queued q \<Longrightarrow> \<not> key_better x e"
    using pop_Some [OF q] by blast
qed

lemma peekScore_queued:
  assumes "frontier_inv f" "peekScore f = Some s"
  shows "(\<exists>k. k \<in># queued f \<and> k_score k = s) \<and> (\<forall>k. k \<in># queued f \<longrightarrow> k_score k \<le> s)"
proof -
  obtain w ws where h: "fr_heap f = w # ws" "s = k_score (fr_keys f ! w)"
    using assms(2) by (cases "fr_heap f") (auto simp: peekScore_def)
  then obtain g where p: "pop f = Some (g, fr_keys f ! w)" by (simp add: pop_def Let_def)
  from pop_Some [OF assms(1) p] have "fr_keys f ! w \<in># queued f"
    "\<And>k. k \<in># queued f \<Longrightarrow> \<not> key_better k (fr_keys f ! w)" by auto
  moreover have "k_score k \<le> s" if "k \<in># queued f" for k
    using calculation(2) [OF that] h by (simp add: key_better_def split: if_splits)
  ultimately show ?thesis using h by blast
qed

lemma fold_push:
  "frontier_inv f \<Longrightarrow>
   (let g = fold (\<lambda>e f. fst (push f e)) es f; room = fr_capacity f - length (fr_heap f) in
      frontier_inv g \<and> queued g = queued f + mset (take room es) \<and>
      fr_rejected g = fr_rejected f + (length es - room))"
proof (induction es arbitrary: f)
  case (Cons e es)
  show ?case
  proof (cases "length (fr_heap f) < fr_capacity f")
    case True
    note p = push_accepted [OF Cons.prems True, of e]
    have "length (fr_heap (fst (push f e))) = Suc (length (fr_heap f))"
      using p by (metis size_queued size_add_mset)
    then show ?thesis
      using Cons.IH [of "fst (push f e)"] p True
      by (simp add: Let_def Suc_diff_Suc [symmetric] take_Cons' add.commute union_assoc)
  next
    case False
    then have r: "push f e = (f\<lparr>fr_rejected := Suc (fr_rejected f)\<rparr>, False)"
      using push_refused [OF Cons.prems] by simp
    have "frontier_inv (f\<lparr>fr_rejected := Suc (fr_rejected f)\<rparr>)"
      using Cons.prems by (simp add: frontier_inv_def)
    then show ?thesis using Cons.IH [of "f\<lparr>fr_rejected := Suc (fr_rejected f)\<rparr>"] False
      by (simp add: r Let_def queued_def)
  qed
qed (simp add: Let_def)


end
