(* ===== verification/Ranked_Collectors.thy ===== *)
theory Ranked_Collectors
  imports Binary_Heap "HOL-Library.Product_Lexorder"
begin

text \<open>
  The bounded collectors of the ranking path: \<open>BoundedTopK\<close> and \<open>Reserve\<close> of
  \<open>query/kernel-fuse.ts\<close>, \<open>TopScores\<close> of \<open>query/kernel-traverse.ts\<close>.  Each promises the
  same thing, stated once as the locale \<open>best_k_collector\<close>: whatever the offers were, the
  collector holds what sorting them all and keeping the first \<open>k\<close> would have kept.
\<close>

subsection \<open>The interface\<close>

locale best_k_collector =
  fixes rank :: "'e \<Rightarrow> 'r :: linorder"
    and init :: "nat \<Rightarrow> 'c"
    and offer :: "'c \<Rightarrow> 'e \<Rightarrow> 'c"
    and kept :: "'c \<Rightarrow> 'e list"
    and inv :: "nat \<Rightarrow> 'c \<Rightarrow> bool"
  assumes init_inv: "inv k (init k)"
    and init_kept: "kept (init k) = []"
    and offer_inv: "inv k c \<Longrightarrow> rank e \<notin> rank ` set (kept c) \<Longrightarrow> inv k (offer c e)"
    and offer_kept: "inv k c \<Longrightarrow> rank e \<notin> rank ` set (kept c) \<Longrightarrow>
      kept (offer c e) = take k (insort_key rank e (kept c))"
begin

definition collect :: "nat \<Rightarrow> 'e list \<Rightarrow> 'c" where
  "collect k es = fold (\<lambda>e c. offer c e) es (init k)"

lemma take_insort_take:
  "take k (insort_key rank x (take k ys)) = take k (insort_key rank x ys)"
proof (induction ys arbitrary: k)
  case (Cons y ys)
  have "take n (y # take n ys) = take n (y # ys)" for n
    by (cases n) simp_all
  then show ?case
    by (cases k) (simp_all add: Cons.IH)
qed simp

lemma sort_key_snoc:
  assumes "inj_on rank (set (xs @ [x]))"
  shows "sort_key rank (xs @ [x]) = insort_key rank x (sort_key rank xs)"
proof (rule sort_key_inj_key_eq)
  show "mset (xs @ [x]) = mset (insort_key rank x (sort_key rank xs))" by simp
  show "sorted (map rank (insort_key rank x (sort_key rank xs)))"
    by (simp add: sorted_insort_key)
qed (rule assms)

lemma collect_correct:
  "inj_on rank (set es) \<Longrightarrow> distinct es \<Longrightarrow>
     inv k (collect k es) \<and> kept (collect k es) = take k (sort_key rank es)"
proof (induction es rule: rev_induct)
  case Nil
  then show ?case by (simp add: collect_def init_kept init_inv)
next
  case (snoc x es)
  then have IH: "inv k (collect k es)" "kept (collect k es) = take k (sort_key rank es)"
    by (simp_all add: inj_on_def)
  have "set (kept (collect k es)) \<subseteq> set es"
    using set_take_subset [of k "sort_key rank es"] by (simp add: IH)
  then have fresh: "rank x \<notin> rank ` set (kept (collect k es))"
    using snoc.prems by (auto simp: inj_on_def)
  have step: "collect k (es @ [x]) = offer (collect k es) x"
    by (simp add: collect_def)
  have "kept (collect k (es @ [x])) = take k (insort_key rank x (take k (sort_key rank es)))"
    by (simp add: step offer_kept [OF IH(1) fresh] IH(2))
  also have "\<dots> = take k (sort_key rank (es @ [x]))"
    using snoc.prems(1) by (simp only: take_insort_take sort_key_snoc)
  finally show ?case using offer_inv [OF IH(1) fresh] by (simp add: step)
qed

lemma kept_collect:
  "inj_on rank (set es) \<Longrightarrow> distinct es \<Longrightarrow> kept (collect k es) = take k (sort_key rank es)"
  using collect_correct by blast

lemma kept_subset:
  "inj_on rank (set es) \<Longrightarrow> distinct es \<Longrightarrow> set (kept (collect k es)) \<subseteq> set es"
  using set_take_subset [of k "sort_key rank es"] by (simp add: kept_collect)

lemma kept_all:
  "inj_on rank (set es) \<Longrightarrow> distinct es \<Longrightarrow> length es \<le> k \<Longrightarrow> set (kept (collect k es)) = set es"
  by (simp add: kept_collect)

lemma length_kept:
  "inj_on rank (set es) \<Longrightarrow> distinct es \<Longrightarrow> length (kept (collect k es)) = min k (length es)"
  by (simp add: kept_collect)

lemma distinct_kept:
  "inj_on rank (set es) \<Longrightarrow> distinct es \<Longrightarrow> distinct (kept (collect k es))"
  by (simp add: kept_collect)

text \<open>An entry left out is outranked by every entry kept.\<close>

lemma kept_outranks:
  assumes "inj_on rank (set es)" "distinct es"
    and "x \<in> set (kept (collect k es))" "y \<in> set es" "y \<notin> set (kept (collect k es))"
  shows "rank x \<le> rank y"
proof -
  have "sorted (map rank (take k (sort_key rank es) @ drop k (sort_key rank es)))"
    by simp
  moreover have "y \<in> set (drop k (sort_key rank es))"
    using assms by (metis Un_iff append_take_drop_id kept_collect set_append set_sort)
  ultimately show ?thesis
    using assms unfolding map_append sorted_append by (simp add: kept_collect)
qed

lemma kept_hd:
  assumes "inj_on rank (set es)" "distinct es" "es \<noteq> []" "0 < k"
  shows "kept (collect k es) \<noteq> []" "hd (kept (collect k es)) \<in> set es"
    "y \<in> set es \<Longrightarrow> rank (hd (kept (collect k es))) \<le> rank y"
proof -
  obtain x xs where s: "sort_key rank es = x # xs"
    using assms(3) by (cases "sort_key rank es") (metis length_0_conv length_sort list.size(3), auto)
  have x: "x \<in> set es" "set es = insert x (set xs)"
    by (metis list.set_intros(1) s set_sort, metis list.simps(15) s set_sort)
  have o: "sorted (map rank (x # xs))" by (simp flip: s)
  have k: "kept (collect k es) = x # take (k - 1) xs"
    using assms by (cases k) (simp_all add: kept_collect s)
  show "kept (collect k es) \<noteq> []" "hd (kept (collect k es)) \<in> set es"
    using x by (simp_all add: k)
  show "y \<in> set es \<Longrightarrow> rank (hd (kept (collect k es))) \<le> rank y"
    using x o by (auto simp: k)
qed

end

subsection \<open>Entries and their rank\<close>

record ranked_entry =
  en_slot :: nat
  en_score :: int
  en_node :: int

definition entry_rank :: "ranked_entry \<Rightarrow> int \<times> int" where
  "entry_rank e = (- en_score e, en_node e)"

subsection \<open>Reserve\<close>

definition reserve_before :: "ranked_entry \<Rightarrow> ranked_entry \<Rightarrow> bool" where
  "reserve_before e other \<longleftrightarrow> en_score other < en_score e \<or>
     en_score e = en_score other \<and> en_node e < en_node other"

lemma reserve_before_rank: "reserve_before e other \<longleftrightarrow> entry_rank e < entry_rank other"
  by (auto simp: reserve_before_def entry_rank_def less_prod_def less_eq_prod_def)

definition reserve_position :: "ranked_entry list \<Rightarrow> ranked_entry \<Rightarrow> nat" where
  "reserve_position held e =
     length (takeWhile (\<lambda>other. \<not> reserve_before e other) held)"

record reserve =
  rs_capacity :: nat
  rs_held :: "ranked_entry list"

definition new_reserve :: "nat \<Rightarrow> reserve" where
  "new_reserve capacity = \<lparr>rs_capacity = capacity, rs_held = []\<rparr>"

definition reserve_offer :: "reserve \<Rightarrow> ranked_entry \<Rightarrow> reserve" where
  "reserve_offer r e =
     (if rs_capacity r = 0 then r
      else let pos = reserve_position (rs_held r) e
           in if rs_capacity r \<le> pos then r
              else r\<lparr>rs_held :=
                     take (rs_capacity r) (take pos (rs_held r) @ e # drop pos (rs_held r))\<rparr>)"

definition reserve_inv :: "nat \<Rightarrow> reserve \<Rightarrow> bool" where
  "reserve_inv k r \<longleftrightarrow> rs_capacity r = k \<and> length (rs_held r) \<le> k \<and> sorted (map entry_rank (rs_held r))"

lemma insert_position:
  assumes "sorted (map entry_rank ys)" "entry_rank e \<notin> entry_rank ` set ys"
  shows "take (reserve_position ys e) ys @ e # drop (reserve_position ys e) ys = insort_key entry_rank e ys"
  using assms
proof (induction ys)
  case Nil
  then show ?case by (simp add: reserve_position_def)
next
  case (Cons y ys)
  show ?case
  proof (cases "entry_rank e < entry_rank y")
    case True
    then show ?thesis by (simp add: reserve_position_def reserve_before_rank less_imp_le)
  next
    case False
    then have p: "reserve_position (y # ys) e = Suc (reserve_position ys e)"
      by (simp add: reserve_position_def reserve_before_rank)
    have "\<not> entry_rank e \<le> entry_rank y" using False Cons.prems(2) by auto
    then show ?thesis using p Cons by simp
  qed
qed

lemma take_at_end: "k \<le> i \<Longrightarrow> i \<le> length ys \<Longrightarrow> take k (take i ys @ z) = take k ys"
  by (simp add: min_absorb1)

lemma reserve_offer_kept:
  assumes "reserve_inv k r" "entry_rank e \<notin> entry_rank ` set (rs_held r)"
  shows "rs_held (reserve_offer r e) = take k (insort_key entry_rank e (rs_held r))"
proof -
  let ?ys = "rs_held r" and ?pos = "reserve_position (rs_held r) e"
  have pos: "?pos \<le> length ?ys" by (simp add: reserve_position_def length_takeWhile_le)
  have ins: "insort_key entry_rank e ?ys = take ?pos ?ys @ e # drop ?pos ?ys"
    using assms insert_position by (simp add: reserve_inv_def)
  show ?thesis
    using assms(1) pos by (auto simp: reserve_offer_def reserve_inv_def ins Let_def take_at_end)
qed

interpretation reserve_collector:
  best_k_collector entry_rank new_reserve reserve_offer rs_held reserve_inv
proof unfold_locales
  fix k c e
  show "reserve_inv k (new_reserve k)" "rs_held (new_reserve k) = []"
    by (simp_all add: reserve_inv_def new_reserve_def)
  assume c: "reserve_inv k c"
  show "entry_rank e \<notin> entry_rank ` set (rs_held c) \<Longrightarrow>
      rs_held (reserve_offer c e) = take k (insort_key entry_rank e (rs_held c))"
    using c by (rule reserve_offer_kept)
  show "reserve_inv k (reserve_offer c e)"
  proof -
    let ?ys = "rs_held c" and ?pos = "reserve_position (rs_held c) e"
    have "sorted (map entry_rank (take ?pos ?ys @ e # drop ?pos ?ys))"
    proof -
      let ?P = "\<lambda>other. \<not> entry_rank e < entry_rank other"
      have tk: "take ?pos ?ys = takeWhile ?P ?ys" and dr: "drop ?pos ?ys = dropWhile ?P ?ys"
        unfolding reserve_position_def reserve_before_rank
        by (rule takeWhile_eq_take [symmetric], rule dropWhile_eq_drop [symmetric])
      have before: "entry_rank x \<le> entry_rank e" if "x \<in> set (take ?pos ?ys)" for x
        using that set_takeWhileD [of x ?P ?ys] by (simp only: tk not_less)
      have after: "entry_rank e \<le> entry_rank x" if x: "x \<in> set (drop ?pos ?ys)" for x
      proof -
        from x obtain y zs where y: "dropWhile ?P ?ys = y # zs"
          by (cases "dropWhile ?P ?ys") (auto simp: dr)
        then have "entry_rank e < entry_rank y" using hd_dropWhile [of ?P ?ys] by simp
        moreover have "sorted (map entry_rank (drop ?pos ?ys))"
          using c by (simp add: reserve_inv_def drop_map [symmetric] sorted_wrt_drop)
        then have "entry_rank y \<le> entry_rank x" using x by (auto simp: dr y)
        ultimately show ?thesis by order
      qed
      have s: "sorted (map entry_rank (take ?pos ?ys))" "sorted (map entry_rank (drop ?pos ?ys))"
        using c by (simp_all add: reserve_inv_def drop_map [symmetric] take_map [symmetric]
            sorted_wrt_drop sorted_wrt_take)
      have "entry_rank x \<le> entry_rank y"
        if "x \<in> set (take ?pos ?ys)" "y \<in> set (drop ?pos ?ys)" for x y
        using before [OF that(1)] after [OF that(2)] by order
      then show ?thesis
        using s before after by (simp add: sorted_append)
    qed
    then show ?thesis
      using c by (auto simp: reserve_offer_def reserve_inv_def Let_def take_map [symmetric]
          simp del: take_append map_append list.map intro: sorted_wrt_take)
  qed
qed


subsection \<open>BoundedTopK\<close>

text \<open>
  A heap with the worst entry at the root.  The three parallel typed arrays are one list of
  entries, the used prefix.
\<close>

record top_k =
  tk_capacity :: nat
  tk_heap :: "ranked_entry list"

definition new_top_k :: "nat \<Rightarrow> top_k" where
  "new_top_k capacity = \<lparr>tk_capacity = capacity, tk_heap = []\<rparr>"

definition worse :: "ranked_entry \<Rightarrow> ranked_entry \<Rightarrow> bool" where
  "worse a b =
     (if en_score a \<noteq> en_score b then en_score a < en_score b else en_node b < en_node a)"

definition top_k_offer :: "top_k \<Rightarrow> ranked_entry \<Rightarrow> top_k" where
  "top_k_offer t e =
     (let heap = tk_heap t
      in if length heap < tk_capacity t then
           t\<lparr>tk_heap := sift_up worse (heap @ [e]) (length heap)\<rparr>
         else if heap = [] \<or> \<not> worse (heap ! 0) e then t
         else t\<lparr>tk_heap := sift_down worse (heap[0 := e]) 0\<rparr>)"

function drain_worst_first :: "ranked_entry list \<Rightarrow> ranked_entry list" where
  "drain_worst_first heap =
     (if heap = [] then []
      else hd heap #
        drain_worst_first
          (if butlast heap = [] then []
           else sift_down worse ((butlast heap)[0 := last heap]) 0))"
  by pat_completeness auto
termination
  by (relation "measure length") (auto simp: neq_Nil_conv)

declare drain_worst_first.simps [simp del]

definition drain :: "top_k \<Rightarrow> ranked_entry list" where
  "drain t = rev (drain_worst_first (tk_heap t))"

lemma worse_rank: "worse a b \<longleftrightarrow> entry_rank b < entry_rank a"
  by (auto simp: worse_def entry_rank_def less_prod_def less_eq_prod_def)

interpretation worse_order: before_order worse
  by unfold_locales (auto simp: worse_rank)

definition top_k_inv :: "nat \<Rightarrow> top_k \<Rightarrow> bool" where
  "top_k_inv k t \<longleftrightarrow> tk_capacity t = k \<and> length (tk_heap t) \<le> k \<and> is_heap worse (tk_heap t) \<and>
     distinct (map entry_rank (tk_heap t))"

lemma mset_replace_root: "ws \<noteq> [] \<Longrightarrow> mset ((butlast (w # ws))[0 := last (w # ws)]) = mset ws"
  using mset_butlast_last [of ws] by (cases ws) simp_all

lemma drain_worst_first_correct:
  "is_heap worse heap \<Longrightarrow> mset (drain_worst_first heap) = mset heap \<and>
     sorted_wrt (\<lambda>a b. entry_rank b \<le> entry_rank a) (drain_worst_first heap)"
proof (induction heap rule: drain_worst_first.induct)
  case (1 heap)
  show ?case
  proof (cases heap)
    case Nil
    then show ?thesis by (simp add: drain_worst_first.simps)
  next
    case (Cons w ws)
    define rest where "rest = (if butlast heap = [] then []
           else sift_down worse ((butlast heap)[0 := last heap]) 0)"
    have m: "mset rest = mset ws"
      using mset_replace_root [of ws w] by (cases "ws = []") (simp_all add: rest_def Cons)
    have "is_heap worse rest"
      using worse_order.replace_root_heap [OF worse_order.butlast_heap [OF "1.prems"]]
      by (simp add: rest_def is_heap_def)
    with "1.IH" [folded rest_def] Cons have IH: "mset (drain_worst_first rest) = mset rest"
      "sorted_wrt (\<lambda>a b. entry_rank b \<le> entry_rank a) (drain_worst_first rest)"
      by simp_all
    have root: "entry_rank x \<le> entry_rank w" if x: "x \<in> set heap" for x
    proof -
      from x obtain i where "i < length heap" "x = heap ! i" by (auto simp: in_set_conv_nth)
      then show ?thesis
        using worse_order.root_first [OF "1.prems"] by (auto simp: worse_rank Cons not_less)
    qed
    have "set (drain_worst_first rest) = set ws"
      using IH(1) m by (metis set_mset_mset)
    moreover have "drain_worst_first heap = w # drain_worst_first rest"
      by (subst drain_worst_first.simps) (simp add: Cons rest_def)
    ultimately show ?thesis using IH m root by (simp add: Cons)
  qed
qed

lemma drain_sorted:
  assumes "top_k_inv k t"
  shows "sorted (map entry_rank (drain t))" "mset (drain t) = mset (tk_heap t)"
proof -
  have "is_heap worse (tk_heap t)" using assms by (simp add: top_k_inv_def)
  note d = drain_worst_first_correct [OF this]
  then show "mset (drain t) = mset (tk_heap t)" by (simp add: drain_def)
  from d show "sorted (map entry_rank (drain t))"
    by (simp add: drain_def sorted_wrt_rev sorted_wrt_map flip: rev_map)
qed

lemma take_insort_full:
  assumes "sorted (map f (ys @ [w]))" "f w < f e"
  shows "take (length (ys @ [w])) (insort_key f e (ys @ [w])) = ys @ [w]"
proof -
  have "insort_key f e zs = zs @ [e]" if "\<forall>z \<in> set zs. f z < f e" for zs
    using that by (induction zs) auto
  moreover have "\<forall>z \<in> set (ys @ [w]). f z < f e"
    using assms by (auto simp: sorted_append)
  ultimately have "insort_key f e (ys @ [w]) = (ys @ [w]) @ [e]" by blast
  then show ?thesis by simp
qed

lemma take_insort_replace:
  assumes "sorted (map f (ys @ [w]))" "f e < f w"
  shows "take (length (ys @ [w])) (insort_key f e (ys @ [w])) = insort_key f e ys"
proof -
  have "insort_key f e (zs @ [w]) = insort_key f e zs @ [w]" for zs
    using assms(2) by (induction zs) auto
  then show ?thesis by simp
qed

lemma drain_eqI:
  assumes "top_k_inv k t" "mset (tk_heap t) = mset ys" "sorted (map entry_rank ys)"
    "inj_on entry_rank (set ys)"
  shows "drain t = ys"
proof -
  have "sort_key entry_rank (drain t) = ys"
    by (rule sort_key_inj_key_eq)
      (use assms drain_sorted [OF assms(1)] in \<open>auto dest: mset_eq_setD\<close>)
  moreover have "sort_key entry_rank (drain t) = drain t"
    using drain_sorted [OF assms(1)] by (simp add: sorted_sort_id sort_key_id_if_sorted)
  ultimately show ?thesis by simp
qed


lemma distinct_rank_drain:
  "top_k_inv k t \<Longrightarrow> set (drain t) = set (tk_heap t) \<and> distinct (map entry_rank (drain t)) \<and>
     inj_on entry_rank (set (tk_heap t))"
proof -
  assume t: "top_k_inv k t"
  note m = drain_sorted(2) [OF t]
  have d: "distinct (map entry_rank (tk_heap t))" using t by (simp add: top_k_inv_def)
  have "mset (map entry_rank (drain t)) = mset (map entry_rank (tk_heap t))" by (simp add: m)
  then have "distinct (map entry_rank (drain t))"
    using d mset_eq_imp_distinct_iff by blast
  then show ?thesis using mset_eq_setD [OF m] d by (simp add: distinct_map)
qed

lemma top_k_offer_correct:
  assumes t: "top_k_inv k t" and fresh: "entry_rank e \<notin> entry_rank ` set (drain t)"
  shows "top_k_inv k (top_k_offer t e) \<and>
    drain (top_k_offer t e) = take k (insort_key entry_rank e (drain t))"
proof -
  note d = drain_sorted [OF t]
  have d3: "set (drain t) = set (tk_heap t)" and dinj: "inj_on entry_rank (set (tk_heap t))"
    using distinct_rank_drain [OF t] by blast+
  have h: "is_heap worse (tk_heap t)" "tk_capacity t = k" "length (tk_heap t) \<le> k"
    "distinct (map entry_rank (tk_heap t))"
    using t by (simp_all add: top_k_inv_def)
  have len: "length (drain t) = length (tk_heap t)" using d(2) by (metis size_mset)
  have new: "entry_rank e \<notin> entry_rank ` set (tk_heap t)" using fresh by (simp only: d3 not_False_eq_True)
  have inj: "inj_on entry_rank (insert e (set (tk_heap t)))"
    unfolding inj_on_insert using new dinj by blast
  let ?ins = "insort_key entry_rank e (drain t)"
  have srt: "sorted (map entry_rank ?ins)" using d(1) by (simp add: sorted_insort_key)
  show ?thesis
  proof (cases "length (tk_heap t) < k")
    case True
    let ?t = "t\<lparr>tk_heap := sift_up worse (tk_heap t @ [e]) (length (tk_heap t))\<rparr>"
    have step: "top_k_offer t e = ?t" using True h by (simp add: top_k_offer_def Let_def)
    have m: "mset (tk_heap ?t) = add_mset e (mset (tk_heap t))" by simp
    have "mset (map entry_rank (tk_heap ?t)) = mset (map entry_rank (e # tk_heap t))"
      by (simp only: mset_map m mset.simps image_mset_add_mset)
    then have "distinct (map entry_rank (tk_heap ?t))"
      using h(4) new by (metis distinct.simps(2) list.simps(9) list.set_map mset_eq_imp_distinct_iff)
    then have i: "top_k_inv k ?t"
      using True h worse_order.append_heap [OF h(1), of e] by (simp add: top_k_inv_def)
    have "drain ?t = ?ins"
      by (rule drain_eqI [OF i]) (use d(2) d3 srt inj in \<open>simp_all add: set_insort_key\<close>)
    then show ?thesis using i True len by (simp add: step)
  next
    case False
    then have full: "length (tk_heap t) = k" using h by simp
    show ?thesis
    proof (cases "tk_heap t = [] \<or> \<not> worse (tk_heap t ! 0) e")
      case True
      have step: "top_k_offer t e = t" using True False h by (auto simp: top_k_offer_def Let_def)
      have "take k ?ins = drain t"
      proof (cases "tk_heap t")
        case Nil
        then show ?thesis using full len by simp
      next
        case (Cons w ws)
        obtain ys v where y: "drain t = ys @ [v]"
          using len Cons by (metis length_0_conv list.distinct(1) rev_exhaust)
        have "entry_rank v \<le> entry_rank w"
          using worse_order.root_first [OF h(1)] d3 Cons
          by (metis in_set_conv_nth last_in_set last_snoc leI nth_Cons_0 snoc_eq_iff_butlast worse_rank y)
        moreover have "entry_rank w < entry_rank e"
          using True Cons new by (auto simp: worse_rank not_less)
        ultimately have "entry_rank v < entry_rank e" by order
        then show ?thesis
          using take_insort_full [of entry_rank ys v e] d(1) full len by (simp add: y)
      qed
      then show ?thesis using t by (simp add: step)
    next
      case W: False
      then obtain w ws where c: "tk_heap t = w # ws" by (cases "tk_heap t") auto
      let ?t = "t\<lparr>tk_heap := sift_down worse ((tk_heap t)[0 := e]) 0\<rparr>"
      have step: "top_k_offer t e = ?t" using W False h by (auto simp: top_k_offer_def Let_def)
      have m: "mset (tk_heap ?t) = add_mset e (mset ws)" by (simp add: c)
      have "mset (map entry_rank (tk_heap ?t)) = mset (map entry_rank (e # ws))"
        by (simp only: mset_map m mset.simps image_mset_add_mset)
      then have "distinct (map entry_rank (tk_heap ?t))"
        using h(4) new c by (metis distinct.simps(2) image_insert insertI2 list.set_map list.simps(15,9)
            mset_eq_imp_distinct_iff)
      then have i: "top_k_inv k ?t"
        using full h worse_order.replace_root_heap [OF h(1), of e] by (simp add: top_k_inv_def c)
      have rank_w: "entry_rank x \<le> entry_rank w" if "x \<in> set (tk_heap t)" for x
        using worse_order.root_first [OF h(1)] that c
        by (metis in_set_conv_nth leI nth_Cons_0 worse_rank)
      have we: "entry_rank e < entry_rank w" using W c by (auto simp: worse_rank)
      obtain ys v where y: "drain t = ys @ [v]"
        using len c by (metis length_0_conv list.distinct(1) rev_exhaust)
      have vw: "v = w"
      proof -
        have "v \<in> set (tk_heap t)" "w \<in> set (drain t)" using d3 y c by auto
        then have "entry_rank v \<le> entry_rank w" "entry_rank w \<le> entry_rank v"
          using rank_w d(1) by (auto simp: y sorted_append)
        then have "entry_rank v = entry_rank w" by order
        then show ?thesis
          using inj_onD [OF dinj] \<open>v \<in> set (tk_heap t)\<close> c by (metis list.set_intros(1))
      qed
      have ins: "take k ?ins = insort_key entry_rank e ys"
        using take_insort_replace [of entry_rank ys v e] d(1) we full len by (simp add: y vw)
      have mys: "mset ys = mset ws" using d(2) by (simp add: y vw c)
      have "drain ?t = insort_key entry_rank e ys"
      proof (rule drain_eqI [OF i])
        show "mset (tk_heap ?t) = mset (insort_key entry_rank e ys)" by (simp only: m mset_insort mys)
        show "sorted (map entry_rank (insort_key entry_rank e ys))"
          using d(1) by (simp add: y sorted_append sorted_insort_key)
        have "set (insort_key entry_rank e ys) \<subseteq> insert e (set (tk_heap t))"
          using mset_eq_setD [OF mys] by (auto simp: set_insort_key c)
        then show "inj_on entry_rank (set (insort_key entry_rank e ys))"
          using inj inj_on_subset by blast
      qed
      then show ?thesis using i by (simp add: step ins)
    qed
  qed
qed

interpretation top_k_collector:
  best_k_collector entry_rank new_top_k top_k_offer drain top_k_inv
proof unfold_locales
  fix k c e
  show "top_k_inv k (new_top_k k)" by (simp add: top_k_inv_def new_top_k_def is_heap_def)
  show "drain (new_top_k k) = []" by (simp add: drain_def new_top_k_def drain_worst_first.simps)
  assume "top_k_inv k c" "entry_rank e \<notin> entry_rank ` set (drain c)"
  from top_k_offer_correct [OF this]
  show "top_k_inv k (top_k_offer c e)"
    "drain (top_k_offer c e) = take k (insort_key entry_rank e (drain c))" by blast+
qed


subsection \<open>TopScores\<close>

record top_scores =
  ts_capacity :: nat
  ts_values :: "int list"

definition new_top_scores :: "nat \<Rightarrow> top_scores" where
  "new_top_scores capacity = \<lparr>ts_capacity = max 1 capacity, ts_values = []\<rparr>"

definition ts_full :: "top_scores \<Rightarrow> bool" where
  "ts_full t \<longleftrightarrow> ts_capacity t \<le> length (ts_values t)"

text \<open>\<open>None\<close> is \<open>Number.NEGATIVE_INFINITY\<close>.\<close>

definition ts_floor :: "top_scores \<Rightarrow> int option" where
  "ts_floor t = (if ts_values t = [] then None else Some (ts_values t ! 0))"

fun shift_up :: "int list \<Rightarrow> nat \<Rightarrow> int \<Rightarrow> int list" where
  "shift_up values 0 score = values[0 := score]"
| "shift_up values (Suc i) score =
     (if score < values ! i then shift_up (values[Suc i := values ! i]) i score
      else values[Suc i := score])"

function shift_down :: "int list \<Rightarrow> nat \<Rightarrow> int \<Rightarrow> int list" where
  "shift_down values i score =
     (if i + 1 < length values \<and> values ! (i + 1) < score
      then shift_down (values[i := values ! (i + 1)]) (i + 1) score
      else values[i := score])"
  by pat_completeness auto
termination
  by (relation "measure (\<lambda>(values, i, score). length values - i)") auto

declare shift_down.simps [simp del]

definition ts_offer :: "top_scores \<Rightarrow> int \<Rightarrow> top_scores" where
  "ts_offer t score =
     (if \<not> ts_full t then
        t\<lparr>ts_values := shift_up (ts_values t @ [0]) (length (ts_values t)) score\<rparr>
      else if score \<le> ts_values t ! 0 then t
      else t\<lparr>ts_values := shift_down (ts_values t) 0 score\<rparr>)"

lemma insort_snoc_greater: "sorted (xs @ [x]) \<Longrightarrow> s < x \<Longrightarrow> insort s (xs @ [x]) = insort s xs @ [x]"
  for s :: int
  by (induction xs) auto

lemma insort_snoc_le: "sorted (xs @ [x]) \<Longrightarrow> x \<le> s \<Longrightarrow> insort s (xs @ [x]) = xs @ [x, s]"
  for s :: int
proof (induction xs)
  case (Cons a xs)
  then have "a \<le> x" by (auto simp: sorted_append)
  then show ?case using Cons by (cases "a = s") (auto simp: insort_is_Cons)
qed auto

lemma shift_up_insort:
  "sorted xs \<Longrightarrow> shift_up (xs @ y # zs) (length xs) s = insort s xs @ zs"
proof (induction xs arbitrary: y zs rule: rev_induct)
  case Nil
  then show ?case by simp
next
  case (snoc x xs)
  then have x: "sorted xs" by (simp add: sorted_append)
  show ?case
  proof (cases "s < x")
    case True
    have "shift_up (xs @ x # x # zs) (length xs) s = insort s xs @ x # zs"
      using snoc.IH [OF x] by simp
    then show ?thesis
      using True snoc.prems by (simp add: nth_append insort_snoc_greater list_update_append)
  next
    case False
    then show ?thesis
      using snoc.prems by (simp add: nth_append insort_snoc_le list_update_append)
  qed
qed

lemma shift_down_insort:
  "sorted zs \<Longrightarrow> shift_down (xs @ y # zs) (length xs) s = xs @ insort s zs"
proof (induction zs arbitrary: xs y)
  case Nil
  then show ?case by (subst shift_down.simps) simp
next
  case (Cons z zs)
  have n: "(xs @ y # z # zs) ! Suc (length xs) = z" by (simp add: nth_append)
  show ?case
  proof (cases "z < s")
    case True
    have "shift_down (xs @ y # z # zs) (length xs) s = shift_down ((xs @ [z]) @ z # zs) (length (xs @ [z])) s"
      using True n by (subst shift_down.simps) simp
    also have "\<dots> = xs @ insort s (z # zs)"
      using Cons.IH [of "xs @ [z]" z] Cons.prems True by simp
    finally show ?thesis .
  next
    case False
    then show ?thesis using n by (subst shift_down.simps) (simp add: not_less)
  qed
qed

definition ts_inv :: "top_scores \<Rightarrow> bool" where
  "ts_inv t \<longleftrightarrow> 1 \<le> ts_capacity t \<and> length (ts_values t) \<le> ts_capacity t \<and> sorted (ts_values t)"

lemma ts_inv_new: "ts_inv (new_top_scores k)"
  by (simp add: ts_inv_def new_top_scores_def)

lemma ts_offer_values:
  assumes "ts_inv t"
  shows "ts_values (ts_offer t s) =
    (if ts_full t then tl (insort s (ts_values t)) else insort s (ts_values t))"
proof (cases "ts_full t")
  case True
  then obtain v vs where v: "ts_values t = v # vs"
    using assms by (cases "ts_values t") (auto simp: ts_full_def ts_inv_def)
  then have "shift_down (v # vs) 0 s = insort s vs"
    using shift_down_insort [of vs "[]" v s] assms by (simp add: ts_inv_def)
  then show ?thesis using True v by (auto simp: ts_offer_def)
next
  case False
  then show ?thesis
    using shift_up_insort [of "ts_values t" 0 "[]" s] assms by (simp add: ts_offer_def ts_inv_def)
qed

lemma ts_inv_offer: "ts_inv t \<Longrightarrow> ts_inv (ts_offer t s)"
proof -
  assume t: "ts_inv t"
  have c: "ts_capacity (ts_offer t s) = ts_capacity t" by (simp add: ts_offer_def)
  have "sorted (tl (insort s (ts_values t)))"
    using t by (simp add: ts_inv_def sorted_tl sorted_insort)
  then show ?thesis
    using t by (auto simp: ts_inv_def c ts_offer_values ts_full_def sorted_insort)
qed

lemma drop_insort: "sorted ys \<Longrightarrow> drop (Suc d) (insort s ys) = tl (insort s (drop d ys))" for s :: int
proof (induction d arbitrary: ys)
  case (Suc d)
  show ?case
  proof (cases ys)
    case (Cons y zs)
    have "insort s (drop d zs) = s # drop d zs" if "s \<le> y"
    proof (cases "drop d zs")
      case (Cons w ws)
      then have "w \<in> set zs" by (metis in_set_dropD list.set_intros(1))
      then show ?thesis using Suc.prems that Cons \<open>ys = y # zs\<close> by auto
    qed simp
    then show ?thesis using Suc.IH [of zs] Suc.prems Cons by simp
  qed simp
qed (simp add: drop_Suc)

text \<open>C27: after any sequence of offers the bounded score list holds exactly the largest scores offered,
  in ascending order: the early exit of the traversal compares against the true k-th best.\<close>

theorem top_scores_keep_largest:
  "ts_values (fold (\<lambda>x t. ts_offer t x) xs (new_top_scores capacity)) =
     drop (length xs - max 1 capacity) (sort xs)"
proof -
  have "ts_inv (fold (\<lambda>x t. ts_offer t x) xs (new_top_scores capacity)) \<and>
    ts_capacity (fold (\<lambda>x t. ts_offer t x) xs (new_top_scores capacity)) = max 1 capacity \<and>
    ts_values (fold (\<lambda>x t. ts_offer t x) xs (new_top_scores capacity)) = drop (length xs - max 1 capacity) (sort xs)"
  proof (induction xs rule: rev_induct)
    case Nil
    then show ?case using ts_inv_new by (simp add: new_top_scores_def)
  next
    case (snoc x xs)
    let ?t = "fold (\<lambda>x t. ts_offer t x) xs (new_top_scores capacity)"
    have s: "sort (xs @ [x]) = insort x (sort xs)"
      by (rule properties_for_sort) (simp_all add: sorted_insort)
    have c: "ts_capacity (ts_offer ?t x) = ts_capacity ?t"
      by (simp add: ts_offer_def)
    have "length (ts_values ?t) = length xs - (length xs - max 1 capacity)" using snoc.IH by simp
    then have "ts_full ?t \<longleftrightarrow> max 1 capacity \<le> length xs" using snoc.IH by (auto simp: ts_full_def)
    then show ?case
      using snoc.IH ts_offer_values [of ?t x] ts_inv_offer [of ?t x] c
      by (auto simp: s drop_insort Suc_diff_le)
  qed
  then show ?thesis by simp
qed

end
