(* ===== verification/Kernel_Traverse.thy ===== *)
theory Kernel_Traverse
  imports Kernel_Safety Traversal_Frontier Ranked_Collectors
begin

text \<open>
  The bounded best-first traversal, \<open>query/kernel-traverse.ts\<close>.  Every round pops one frontier
  state, and every state pushed during the walk has used up one of the \<open>maxVisitedEdges\<close>
  edge visits: their sum is the measure that makes the loop a total function.  A score is
  stored in \<open>Int32Array\<close> cells, so it is wrapped where it is written.
\<close>

subsection \<open>State\<close>

record traversal =
  tr_state :: kernel_state
  tr_frontier :: frontier
  tr_top :: top_scores
  tr_visited :: "int set"
  tr_visitedNodes :: nat
  tr_visitedEdges :: nat
  tr_depthLimited :: nat
  tr_nodeCapHit :: bool
  tr_edgeCapHit :: bool
  tr_timedOut :: bool
  tr_earlyExit :: bool
  tr_since :: nat
  tr_graphRank :: nat

record traversal_outcome =
  to_visitedNodes :: nat
  to_visitedEdges :: nat
  to_depthLimited :: nat
  to_nodeCapHit :: bool
  to_edgeCapHit :: bool
  to_frontierCapHit :: bool
  to_timedOut :: bool
  to_earlyExit :: bool

definition SCALE :: int where "SCALE = CONTEXT_INDEX_FIXED_POINT_SCALE"

fun decay_at :: "int \<Rightarrow> nat \<Rightarrow> int" where
  "decay_at step 0 = SCALE"
| "decay_at step (Suc depth) = to_int32 (mulFixed (decay_at step depth) step SCALE)"

definition decayLadder :: "rat \<Rightarrow> nat \<Rightarrow> int list" where
  "decayLadder depthDecay maxDepth = map (decay_at (fixed depthDecay)) [0..<maxDepth + 2]"

definition cell_or_0 :: "int list \<Rightarrow> nat \<Rightarrow> int" where
  "cell_or_0 cells i = (case array_at cells i of Some v \<Rightarrow> v | None \<Rightarrow> 0)"

subsection \<open>Seeding the frontier\<close>

definition seed_base :: "ranking_config \<Rightarrow> candidate_table \<Rightarrow> nat \<Rightarrow> int" where
  "seed_base config t slot =
     (let seedBonus = (if has t slot EXACT_SEED then fixed (rc_exactSeedBonus config)
                       else if has t slot NAME_MATCH then fixed (rc_nameSeedBonus config)
                       else fixed (rc_lexicalSeedBonus config))
      in fixed (contextGraphSeedConfidenceScore config (confidenceOf t slot)) + seedBonus)"

definition seed_key :: "candidate_table \<Rightarrow> nat \<Rightarrow> int \<Rightarrow> frontier_key" where
  "seed_key t slot base =
     (let node = c_node (row t slot)
      in \<lparr>k_score = to_int32 base, k_depth = 0, k_priority = 0, k_node = node, k_seed = node,
          k_parentNode = - 1, k_parentEdge = - 1, k_flags = c_flags (row t slot) AND FOCUS\<rparr>)"

definition seed_step :: "ranking_config \<Rightarrow> nat \<Rightarrow> candidate_table \<times> frontier \<Rightarrow> candidate_table \<times> frontier" where
  "seed_step config slot acc =
     (let (t, f) = acc
      in if \<not> has t slot SEED then acc
         else let base = seed_base config t slot;
                  t' = set_graphScore slot base t
              in (t', fst (push f (seed_key t' slot base))))"

definition traversal_start :: "plan_context \<Rightarrow> kernel_state \<Rightarrow> traversal" where
  "traversal_start px s =
     (let (t, f) = fold (seed_step (px_config px)) [0..<ct_size (ks_table s)]
                     (ks_table s, new_frontier (pl_frontierBudget (px_plan px)))
      in \<lparr>tr_state = s\<lparr>ks_table := t\<rparr>, tr_frontier = f, tr_top = new_top_scores (px_maxSelected px),
          tr_visited = {}, tr_visitedNodes = 0, tr_visitedEdges = 0, tr_depthLimited = 0,
          tr_nodeCapHit = False, tr_edgeCapHit = False, tr_timedOut = False, tr_earlyExit = False,
          tr_since = 0, tr_graphRank = 0\<rparr>)"

subsection \<open>One edge\<close>

definition hop_score :: "plan_context \<Rightarrow> int \<Rightarrow> edge_view \<Rightarrow> int \<Rightarrow> int" where
  "hop_score px directionMultiplier e childDecay =
     mulFixed (mulFixed (mulFixed (cell_or_0 (px_edgeWeights px) (ev_type e))
                                  (cell_or_0 (px_confidenceMultipliers px) (ev_confidence e)) SCALE)
                        directionMultiplier SCALE)
              childDecay SCALE"

definition child_score :: "plan_context \<Rightarrow> int \<Rightarrow> frontier_key \<Rightarrow> edge_view \<Rightarrow> int \<Rightarrow> int" where
  "child_score px directionMultiplier popped e childDecay =
     mulFixed (k_score popped) (fixed (rc_depthDecay (px_config px))) SCALE +
     hop_score px directionMultiplier e childDecay"

definition child_key ::
  "plan_context \<Rightarrow> int \<Rightarrow> frontier_key \<Rightarrow> edge_view \<Rightarrow> int \<Rightarrow> candidate \<Rightarrow> frontier_key" where
  "child_key px directionMultiplier popped e childDecay child =
     \<lparr>k_score = to_int32 (child_score px directionMultiplier popped e childDecay),
      k_depth = k_depth popped + 1,
      k_priority = cell_or_0 (px_edgeWeights px) (ev_type e),
      k_node = ev_target e, k_seed = k_seed popped, k_parentNode = k_node popped,
      k_parentEdge = ev_edge e,
      k_flags = (k_flags popped AND FOCUS) OR (c_flags child AND FOCUS)\<rparr>"

text \<open>The body of \<open>while (cursor.next())\<close>; \<open>True\<close> asks for the next edge.\<close>

definition traverse_edge ::
  "index_reader \<Rightarrow> plan_context \<Rightarrow> frontier_key \<Rightarrow> int \<Rightarrow> int \<Rightarrow> edge_view \<Rightarrow> traversal \<Rightarrow> traversal \<times> bool" where
  "traverse_edge reader px popped directionMultiplier childDecay e tr =
     (if cap_maxVisitedEdges CONTEXT_GRAPH_TRAVERSAL_CAPS \<le> tr_visitedEdges tr
      then (tr\<lparr>tr_edgeCapHit := True\<rparr>, False)
      else
        let (since, ticks, expired) = deadline_check px (tr_since tr + 1) (ks_ticks (tr_state tr));
            tr1 = tr\<lparr>tr_visitedEdges := tr_visitedEdges tr + 1, tr_since := since,
                     tr_state := (tr_state tr)\<lparr>ks_ticks := ticks\<rparr>\<rparr>
        in if expired then (tr1\<lparr>tr_timedOut := True\<rparr>, False)
           else if \<not> mask_has (px_edgeTypeMask px) (ev_type e) then (tr1, True)
           else if ev_target e \<in> tr_visited tr1 then (tr1, True)
           else
             let (t, slot) = admit reader (ev_target e) (ks_table (tr_state tr1));
                 tr2 = tr1\<lparr>tr_state := (tr_state tr1)\<lparr>ks_table := t\<rparr>\<rparr>
             in case slot of
                  None \<Rightarrow> (tr2\<lparr>tr_nodeCapHit := True\<rparr>, True)
                | Some s \<Rightarrow>
                    let (f, accepted) = push (tr_frontier tr2)
                          (child_key px directionMultiplier popped e childDecay (row t s))
                    in (tr2\<lparr>tr_frontier := f\<rparr>, accepted))"

fun traverse_edges ::
  "index_reader \<Rightarrow> plan_context \<Rightarrow> frontier_key \<Rightarrow> int \<Rightarrow> int \<Rightarrow> edge_view list \<Rightarrow> traversal \<Rightarrow> traversal" where
  "traverse_edges reader px popped m d [] tr = tr"
| "traverse_edges reader px popped m d (e # es) tr =
     (let (tr', continue) = traverse_edge reader px popped m d e tr
      in if continue then traverse_edges reader px popped m d es tr' else tr')"

subsection \<open>One popped state\<close>

definition mark_node_flag :: "nat \<Rightarrow> 32 word \<Rightarrow> 32 word \<Rightarrow> candidate_table \<Rightarrow> candidate_table" where
  "mark_node_flag slot node_bit bits t =
     (if hasFlag (c_nodeFlags (row t slot)) node_bit then mark slot bits t else t)"

definition discover :: "frontier_key \<Rightarrow> nat \<Rightarrow> nat \<Rightarrow> candidate_table \<Rightarrow> candidate_table" where
  "discover popped slot graphRank t =
     (let t1 = set_graphScore slot (k_score popped) t;
          t2 = link slot (k_seed popped) (k_parentNode popped) (k_parentEdge popped) (k_depth popped) t1;
          t3 = contribute slot L_local_graph graphRank (k_score popped) (- 1) t2;
          t4 = (case slotOf t3 (k_seed popped) of
                  None \<Rightarrow> t3
                | Some seedSlot \<Rightarrow>
                    claim slot L_local_graph
                      (demoteKernelConfidence (confidenceOf t3 seedSlot) (int (k_depth popped))) t3);
          t5 = (if hasFlag (k_flags popped) FOCUS then mark slot FOCUS t4 else t4);
          t6 = mark_node_flag slot NODE_PROTECTED PROTECTED t5;
          t7 = mark_node_flag slot NODE_IS_TEST_OR_GATE TEST_OR_GATE t6
      in mark_node_flag slot NODE_IS_EVIDENCE EVIDENCE t7)"

text \<open>\<open>peekScore() < floor\<close>, where an empty side is negative infinity.\<close>

definition below_floor :: "int option \<Rightarrow> int option \<Rightarrow> bool" where
  "below_floor peek lowest =
     (case lowest of None \<Rightarrow> False
      | Some v \<Rightarrow> (case peek of None \<Rightarrow> True | Some p \<Rightarrow> p < v))"

definition expand :: "index_reader \<Rightarrow> plan_context \<Rightarrow> frontier_key \<Rightarrow> traversal \<Rightarrow> traversal" where
  "expand reader px popped tr =
     (let decay = decayLadder (rc_depthDecay (px_config px)) (pl_maxDepth (px_plan px));
          childDecay = cell_or_0 decay (k_depth popped + 1);
          mask = pl_profileMask (px_plan px);
          tr1 = traverse_edges reader px popped SCALE childDecay (rd_outgoing reader (k_node popped) mask) tr
      in if tr_timedOut tr1 \<or> tr_edgeCapHit tr1 then tr1
         else traverse_edges reader px popped (fixed (rc_reverseEdgeMultiplier (px_config px))) childDecay
                (rd_incoming reader (k_node popped) mask) tr1)"

text \<open>The first pop of a node: its discovery is written once, and its score offered.\<close>

definition enter_node :: "frontier_key \<Rightarrow> nat \<Rightarrow> traversal \<Rightarrow> traversal" where
  "enter_node popped slot tr =
     (let tr1 = (if 0 < k_depth popped
                 then tr\<lparr>tr_state := on_table (discover popped slot (tr_graphRank tr)) (tr_state tr),
                         tr_graphRank := tr_graphRank tr + 1\<rparr>
                 else tr)
      in tr1\<lparr>tr_top := ts_offer (tr_top tr1) (c_graphScore (row (ks_table (tr_state tr1)) slot))\<rparr>)"

definition visit_node :: "frontier_key \<Rightarrow> traversal \<Rightarrow> traversal" where
  "visit_node popped tr =
     tr\<lparr>tr_visited := insert (k_node popped) (tr_visited tr), tr_visitedNodes := tr_visitedNodes tr + 1\<rparr>"

text \<open>The loop body after a successful \<open>pop()\<close>; \<open>True\<close> goes on to the next pop.\<close>

definition traverse_popped ::
  "index_reader \<Rightarrow> plan_context \<Rightarrow> bool \<Rightarrow> frontier_key \<Rightarrow> traversal \<Rightarrow> traversal \<times> bool" where
  "traverse_popped reader px safetyComplete popped tr =
     (if k_node popped \<in> tr_visited tr then (tr, True)
      else if cap_maxVisitedNodes CONTEXT_GRAPH_TRAVERSAL_CAPS \<le> tr_visitedNodes tr
      then (tr\<lparr>tr_nodeCapHit := True\<rparr>, False)
      else
        let tr1 = visit_node popped tr
        in case slotOf (ks_table (tr_state tr1)) (k_node popped) of
             None \<Rightarrow> (tr1, True)
           | Some slot \<Rightarrow>
               let tr3 = enter_node popped slot tr1
               in if safetyComplete \<and> ts_full (tr_top tr3) \<and>
                     below_floor (peekScore (tr_frontier tr3)) (ts_floor (tr_top tr3))
                  then (tr3\<lparr>tr_earlyExit := True\<rparr>, False)
                  else if pl_maxDepth (px_plan px) \<le> k_depth popped
                  then (tr3\<lparr>tr_depthLimited := tr_depthLimited tr3 + 1\<rparr>, True)
                  else let tr4 = expand reader px popped tr3 in (tr4, \<not> tr_timedOut tr4))"

definition traverse_round ::
  "index_reader \<Rightarrow> plan_context \<Rightarrow> bool \<Rightarrow> traversal \<Rightarrow> traversal \<times> bool" where
  "traverse_round reader px safetyComplete tr =
     (case pop (tr_frontier tr) of
        None \<Rightarrow> (tr, False)
      | Some (f, popped) \<Rightarrow> traverse_popped reader px safetyComplete popped (tr\<lparr>tr_frontier := f\<rparr>))"

subsection \<open>The work left\<close>

definition work_left :: "traversal \<Rightarrow> nat" where
  "work_left tr =
     length (fr_heap (tr_frontier tr)) +
     (cap_maxVisitedEdges CONTEXT_GRAPH_TRAVERSAL_CAPS - tr_visitedEdges tr)"

lemma push_length: "length (fr_heap (fst (push f e))) \<le> length (fr_heap f) + 1"
  by (auto simp: push_def allocate_def split: option.split if_splits)

lemma pop_length: "pop f = Some (g, e) \<Longrightarrow> length (fr_heap f) = length (fr_heap g) + 1"
  by (cases "fr_heap f") (auto simp: pop_def Let_def split: if_splits)

lemma traverse_edge_work: "work_left (fst (traverse_edge reader px popped m d e tr)) \<le> work_left tr"
proof (cases "cap_maxVisitedEdges CONTEXT_GRAPH_TRAVERSAL_CAPS \<le> tr_visitedEdges tr")
  case True
  then show ?thesis by (simp add: traverse_edge_def work_left_def)
next
  case False
  have "length (fr_heap g) \<le> length (fr_heap (tr_frontier tr)) + 1"
    if "push (tr_frontier tr) k = (g, b)" for k g b
    using push_length [of "tr_frontier tr" k] that by simp
  with False show ?thesis
    by (fastforce simp: traverse_edge_def work_left_def Let_def split: prod.split option.split)
qed

lemma traverse_edges_work: "work_left (traverse_edges reader px popped m d es tr) \<le> work_left tr"
proof (induction es arbitrary: tr)
  case (Cons e es)
  obtain tr' continue where e: "traverse_edge reader px popped m d e tr = (tr', continue)" by fastforce
  then have "work_left tr' \<le> work_left tr" using traverse_edge_work [of reader px popped m d e tr] by simp
  then show ?case using Cons.IH [of tr'] by (auto simp: e)
qed simp

lemma expand_work: "work_left (expand reader px popped tr) \<le> work_left tr"
  unfolding expand_def Let_def
  by (simp add: traverse_edges_work order_trans [OF traverse_edges_work traverse_edges_work])

lemma enter_node_frame [simp]:
  "tr_frontier (enter_node k slot tr) = tr_frontier tr"
  "tr_visitedEdges (enter_node k slot tr) = tr_visitedEdges tr"
  "tr_visitedNodes (enter_node k slot tr) = tr_visitedNodes tr"
  "tr_visited (enter_node k slot tr) = tr_visited tr"
  "tr_timedOut (enter_node k slot tr) = tr_timedOut tr"
  by (simp_all add: enter_node_def Let_def)

lemma visit_node_frame [simp]:
  "tr_frontier (visit_node k tr) = tr_frontier tr"
  "tr_visitedEdges (visit_node k tr) = tr_visitedEdges tr"
  "tr_visitedNodes (visit_node k tr) = tr_visitedNodes tr + 1"
  "tr_visited (visit_node k tr) = insert (k_node k) (tr_visited tr)"
  "tr_state (visit_node k tr) = tr_state tr"
  by (simp_all add: visit_node_def)

text \<open>Every way a popped state can be handled.\<close>

lemma traverse_popped_cases:
  assumes "traverse_popped reader px safe k tr = (tr', continue)"
  obtains (seen) "tr' = tr" "continue" "k_node k \<in> tr_visited tr"
  | (capped) "tr' = tr\<lparr>tr_nodeCapHit := True\<rparr>" "\<not> continue" "k_node k \<notin> tr_visited tr"
  | (lost) "tr' = visit_node k tr" "continue" "tr_visitedNodes tr < 4000" "k_node k \<notin> tr_visited tr"
  | (early) slot where "tr' = (enter_node k slot (visit_node k tr))\<lparr>tr_earlyExit := True\<rparr>" "\<not> continue"
      "tr_visitedNodes tr < 4000" "k_node k \<notin> tr_visited tr"
      "slotOf (ks_table (tr_state tr)) (k_node k) = Some slot"
  | (leaf) slot where
      "tr' = (enter_node k slot (visit_node k tr))
               \<lparr>tr_depthLimited := tr_depthLimited (enter_node k slot (visit_node k tr)) + 1\<rparr>" "continue"
      "tr_visitedNodes tr < 4000" "k_node k \<notin> tr_visited tr"
      "slotOf (ks_table (tr_state tr)) (k_node k) = Some slot"
  | (expanded) slot where "tr' = expand reader px k (enter_node k slot (visit_node k tr))"
      "tr_visitedNodes tr < 4000" "k_node k \<notin> tr_visited tr" "k_depth k < pl_maxDepth (px_plan px)"
      "slotOf (ks_table (tr_state tr)) (k_node k) = Some slot"
proof (cases "k_node k \<in> tr_visited tr")
  case True
  then show ?thesis using assms seen by (simp add: traverse_popped_def)
next
  case new: False
  show ?thesis
  proof (cases "tr_visitedNodes tr < 4000")
    case False
    then show ?thesis using assms new capped
      by (simp add: traverse_popped_def CONTEXT_GRAPH_TRAVERSAL_CAPS_def)
  next
    case room: True
    show ?thesis
    proof (cases "slotOf (ks_table (tr_state tr)) (k_node k)")
      case None
      then show ?thesis using assms new room lost
        by (simp add: traverse_popped_def CONTEXT_GRAPH_TRAVERSAL_CAPS_def)
    next
      case (Some slot)
      define b where "b = (safe \<and> ts_full (tr_top (enter_node k slot (visit_node k tr))) \<and>
        below_floor (peekScore (tr_frontier tr)) (ts_floor (tr_top (enter_node k slot (visit_node k tr)))))"
      have e: "(tr', continue) =
        (if b then ((enter_node k slot (visit_node k tr))\<lparr>tr_earlyExit := True\<rparr>, False)
         else if pl_maxDepth (px_plan px) \<le> k_depth k
         then ((enter_node k slot (visit_node k tr))
                 \<lparr>tr_depthLimited := tr_depthLimited (enter_node k slot (visit_node k tr)) + 1\<rparr>, True)
         else (expand reader px k (enter_node k slot (visit_node k tr)),
               \<not> tr_timedOut (expand reader px k (enter_node k slot (visit_node k tr)))))"
        unfolding assms [symmetric] using new room Some
        by (simp add: traverse_popped_def CONTEXT_GRAPH_TRAVERSAL_CAPS_def Let_def b_def)
      consider "b" | "\<not> b" "pl_maxDepth (px_plan px) \<le> k_depth k"
        | "\<not> b" "k_depth k < pl_maxDepth (px_plan px)" by fastforce
      then show ?thesis
      proof cases
        case 1
        show ?thesis by (rule early [OF _ _ room new Some]) (use e 1 in simp_all)
      next
        case 2
        show ?thesis by (rule leaf [OF _ _ room new Some]) (use e 2 in simp_all)
      next
        case 3
        show ?thesis by (rule expanded [OF _ room new _ Some]) (use e 3 in simp_all)
      qed
    qed
  qed
qed

lemma traverse_popped_work:
  assumes "traverse_popped reader px safe k tr = (tr', continue)"
  shows "work_left tr' \<le> work_left tr"
  using assms
proof (cases rule: traverse_popped_cases)
  case (expanded slot)
  have "work_left (enter_node k slot (visit_node k tr)) = work_left tr" by (simp add: work_left_def)
  with expanded expand_work show ?thesis by metis
qed (simp_all add: work_left_def)

lemma traverse_round_work:
  "traverse_round reader px safe tr = (tr', True) \<Longrightarrow> work_left tr' < work_left tr"
proof -
  assume r: "traverse_round reader px safe tr = (tr', True)"
  then obtain f k where p: "pop (tr_frontier tr) = Some (f, k)"
    and t: "traverse_popped reader px safe k (tr\<lparr>tr_frontier := f\<rparr>) = (tr', True)"
    by (auto simp: traverse_round_def split: option.splits)
  have "work_left (tr\<lparr>tr_frontier := f\<rparr>) < work_left tr"
    using pop_length [OF p] by (simp add: work_left_def)
  with traverse_popped_work [OF t] show ?thesis by simp
qed

function traverse_loop :: "index_reader \<Rightarrow> plan_context \<Rightarrow> bool \<Rightarrow> traversal \<Rightarrow> traversal" where
  "traverse_loop reader px safetyComplete tr =
     (let (tr', continue) = traverse_round reader px safetyComplete tr
      in if continue then traverse_loop reader px safetyComplete tr' else tr')"
  by pat_completeness auto
termination
  by (relation "measure (\<lambda>(_, _, _, tr). work_left tr)") (simp_all add: traverse_round_work)

declare traverse_loop.simps [simp del]

subsection \<open>The whole traversal\<close>

definition traversal_run :: "index_reader \<Rightarrow> plan_context \<Rightarrow> bool \<Rightarrow> kernel_state \<Rightarrow> traversal" where
  "traversal_run reader px safetyComplete s = traverse_loop reader px safetyComplete (traversal_start px s)"

definition of_flag :: "bool \<Rightarrow> int" where
  "of_flag b = (if b then 1 else 0)"

definition traverseKernelGraph ::
  "index_reader \<Rightarrow> plan_context \<Rightarrow> bool \<Rightarrow> kernel_state \<Rightarrow> kernel_state \<times> traversal_outcome" where
  "traverseKernelGraph reader px safetyComplete s =
     (let tr = traversal_run reader px safetyComplete s;
          rejected = fr_rejected (tr_frontier tr);
          frontierCapHit = (0 < rejected);
          s1 = omit O_timeout (of_flag (tr_timedOut tr))
                 (omit O_frontier_budget (int rejected)
                   (omit O_edge_cap (of_flag (tr_edgeCapHit tr))
                     (omit O_visit_cap (of_flag (tr_nodeCapHit tr))
                       (omit O_depth_limit (int (tr_depthLimited tr)) (tr_state tr)))));
          s2 = (if tr_timedOut tr then warn W_traversal_deadline s1 else s1);
          s3 = (if frontierCapHit then warn W_frontier_budget s2 else s2)
      in (s3, \<lparr>to_visitedNodes = tr_visitedNodes tr, to_visitedEdges = tr_visitedEdges tr,
               to_depthLimited = tr_depthLimited tr, to_nodeCapHit = tr_nodeCapHit tr,
               to_edgeCapHit = tr_edgeCapHit tr, to_frontierCapHit = frontierCapHit,
               to_timedOut = tr_timedOut tr, to_earlyExit = tr_earlyExit tr\<rparr>))"

subsection \<open>Invariant and growth\<close>

text \<open>
  Depths on the frontier stay within the plan's bound, the caps bound the counters, and the
  counters count: every visited node is counted once.
\<close>

definition traversal_inv :: "index_reader \<Rightarrow> plan_context \<Rightarrow> traversal \<Rightarrow> bool" where
  "traversal_inv reader px tr \<longleftrightarrow>
     kernel_inv reader (tr_state tr) \<and> frontier_inv (tr_frontier tr) \<and>
     fr_capacity (tr_frontier tr) = nat (max 1 (pl_frontierBudget (px_plan px))) \<and>
     (\<forall>k \<in># queued (tr_frontier tr). k_depth k \<le> pl_maxDepth (px_plan px)) \<and>
     ts_inv (tr_top tr) \<and> finite (tr_visited tr) \<and> card (tr_visited tr) = tr_visitedNodes tr \<and>
     tr_visitedNodes tr \<le> cap_maxVisitedNodes CONTEXT_GRAPH_TRAVERSAL_CAPS \<and>
     tr_visitedEdges tr \<le> cap_maxVisitedEdges CONTEXT_GRAPH_TRAVERSAL_CAPS"

definition traversal_le :: "traversal \<Rightarrow> traversal \<Rightarrow> bool" where
  "traversal_le tr tr' \<longleftrightarrow>
     kernel_le (tr_state tr) (tr_state tr') \<and> tr_visited tr \<subseteq> tr_visited tr' \<and>
     tr_visitedNodes tr \<le> tr_visitedNodes tr' \<and> tr_visitedEdges tr \<le> tr_visitedEdges tr'"

interpretation trv: invariant_order "traversal_inv reader px" traversal_le for reader px
proof
  show "traversal_le t t" if "traversal_inv reader px t" for t
    using that by (simp add: traversal_le_def traversal_inv_def kernel_le_refl)
  show "traversal_le t v" if "traversal_inv reader px t" "traversal_inv reader px u" "traversal_inv reader px v"
    "traversal_le t u" "traversal_le u v" for t u v
    using that unfolding traversal_le_def traversal_inv_def
    by (auto intro: ker.le_trans [of reader "tr_state t" "tr_state u" "tr_state v"])
qed

text \<open>A change that leaves the frontier, the scores and the visited set alone.\<close>

lemma traversal_frame:
  assumes "ker.grows reader (tr_state tr) (tr_state tr')"
    "tr_visitedEdges tr \<le> tr_visitedEdges tr'"
    "tr_visitedEdges tr' \<le> max (tr_visitedEdges tr) (cap_maxVisitedEdges CONTEXT_GRAPH_TRAVERSAL_CAPS)"
    "tr_frontier tr' = tr_frontier tr" "tr_top tr' = tr_top tr" "tr_visited tr' = tr_visited tr"
    "tr_visitedNodes tr' = tr_visitedNodes tr"
  shows "trv.grows reader px tr tr'"
  using assms by (auto simp: trv.grows_def traversal_inv_def traversal_le_def ker.grows_def)

lemma push_keeps:
  assumes "frontier_inv f" "\<forall>k \<in># queued f. P k" "P e"
  shows "frontier_inv (fst (push f e)) \<and> (\<forall>k \<in># queued (fst (push f e)). P k) \<and>
    fr_capacity (fst (push f e)) = fr_capacity f"
  using assms frontier_bag.offer_inv [of f e] frontier_bag.offer_content [of f e] frontier_bag.offer_limit [of f e]
  by (auto split: if_splits)

lemma child_depth [simp]: "k_depth (child_key px m k e d c) = k_depth k + 1"
  by (simp add: child_key_def)

lemma frontier_frame:
  assumes "ker.grows reader (tr_state tr) (tr_state tr')" "tr_visitedEdges tr' = tr_visitedEdges tr + 1"
    "tr_visitedEdges tr < cap_maxVisitedEdges CONTEXT_GRAPH_TRAVERSAL_CAPS"
    "tr_frontier tr' = fst (push (tr_frontier tr) e)" "k_depth e \<le> pl_maxDepth (px_plan px)"
    "tr_top tr' = tr_top tr" "tr_visited tr' = tr_visited tr" "tr_visitedNodes tr' = tr_visitedNodes tr"
  shows "trv.grows reader px tr tr'"
  using assms push_keeps [of "tr_frontier tr" "\<lambda>k. k_depth k \<le> pl_maxDepth (px_plan px)" e]
  by (auto simp: trv.grows_def traversal_inv_def traversal_le_def ker.grows_def)

lemma traverse_edge_grows:
  assumes "k_depth k < pl_maxDepth (px_plan px)"
  shows "trv.grows reader px tr (fst (traverse_edge reader px k m d e tr))"
proof (cases "cap_maxVisitedEdges CONTEXT_GRAPH_TRAVERSAL_CAPS \<le> tr_visitedEdges tr")
  case True
  then show ?thesis by (auto simp: traverse_edge_def intro!: traversal_frame)
next
  case False
  obtain since ticks expired where dl: "deadline_check px (Suc (tr_since tr)) (ks_ticks (tr_state tr)) = (since, ticks, expired)"
    by (cases "deadline_check px (Suc (tr_since tr)) (ks_ticks (tr_state tr))") auto
  define s1 where "s1 = (tr_state tr)\<lparr>ks_ticks := ticks\<rparr>"
  define tr1 where "tr1 = tr\<lparr>tr_visitedEdges := Suc (tr_visitedEdges tr), tr_since := since, tr_state := s1\<rparr>"
  have s1: "ker.grows reader (tr_state tr) s1"
    unfolding s1_def by (rule ticks_grows) (rule deadline_check_ticks [OF dl])
  obtain t slot where a: "admit reader (ev_target e) (ks_table (tr_state tr)) = (t, slot)" by fastforce
  have "tbl.grows reader (ks_table s1) t"
    using admit_grows [of reader "ks_table (tr_state tr)" "ev_target e"] a by (simp add: s1_def)
  then have s2: "ker.grows reader (tr_state tr) (s1\<lparr>ks_table := t\<rparr>)"
    by (rule ker.grows_trans [OF s1 set_table_grows])
  have e: "traverse_edge reader px k m d e tr =
     (if expired then (tr1\<lparr>tr_timedOut := True\<rparr>, False)
      else if \<not> mask_has (px_edgeTypeMask px) (ev_type e) then (tr1, True)
      else if ev_target e \<in> tr_visited tr then (tr1, True)
      else case slot of
             None \<Rightarrow> (tr1\<lparr>tr_state := s1\<lparr>ks_table := t\<rparr>, tr_nodeCapHit := True\<rparr>, True)
           | Some s \<Rightarrow>
               (tr1\<lparr>tr_state := s1\<lparr>ks_table := t\<rparr>,
                    tr_frontier := fst (push (tr_frontier tr) (child_key px m k e d (row t s)))\<rparr>,
                snd (push (tr_frontier tr) (child_key px m k e d (row t s)))))"
    using False by (simp add: traverse_edge_def dl a tr1_def s1_def Let_def case_prod_beta split: option.split)
  have f: "trv.grows reader px tr tr'" if "ker.grows reader (tr_state tr) (tr_state tr')" "tr_visitedEdges tr' = Suc (tr_visitedEdges tr)"
    "tr_frontier tr' = tr_frontier tr" "tr_top tr' = tr_top tr" "tr_visited tr' = tr_visited tr"
    "tr_visitedNodes tr' = tr_visitedNodes tr" for tr'
    by (rule traversal_frame) (use that False in auto)
  show ?thesis
  proof (cases slot)
    case None
    then show ?thesis unfolding e using s1 s2 by (auto intro!: f simp: tr1_def)
  next
    case (Some s)
    let ?tr = "tr1\<lparr>tr_state := s1\<lparr>ks_table := t\<rparr>,
                    tr_frontier := fst (push (tr_frontier tr) (child_key px m k e d (row t s)))\<rparr>"
    have "trv.grows reader px tr ?tr"
      by (rule frontier_frame) (use False assms s2 in \<open>auto simp: tr1_def\<close>)
    then show ?thesis unfolding e using s1 Some by (auto intro!: f simp: tr1_def)
  qed
qed

lemma traverse_edges_grows:
  assumes "k_depth k < pl_maxDepth (px_plan px)"
  shows "trv.grows reader px tr (traverse_edges reader px k m d es tr)"
proof (induction es arbitrary: tr)
  case (Cons e es)
  obtain tr' continue where e: "traverse_edge reader px k m d e tr = (tr', continue)" by fastforce
  then have "trv.grows reader px tr tr'" using traverse_edge_grows [OF assms] by (metis fst_conv)
  then show ?case using trv.grows_trans [OF _ Cons.IH] by (simp add: e)
qed simp

lemma expand_grows:
  assumes "k_depth k < pl_maxDepth (px_plan px)"
  shows "trv.grows reader px tr (expand reader px k tr)"
  unfolding expand_def Let_def
  by (simp add: traverse_edges_grows [OF assms]
      trv.grows_trans [OF traverse_edges_grows [OF assms] traverse_edges_grows [OF assms]])

lemma discover_grows:
  assumes "0 < k_depth k"
  shows "tbl.grows reader t (discover k slot r t)"
proof -
  have mnf: "tbl.grows reader u v \<Longrightarrow> tbl.grows reader u (mark_node_flag slot a b v)" for u v a b
    by (auto simp: mark_node_flag_def intro: tbl.grows_step [OF _ mark_grows])
  have cl: "tbl.grows reader u v \<Longrightarrow> tbl.grows reader u (case slotOf v (k_seed k) of None \<Rightarrow> v
      | Some s \<Rightarrow> claim slot L_local_graph (demoteKernelConfidence (confidenceOf v s) (int (k_depth k))) v)" for u v
    using assms by (auto split: option.split intro!: tbl.grows_trans [OF _ claim_grows] demote_not_exact)
  have fo: "tbl.grows reader u v \<Longrightarrow> tbl.grows reader u (if b then mark slot FOCUS v else v)" for u v b
    by (auto intro: tbl.grows_step [OF _ mark_grows])
  show ?thesis unfolding discover_def Let_def
    by (intro mnf fo cl tbl.grows_step [OF _ contribute_grows] tbl.grows_step [OF _ link_grows] set_graphScore_grows)
qed

lemma enter_node_grows: "trv.grows reader px tr (enter_node k slot tr)"
proof -
  have "ker.grows reader (tr_state tr) (tr_state (enter_node k slot tr))"
    by (simp add: enter_node_def Let_def on_table_grows discover_grows)
  moreover have "\<exists>v. tr_top (enter_node k slot tr) = ts_offer (tr_top tr) v"
    by (auto simp: enter_node_def Let_def)
  ultimately show ?thesis
    by (auto simp: trv.grows_def traversal_inv_def traversal_le_def ker.grows_def ts_inv_offer)
qed

lemma visit_node_grows:
  assumes "k_node k \<notin> tr_visited tr" "tr_visitedNodes tr < 4000"
  shows "trv.grows reader px tr (visit_node k tr)"
proof -
  have "tr_top (visit_node k tr) = tr_top tr" by (simp add: visit_node_def)
  then show ?thesis using assms
    by (auto simp: trv.grows_def traversal_inv_def traversal_le_def CONTEXT_GRAPH_TRAVERSAL_CAPS_def kernel_le_refl)
qed

lemma traverse_popped_grows:
  assumes "traverse_popped reader px safe k tr = (tr', continue)"
  shows "trv.grows reader px tr tr'"
  using assms
proof (cases rule: traverse_popped_cases)
  case capped
  then show ?thesis by (auto intro!: traversal_frame)
next
  case lost
  then show ?thesis using visit_node_grows by simp
next
  case (early slot)
  have "trv.grows reader px (enter_node k slot (visit_node k tr)) tr'" unfolding early(1) by (rule traversal_frame) simp_all
  then show ?thesis using visit_node_grows enter_node_grows early trv.grows_trans by metis
next
  case (leaf slot)
  have "trv.grows reader px (enter_node k slot (visit_node k tr)) tr'" unfolding leaf(1) by (rule traversal_frame) simp_all
  then show ?thesis using visit_node_grows enter_node_grows leaf trv.grows_trans by metis
next
  case (expanded slot)
  then show ?thesis using visit_node_grows enter_node_grows expand_grows trv.grows_trans by metis
qed simp

lemma pop_grows:
  assumes "pop (tr_frontier tr) = Some (f, k)" "traversal_inv reader px tr"
  shows "traversal_inv reader px (tr\<lparr>tr_frontier := f\<rparr>)" "traversal_le tr (tr\<lparr>tr_frontier := f\<rparr>)"
    "k_depth k \<le> pl_maxDepth (px_plan px)"
  using assms pop_Some [OF _ assms(1)]
  by (auto simp: traversal_inv_def traversal_le_def kernel_le_refl)

lemma traverse_round_grows:
  assumes "traverse_round reader px safe tr = (tr', continue)"
  shows "trv.grows reader px tr tr'"
proof (cases "pop (tr_frontier tr)")
  case None
  then show ?thesis using assms by (simp add: traverse_round_def)
next
  case (Some p)
  obtain f k where p: "p = (f, k)" by fastforce
  have "trv.grows reader px tr (tr\<lparr>tr_frontier := f\<rparr>)"
    using pop_grows Some p by (simp add: trv.grows_def)
  moreover have "trv.grows reader px (tr\<lparr>tr_frontier := f\<rparr>) tr'"
    using assms Some p by (auto simp: traverse_round_def intro: traverse_popped_grows)
  ultimately show ?thesis by (rule trv.grows_trans)
qed

lemma traverse_loop_grows: "trv.grows reader px tr (traverse_loop reader px safe tr)"
proof (induction tr rule: measure_induct_rule [of work_left])
  case (less tr)
  obtain tr' continue where r: "traverse_round reader px safe tr = (tr', continue)" by fastforce
  have "trv.grows reader px tr tr'" using traverse_round_grows [OF r] .
  moreover have "continue \<Longrightarrow> trv.grows reader px tr' (traverse_loop reader px safe tr')"
    using less [of tr'] traverse_round_work r by simp
  ultimately show ?case by (subst traverse_loop.simps) (auto simp: r intro: trv.grows_trans)
qed

lemma seed_fold_grows:
  assumes "frontier_inv (snd acc)" "\<forall>k \<in># queued (snd acc). k_depth k \<le> n"
  shows "tbl.grows reader (fst acc) (fst (fold (seed_step config) slots acc)) \<and>
    frontier_inv (snd (fold (seed_step config) slots acc)) \<and>
    (\<forall>k \<in># queued (snd (fold (seed_step config) slots acc)). k_depth k \<le> n) \<and>
    fr_capacity (snd (fold (seed_step config) slots acc)) = fr_capacity (snd acc)"
  using assms
proof (induction slots arbitrary: acc)
  case (Cons slot slots)
  obtain t f where acc: "acc = (t, f)" by fastforce
  let ?acc = "seed_step config slot acc"
  have "tbl.grows reader t (fst ?acc) \<and> frontier_inv (snd ?acc) \<and>
      (\<forall>k \<in># queued (snd ?acc). k_depth k \<le> n) \<and> fr_capacity (snd ?acc) = fr_capacity f"
  proof (cases "has t slot SEED")
    case True
    define K where "K = seed_key (set_graphScore slot (seed_base config t slot) t) slot (seed_base config t slot)"
    have a: "seed_step config slot (t, f) = (set_graphScore slot (seed_base config t slot) t, fst (push f K))"
      using True by (simp add: seed_step_def Let_def K_def)
    have "k_depth K \<le> n" by (simp add: seed_key_def Let_def K_def)
    then show ?thesis
      using Cons.prems push_keeps [of f "\<lambda>k. k_depth k \<le> n" K]
      unfolding a fst_conv snd_conv acc by (blast intro: set_graphScore_grows)
  qed (use Cons.prems in \<open>simp add: seed_step_def acc\<close>)
  then show ?case using Cons.IH [of ?acc] tbl.grows_trans acc by auto
qed simp

lemma traversal_start_inv:
  assumes "kernel_inv reader s"
  shows "traversal_inv reader px (traversal_start px s)" "kernel_le s (tr_state (traversal_start px s))"
proof -
  let ?f = "new_frontier (pl_frontierBudget (px_plan px))"
  obtain t f where e: "fold (seed_step (px_config px)) [0..<ct_size (ks_table s)] (ks_table s, ?f) = (t, f)"
    by fastforce
  have "tbl.grows reader (ks_table s) t \<and> frontier_inv f \<and> (\<forall>k \<in># queued f. k_depth k \<le> pl_maxDepth (px_plan px)) \<and>
      fr_capacity f = fr_capacity ?f"
    using seed_fold_grows [of "(ks_table s, ?f)" "pl_maxDepth (px_plan px)" reader "px_config px"
        "[0..<ct_size (ks_table s)]", unfolded e] by (simp add: frontier_inv_new queued_new)
  moreover from this have "ker.grows reader s (s\<lparr>ks_table := t\<rparr>)" by (intro set_table_grows) blast
  ultimately show "traversal_inv reader px (traversal_start px s)" "kernel_le s (tr_state (traversal_start px s))"
    using assms e unfolding new_frontier_def
    by (simp_all add: traversal_start_def traversal_inv_def ts_inv_new ker.grows_def new_frontier_def)
qed

lemma traversal_run_inv:
  assumes "kernel_inv reader s"
  shows "traversal_inv reader px (traversal_run reader px safe s)"
    and "kernel_le s (tr_state (traversal_run reader px safe s))"
proof -
  note st = traversal_start_inv [OF assms, of px]
  have "trv.grows reader px (traversal_start px s) (traversal_run reader px safe s)"
    unfolding traversal_run_def by (rule traverse_loop_grows)
  then have g: "traversal_inv reader px (traversal_run reader px safe s)"
    "traversal_le (traversal_start px s) (traversal_run reader px safe s)"
    using st(1) by (simp_all add: trv.grows_def)
  then show "traversal_inv reader px (traversal_run reader px safe s)" by simp
  show "kernel_le s (tr_state (traversal_run reader px safe s))"
    by (rule ker.le_trans [of reader s "tr_state (traversal_start px s)"])
      (use assms st g in \<open>auto simp: traversal_le_def traversal_inv_def\<close>)
qed

lemma traverseKernelGraph_grows: "ker.grows reader s (fst (traverseKernelGraph reader px safe s))"
proof -
  have "ker.grows reader s (tr_state (traversal_run reader px safe s))"
    using traversal_run_inv by (simp add: ker.grows_def traversal_inv_def)
  then show ?thesis by (simp add: traverseKernelGraph_def Let_def grows_omit grows_warn)
qed

end
