(* ===== verification/Kernel_Fuse.thy ===== *)
theory Kernel_Fuse
  imports Kernel_Traverse
begin

text \<open>
  Integer reciprocal-rank fusion and the hard exclusions, \<open>query/kernel-fuse.ts\<close>.  The scoring
  expression is \<open>fused_score\<close>, one summand per term of the source; the loop over the table is
  the fold of \<open>fuse_slot\<close>.
\<close>

subsection \<open>Hard exclusions\<close>

datatype exclusion = X_invalidated | X_stale | X_ungroundable | X_focus

definition exclusion_of ::
  "index_reader \<Rightarrow> plan_context \<Rightarrow> candidate_table \<Rightarrow> nat \<Rightarrow> exclusion option" where
  "exclusion_of reader px t slot =
     (let nodeFlags = c_nodeFlags (row t slot);
          sf = rd_nodeScoreFields reader (c_node (row t slot))
      in if hasFlag nodeFlags NODE_INVALIDATED then Some X_invalidated
         else if \<not> hasFlag nodeFlags NODE_GROUNDABLE then
           (if array_at FRESHNESS_CODES (sf_freshness sf) = Some F_stale then Some X_stale
            else Some X_ungroundable)
         else if px_focusPaths px \<noteq> [] \<and> \<not> has t slot FOCUS then Some X_focus
         else None)"

definition admissible :: "index_reader \<Rightarrow> plan_context \<Rightarrow> candidate_table \<Rightarrow> nat list" where
  "admissible reader px t = filter (\<lambda>slot. exclusion_of reader px t slot = None) [0..<ct_size t]"

subsection \<open>The score\<close>

definition freshness_at :: "nat \<Rightarrow> freshness" where
  "freshness_at code = (case array_at FRESHNESS_CODES code of Some f \<Rightarrow> f | None \<Rightarrow> F_unknown)"

definition risk_at :: "nat \<Rightarrow> risk" where
  "risk_at code = (case array_at RISK_CODES code of Some r \<Rightarrow> r | None \<Rightarrow> R_low)"

definition priority_term :: "plan_context \<Rightarrow> candidate_table \<Rightarrow> nat \<Rightarrow> int" where
  "priority_term px t slot =
     (if has t slot EXACT_SEED then fixed (kc_exactAnchorPriority (px_kernelConfig px)) else 0) +
     (if has t slot NAME_MATCH then fixed (kc_nameAnchorPriority (px_kernelConfig px)) else 0)"

definition lane_term :: "plan_context \<Rightarrow> candidate_table \<Rightarrow> nat \<Rightarrow> lane \<Rightarrow> int" where
  "lane_term px t slot l =
     (let rank = rankIn t slot l
      in if rank < 0 \<or> int (kc_rrfRankCap (px_kernelConfig px)) \<le> rank then 0
         else mulFixed (px_laneWeights px l) (cell_or_0 (px_rrf px) (nat rank)) SCALE)"

definition trust_term :: "plan_context \<Rightarrow> score_fields \<Rightarrow> int" where
  "trust_term px sf =
     mulFixed (math_round (fl (of_int (sf_trust sf * SCALE) / of_int CONTEXT_INDEX_TRUST_SCALE)))
       (fixed (rc_trustBonus (px_config px))) SCALE"

definition freshness_term :: "plan_context \<Rightarrow> score_fields \<Rightarrow> int" where
  "freshness_term px sf = fixed (rc_freshnessBonus (px_config px) (freshness_at (sf_freshness sf)))"

definition risk_term :: "plan_context \<Rightarrow> score_fields \<Rightarrow> int" where
  "risk_term px sf =
     mulFixed (fixed (rc_riskRelevanceBonus (px_config px) (risk_at (sf_risk sf))))
       (if px_highRisk px then fixed (rc_highRiskRelevanceMultiplier (px_config px)) else SCALE) SCALE"

definition evidence_term :: "plan_context \<Rightarrow> candidate \<Rightarrow> int" where
  "evidence_term px r =
     (let evidenceCount =
            (if hasFlag (c_nodeFlags r) NODE_HAS_PATH \<and> hasFlag (c_nodeFlags r) NODE_HAS_CONTENT_HASH
             then 1 else 0) + min (c_depth r) (rc_maxProvenancePerNode (px_config px))
      in min (fixed (rc_evidenceCoverageBonus (px_config px)) * int evidenceCount)
             (fixed (rc_evidenceCoverageCap (px_config px))))"

definition token_penalty :: "plan_context \<Rightarrow> candidate \<Rightarrow> int" where
  "token_penalty px r =
     min (fixed (fl (rc_tokenCostPenaltyPerToken (px_config px) * of_int (c_tokenCost r))))
         (fixed (rc_tokenCostPenaltyCap (px_config px)))"

definition fused_score :: "index_reader \<Rightarrow> plan_context \<Rightarrow> candidate_table \<Rightarrow> nat \<Rightarrow> int" where
  "fused_score reader px t slot =
     (let r = row t slot; sf = rd_nodeScoreFields reader (c_node r)
      in priority_term px t slot + sum_list (map (lane_term px t slot) RETRIEVAL_LANES) +
         c_graphScore r + trust_term px sf + freshness_term px sf + risk_term px sf +
         evidence_term px r - token_penalty px r)"

subsection \<open>The loop\<close>

record fusion_run =
  fu_pool :: top_k
  fu_protected :: reserve
  fu_conflicts :: reserve
  fu_exactSeeds :: reserve
  fu_testOrGates :: reserve
  fu_leaders :: "lane \<Rightarrow> reserve"
  fu_fused :: "int list"
  fu_stale :: nat
  fu_invalidated :: nat
  fu_ungroundable :: nat
  fu_focus :: nat
  fu_protectedReachable :: nat
  fu_conflictsReachable :: nat
  fu_testOrGateReachable :: bool
  fu_exactSeedReachable :: bool

definition fusion_start :: "plan_context \<Rightarrow> candidate_table \<Rightarrow> fusion_run" where
  "fusion_start px t =
     (let config = px_config px; kernelConfig = px_kernelConfig px
      in \<lparr>fu_pool = new_top_k (min (ct_size t) (max 1 (px_maxSelected px) * 4)),
          fu_protected = new_reserve (rc_protectedGateReserveSlots config),
          fu_conflicts = new_reserve (rc_protectedGateReserveSlots config),
          fu_exactSeeds = new_reserve (kc_exactSeedReserveSlots kernelConfig),
          fu_testOrGates = new_reserve (rc_testOrGateReserveSlots config),
          fu_leaders = (\<lambda>_. new_reserve 1), fu_fused = replicate (ct_size t) 0,
          fu_stale = 0, fu_invalidated = 0, fu_ungroundable = 0, fu_focus = 0,
          fu_protectedReachable = 0, fu_conflictsReachable = 0,
          fu_testOrGateReachable = False, fu_exactSeedReachable = False\<rparr>)"

definition offer_if :: "bool \<Rightarrow> ranked_entry \<Rightarrow> reserve \<Rightarrow> reserve" where
  "offer_if b e r = (if b then reserve_offer r e else r)"

definition fuse_admissible ::
  "index_reader \<Rightarrow> plan_context \<Rightarrow> candidate_table \<Rightarrow> nat \<Rightarrow> fusion_run \<Rightarrow> fusion_run" where
  "fuse_admissible reader px t slot fu =
     (let score = fused_score reader px t slot;
          e = \<lparr>en_slot = slot, en_score = score, en_node = c_node (row t slot)\<rparr>
      in fu\<lparr>fu_protectedReachable := fu_protectedReachable fu + (if has t slot PROTECTED then 1 else 0),
            fu_conflictsReachable := fu_conflictsReachable fu + (if has t slot CONFLICT then 1 else 0),
            fu_testOrGateReachable := fu_testOrGateReachable fu \<or> has t slot TEST_OR_GATE,
            fu_exactSeedReachable := fu_exactSeedReachable fu \<or> has t slot EXACT_SEED,
            fu_fused := (fu_fused fu)[slot := to_int32 score],
            fu_pool := top_k_offer (fu_pool fu) e,
            fu_protected := offer_if (has t slot PROTECTED) e (fu_protected fu),
            fu_conflicts := offer_if (has t slot CONFLICT) e (fu_conflicts fu),
            fu_exactSeeds := offer_if (has t slot EXACT_SEED) e (fu_exactSeeds fu),
            fu_testOrGates := offer_if (has t slot TEST_OR_GATE) e (fu_testOrGates fu),
            fu_leaders := (\<lambda>l. offer_if (0 \<le> rankIn t slot l) e (fu_leaders fu l))\<rparr>)"

definition fuse_slot ::
  "index_reader \<Rightarrow> plan_context \<Rightarrow> candidate_table \<Rightarrow> nat \<Rightarrow> fusion_run \<Rightarrow> fusion_run" where
  "fuse_slot reader px t slot fu =
     (case exclusion_of reader px t slot of
        Some X_invalidated \<Rightarrow> fu\<lparr>fu_invalidated := fu_invalidated fu + 1\<rparr>
      | Some X_stale \<Rightarrow> fu\<lparr>fu_stale := fu_stale fu + 1\<rparr>
      | Some X_ungroundable \<Rightarrow> fu\<lparr>fu_ungroundable := fu_ungroundable fu + 1\<rparr>
      | Some X_focus \<Rightarrow> fu\<lparr>fu_focus := fu_focus fu + 1\<rparr>
      | None \<Rightarrow> fuse_admissible reader px t slot fu)"

definition fusion_run_of :: "index_reader \<Rightarrow> plan_context \<Rightarrow> candidate_table \<Rightarrow> fusion_run" where
  "fusion_run_of reader px t = fold (fuse_slot reader px t) [0..<ct_size t] (fusion_start px t)"

record fusion_result =
  fz_order :: "nat list"
  fz_protectedGates :: "nat list"
  fz_conflicts :: "nat list"
  fz_exactSeeds :: "nat list"
  fz_testOrGates :: "nat list"
  fz_laneLeaders :: "lane \<Rightarrow> int"
  fz_fused :: "int list"
  fz_staleExcluded :: nat
  fz_invalidatedExcluded :: nat
  fz_ungroundableExcluded :: nat
  fz_focusExcluded :: nat
  fz_protectedReachable :: nat
  fz_conflictsReachable :: nat
  fz_testOrGateReachable :: bool
  fz_exactSeedReachable :: bool

definition slots_of :: "reserve \<Rightarrow> nat list" where
  "slots_of r = map en_slot (rs_held r)"

definition fusion_result_of :: "fusion_run \<Rightarrow> fusion_result" where
  "fusion_result_of fu =
     \<lparr>fz_order = map en_slot (drain (fu_pool fu)),
      fz_protectedGates = slots_of (fu_protected fu), fz_conflicts = slots_of (fu_conflicts fu),
      fz_exactSeeds = slots_of (fu_exactSeeds fu), fz_testOrGates = slots_of (fu_testOrGates fu),
      fz_laneLeaders = (\<lambda>l. case slots_of (fu_leaders fu l) of [] \<Rightarrow> - 1 | s # _ \<Rightarrow> int s),
      fz_fused = fu_fused fu, fz_staleExcluded = fu_stale fu,
      fz_invalidatedExcluded = fu_invalidated fu, fz_ungroundableExcluded = fu_ungroundable fu,
      fz_focusExcluded = fu_focus fu, fz_protectedReachable = fu_protectedReachable fu,
      fz_conflictsReachable = fu_conflictsReachable fu,
      fz_testOrGateReachable = fu_testOrGateReachable fu,
      fz_exactSeedReachable = fu_exactSeedReachable fu\<rparr>"

definition fuseKernelCandidates ::
  "index_reader \<Rightarrow> plan_context \<Rightarrow> kernel_state \<Rightarrow> kernel_state \<times> fusion_result" where
  "fuseKernelCandidates reader px s =
     (let fu = fusion_run_of reader px (ks_table s);
          s1 = omit O_focus_filtered (int (fu_focus fu))
                 (omit O_no_provenance (int (fu_ungroundable fu))
                   (omit O_invalidated_proof (int (fu_invalidated fu))
                     (omit O_stale_node (int (fu_stale fu)) s)));
          s2 = (if 0 < fu_focus fu then warn (W_outside_focus (fu_focus fu)) s1 else s1)
      in (s2, fusion_result_of fu))"

subsection \<open>The collectors hold the best of the admissible slots\<close>

definition entry_of :: "index_reader \<Rightarrow> plan_context \<Rightarrow> candidate_table \<Rightarrow> nat \<Rightarrow> ranked_entry" where
  "entry_of reader px t slot =
     \<lparr>en_slot = slot, en_score = fused_score reader px t slot, en_node = c_node (row t slot)\<rparr>"

definition entries :: "index_reader \<Rightarrow> plan_context \<Rightarrow> candidate_table \<Rightarrow> (nat \<Rightarrow> bool) \<Rightarrow> ranked_entry list" where
  "entries reader px t P = map (entry_of reader px t) (filter P (admissible reader px t))"

lemma en_slot_entry [simp]: "en_slot (entry_of reader px t s) = s"
  by (simp add: entry_of_def)

lemma fold_offer_if:
  "fold (\<lambda>slot. offer_if (P slot) (f slot)) slots r = fold (\<lambda>e r. reserve_offer r e) (map f (filter P slots)) r"
  by (induction slots arbitrary: r) (simp_all add: offer_if_def)

lemma fusion_fold:
  fixes reader px t
  defines "run \<equiv> \<lambda>slots fu. fold (fuse_slot reader px t) slots fu"
    and "adm \<equiv> \<lambda>slots. filter (\<lambda>slot. exclusion_of reader px t slot = None) slots"
    and "e \<equiv> entry_of reader px t"
  shows "fu_pool (run slots fu) = fold (\<lambda>e r. top_k_offer r e) (map e (adm slots)) (fu_pool fu)"
    and "fu_protected (run slots fu) = fold (\<lambda>slot. offer_if (has t slot PROTECTED) (e slot)) (adm slots) (fu_protected fu)"
    and "fu_conflicts (run slots fu) = fold (\<lambda>slot. offer_if (has t slot CONFLICT) (e slot)) (adm slots) (fu_conflicts fu)"
    and "fu_exactSeeds (run slots fu) = fold (\<lambda>slot. offer_if (has t slot EXACT_SEED) (e slot)) (adm slots) (fu_exactSeeds fu)"
    and "fu_testOrGates (run slots fu) = fold (\<lambda>slot. offer_if (has t slot TEST_OR_GATE) (e slot)) (adm slots) (fu_testOrGates fu)"
    and "fu_leaders (run slots fu) l = fold (\<lambda>slot. offer_if (0 \<le> rankIn t slot l) (e slot)) (adm slots) (fu_leaders fu l)"
    and "fu_protectedReachable (run slots fu) = fu_protectedReachable fu + length (filter (\<lambda>s. has t s PROTECTED) (adm slots))"
    and "fu_conflictsReachable (run slots fu) = fu_conflictsReachable fu + length (filter (\<lambda>s. has t s CONFLICT) (adm slots))"
    and "fu_testOrGateReachable (run slots fu) \<longleftrightarrow> fu_testOrGateReachable fu \<or> (\<exists>s \<in> set (adm slots). has t s TEST_OR_GATE)"
    and "fu_exactSeedReachable (run slots fu) \<longleftrightarrow> fu_exactSeedReachable fu \<or> (\<exists>s \<in> set (adm slots). has t s EXACT_SEED)"
    and "fu_fused (run slots fu) = fold (\<lambda>slot c. c[slot := to_int32 (fused_score reader px t slot)]) (adm slots) (fu_fused fu)"
  unfolding run_def adm_def e_def
  by (induction slots arbitrary: fu)
    (auto simp: fuse_slot_def fuse_admissible_def Let_def entry_of_def offer_if_def split: option.splits exclusion.splits)

lemma admissible_set: "set (admissible reader px t) = {s. s < ct_size t \<and> exclusion_of reader px t s = None}"
  by (auto simp: admissible_def)

lemma admissible_distinct: "distinct (admissible reader px t)"
  by (simp add: admissible_def)

lemma node_inj: "table_inv reader t \<Longrightarrow> inj_on (\<lambda>s. c_node (row t s)) {s. s < ct_size t}"
  by (auto simp: inj_on_def table_inv_def) (metis option.inject)

lemma entries_ranked:
  assumes "table_inv reader t"
  shows "inj_on entry_rank (set (entries reader px t P))" "distinct (entries reader px t P)"
proof -
  show "inj_on entry_rank (set (entries reader px t P))"
    using node_inj [OF assms]
    by (auto simp: inj_on_def entries_def entry_rank_def entry_of_def admissible_set)
  show "distinct (entries reader px t P)"
    by (auto simp: entries_def distinct_map admissible_distinct inj_on_def entry_of_def)
qed

text \<open>The best \<open>k\<close> admissible slots with a property, best first.\<close>

definition best_slots ::
  "index_reader \<Rightarrow> plan_context \<Rightarrow> candidate_table \<Rightarrow> nat \<Rightarrow> (nat \<Rightarrow> bool) \<Rightarrow> nat list" where
  "best_slots reader px t k P = map en_slot (take k (sort_key entry_rank (entries reader px t P)))"

lemma best_slots_reserve:
  "table_inv reader t \<Longrightarrow>
   slots_of (fold (\<lambda>e r. reserve_offer r e) (entries reader px t P) (new_reserve k)) = best_slots reader px t k P"
  using reserve_collector.kept_collect [OF entries_ranked]
  by (simp add: best_slots_def slots_of_def reserve_collector.collect_def)

lemma best_slots_pool:
  "table_inv reader t \<Longrightarrow>
   map en_slot (drain (fold (\<lambda>e r. top_k_offer r e) (entries reader px t P) (new_top_k k))) = best_slots reader px t k P"
  using top_k_collector.kept_collect [OF entries_ranked]
  by (simp add: best_slots_def top_k_collector.collect_def)

lemma entries_all: "entries reader px t (\<lambda>_. True) = map (entry_of reader px t) (admissible reader px t)"
  by (simp add: entries_def)

lemma fusion_result_facts:
  fixes reader px t
  assumes "table_inv reader t"
  defines "z \<equiv> fusion_result_of (fusion_run_of reader px t)"
  shows "fz_order z = best_slots reader px t (min (ct_size t) (max 1 (px_maxSelected px) * 4)) (\<lambda>_. True)"
    and "fz_protectedGates z =
      best_slots reader px t (rc_protectedGateReserveSlots (px_config px)) (\<lambda>s. has t s PROTECTED)"
    and "fz_conflicts z =
      best_slots reader px t (rc_protectedGateReserveSlots (px_config px)) (\<lambda>s. has t s CONFLICT)"
    and "fz_exactSeeds z =
      best_slots reader px t (kc_exactSeedReserveSlots (px_kernelConfig px)) (\<lambda>s. has t s EXACT_SEED)"
    and "fz_testOrGates z =
      best_slots reader px t (rc_testOrGateReserveSlots (px_config px)) (\<lambda>s. has t s TEST_OR_GATE)"
    and "fz_laneLeaders z l =
      (case best_slots reader px t 1 (\<lambda>s. 0 \<le> rankIn t s l) of [] \<Rightarrow> - 1 | s # _ \<Rightarrow> int s)"
    and "fz_protectedReachable z = length (filter (\<lambda>s. has t s PROTECTED) (admissible reader px t))"
    and "fz_conflictsReachable z = length (filter (\<lambda>s. has t s CONFLICT) (admissible reader px t))"
    and "fz_testOrGateReachable z \<longleftrightarrow> (\<exists>s \<in> set (admissible reader px t). has t s TEST_OR_GATE)"
    and "fz_exactSeedReachable z \<longleftrightarrow> (\<exists>s \<in> set (admissible reader px t). has t s EXACT_SEED)"
  unfolding z_def fusion_result_of_def fusion_run_of_def fusion_fold fold_offer_if
  by (simp_all add: fusion_start_def Let_def best_slots_reserve [OF assms(1)] best_slots_pool [OF assms(1)]
      flip: admissible_def entries_def entries_all)

lemma best_slots_subset: "set (best_slots reader px t k P) \<subseteq> {s. s \<in> set (admissible reader px t) \<and> P s}"
proof -
  have "set (take k (sort_key entry_rank (entries reader px t P))) \<subseteq> set (entries reader px t P)"
    using set_take_subset [of k] by fastforce
  then show ?thesis by (auto simp: best_slots_def entries_def)
qed

lemma best_slots_distinct:
  assumes "table_inv reader t"
  shows "distinct (best_slots reader px t k P)"
proof -
  have "inj_on en_slot (set (entries reader px t P))" by (auto simp: inj_on_def entries_def)
  moreover have "set (take k (sort_key entry_rank (entries reader px t P))) \<subseteq> set (entries reader px t P)"
    using set_take_subset [of k] by fastforce
  ultimately show ?thesis
    using entries_ranked(2) [OF assms]
    by (auto simp: best_slots_def distinct_map intro: inj_on_subset)
qed

lemma best_slots_all:
  assumes "length (filter P (admissible reader px t)) \<le> k"
  shows "set (best_slots reader px t k P) = {s. s \<in> set (admissible reader px t) \<and> P s}"
proof -
  have "take k (sort_key entry_rank (entries reader px t P)) = sort_key entry_rank (entries reader px t P)"
    using assms by (simp add: entries_def)
  then show ?thesis by (auto simp: best_slots_def entries_def image_image)
qed

lemma length_best_slots: "length (best_slots reader px t k P) = min k (length (filter P (admissible reader px t)))"
  by (simp add: best_slots_def entries_def min.commute)

text \<open>A slot left out of a reserve or of the pool is outranked by every slot in it.\<close>

lemma best_slots_outrank:
  assumes "table_inv reader t" "a \<in> set (best_slots reader px t k P)"
    "b \<in> set (admissible reader px t)" "P b" "b \<notin> set (best_slots reader px t k P)"
  shows "fused_score reader px t b \<le> fused_score reader px t a"
proof -
  let ?es = "entries reader px t P"
  let ?kept = "take k (sort_key entry_rank ?es)"
  note kept = top_k_collector.kept_collect [OF entries_ranked [OF assms(1), of px P], of k]
  obtain ea where ea: "ea \<in> set ?kept" "a = en_slot ea" using assms(2) by (auto simp: best_slots_def)
  have b: "entry_of reader px t b \<in> set ?es" using assms(3,4) by (auto simp: entries_def)
  have nb: "entry_of reader px t b \<notin> set ?kept"
    using assms(5) by (auto simp: best_slots_def image_iff)
  have "entry_rank ea \<le> entry_rank (entry_of reader px t b)"
    by (rule top_k_collector.kept_outranks [OF entries_ranked [OF assms(1), of px P], where k = k])
      (use ea b nb kept in simp_all)
  moreover have "ea = entry_of reader px t a"
    using ea set_take_subset [of k "sort_key entry_rank ?es"] by (auto simp: entries_def)
  ultimately show ?thesis by (auto simp: entry_rank_def entry_of_def less_eq_prod_def)
qed

lemma fuse_grows: "ker.grows reader s (fst (fuseKernelCandidates reader px s))"
  by (simp add: fuseKernelCandidates_def Let_def grows_omit grows_warn)

lemma fuse_table [simp]: "ks_table (fst (fuseKernelCandidates reader px s)) = ks_table s"
  by (simp add: fuseKernelCandidates_def Let_def omit_def warn_def)

lemma fuse_result [simp]:
  "snd (fuseKernelCandidates reader px s) = fusion_result_of (fusion_run_of reader px (ks_table s))"
  by (simp add: fuseKernelCandidates_def Let_def)

text \<open>The score column of an admissible slot holds its score.\<close>

lemma fold_update_other:
  "s \<notin> set slots \<Longrightarrow> fold (\<lambda>slot c. c[slot := f slot]) slots c ! s = c ! s"
  by (induction slots arbitrary: c) simp_all

lemma length_fold_update [simp]: "length (fold (\<lambda>slot c. c[slot := f slot]) slots c) = length c"
  by (induction slots arbitrary: c) simp_all

lemma fold_update_at:
  "s \<in> set slots \<Longrightarrow> s < length c \<Longrightarrow> distinct slots \<Longrightarrow>
   fold (\<lambda>slot c. c[slot := f slot]) slots c ! s = f s"
  by (induction slots arbitrary: c) (auto simp: fold_update_other)

lemma fused_at:
  assumes "s \<in> set (admissible reader px t)"
  shows "fz_fused (fusion_result_of (fusion_run_of reader px t)) ! s = to_int32 (fused_score reader px t s)"
  using assms admissible_distinct [of reader px t]
  by (simp add: fusion_result_of_def fusion_run_of_def fusion_fold fold_update_at fusion_start_def Let_def
      admissible_set flip: admissible_def)

end
