(* ===== verification/Kernel_Select.thy ===== *)
theory Kernel_Select
  imports Kernel_Fuse
begin

text \<open>
  The bounded selector, \<open>query/kernel-select.ts\<close>: the reserves take the budget in a fixed order,
  then the fill walks the pool best first under the group share cap, then the chosen set is
  sorted once.
\<close>

subsection \<open>The selector\<close>

record selector =
  sl_chosen :: "nat list"
  sl_taken :: "nat set"
  sl_perGroup :: "int \<Rightarrow> nat"
  sl_spent :: int
  sl_omissions :: kernel_omissions

definition new_selector :: "kernel_omissions \<Rightarrow> selector" where
  "new_selector om =
     \<lparr>sl_chosen = [], sl_taken = {}, sl_perGroup = (\<lambda>_. 0), sl_spent = 0, sl_omissions = om\<rparr>"

definition costOf :: "plan_context \<Rightarrow> candidate_table \<Rightarrow> nat \<Rightarrow> int" where
  "costOf px t slot = max (rc_minTokenCost (px_config px)) (c_tokenCost (row t slot))"

definition groupCount :: "candidate_table \<Rightarrow> nat \<Rightarrow> selector \<Rightarrow> nat" where
  "groupCount t slot sel = sl_perGroup sel (c_group (row t slot))"

definition select_omit :: "omission_reason \<Rightarrow> selector \<Rightarrow> selector" where
  "select_omit reason sel = sel\<lparr>sl_omissions := addOmission (sl_omissions sel) reason 1\<rparr>"

definition take_slot :: "plan_context \<Rightarrow> candidate_table \<Rightarrow> nat \<Rightarrow> selector \<Rightarrow> selector" where
  "take_slot px t slot sel =
     (if slot \<in> sl_taken sel then sel
      else if px_maxSelected px \<le> length (sl_chosen sel) then select_omit O_max_selected sel
      else
        let cost = costOf px t slot
        in if pl_tokenBudget (px_plan px) < sl_spent sel + cost then select_omit O_token_budget sel
           else sel\<lparr>sl_taken := insert slot (sl_taken sel), sl_chosen := sl_chosen sel @ [slot],
                    sl_spent := sl_spent sel + cost,
                    sl_perGroup := (sl_perGroup sel)(c_group (row t slot) := groupCount t slot sel + 1)\<rparr>)"

definition group_allowance :: "plan_context \<Rightarrow> int" where
  "group_allowance px =
     max (int (rc_minGroupSlots (px_config px)))
         \<lceil>fl (of_nat (px_maxSelected px) * rc_moduleShareCap (px_config px))\<rceil>"

definition fill_slot :: "plan_context \<Rightarrow> candidate_table \<Rightarrow> bool \<Rightarrow> nat \<Rightarrow> selector \<Rightarrow> selector" where
  "fill_slot px t diversityApplies slot sel =
     (if slot \<in> sl_taken sel then sel
      else if diversityApplies \<and>
              (group_allowance px \<le> int (groupCount t slot sel) \<or>
               rc_maxRedundancyGroupMembers (px_config px) \<le> groupCount t slot sel)
      then select_omit O_redundant_sibling sel
      else take_slot px t slot sel)"

definition safety_profile :: "plan_context \<Rightarrow> bool" where
  "safety_profile px \<longleftrightarrow> px_highRisk px \<or> pl_profile (px_plan px) = P_review"

definition reserve_order :: "plan_context \<Rightarrow> fusion_result \<Rightarrow> nat list" where
  "reserve_order px z =
     (if safety_profile px then fz_protectedGates z @ fz_conflicts z else []) @
     fz_exactSeeds z @
     (if pl_profile (px_plan px) = P_implementation then fz_testOrGates z else []) @
     map (\<lambda>l. nat (fz_laneLeaders z l)) (filter (\<lambda>l. 0 \<le> fz_laneLeaders z l) RETRIEVAL_LANES)"

definition diversity_applies :: "candidate_table \<Rightarrow> fusion_result \<Rightarrow> bool" where
  "diversity_applies t z \<longleftrightarrow> 1 < card ((\<lambda>s. c_group (row t s)) ` set (fz_order z))"

definition run_selector ::
  "plan_context \<Rightarrow> candidate_table \<Rightarrow> fusion_result \<Rightarrow> kernel_omissions \<Rightarrow> selector" where
  "run_selector px t z om =
     fold (fill_slot px t (diversity_applies t z)) (fz_order z)
       (fold (take_slot px t) (reserve_order px z) (new_selector om))"

subsection \<open>The answer\<close>

record compact_candidate =
  cc_node :: int
  cc_score :: int
  cc_seed :: int
  cc_parentNode :: int
  cc_parentEdge :: int
  cc_depth :: nat
  cc_flags :: "32 word"

record lane_contribution =
  lb_lane :: lane
  lb_rank :: int
  lb_score :: int
  lb_termIds :: "int list"

record selected_candidate =
  sc_candidate :: compact_candidate
  sc_lane :: lane
  sc_confidence :: seed_confidence
  sc_contributions :: "lane_contribution list"
  sc_tokenCost :: int
  sc_group :: int
  sc_parentEdges :: "int list"

record kernel_guarantees =
  kg_exactSeedAvailable :: bool
  kg_exactSeedSelected :: bool
  kg_protectedGatesReachable :: nat
  kg_protectedGatesSelected :: nat
  kg_conflictsReachable :: nat
  kg_conflictsSelected :: nat
  kg_testOrGateReachable :: bool
  kg_testOrGateSelected :: bool

record selection_result =
  sr_selected :: "selected_candidate list"
  sr_tokenCost :: int
  sr_truncated :: bool
  sr_guarantees :: kernel_guarantees

definition contributionsFor :: "plan_context \<Rightarrow> candidate_table \<Rightarrow> nat \<Rightarrow> lane_contribution list" where
  "contributionsFor px t slot =
     map (\<lambda>l. \<lparr>lb_lane = l, lb_rank = rankIn t slot l, lb_score = scoreIn t slot l,
               lb_termIds =
                 (if l = L_anchor then
                    (if 0 \<le> c_anchorTerm (row t slot) then [c_anchorTerm (row t slot)] else [])
                  else if l = L_local_graph then [] else pl_termIds (px_plan px))\<rparr>)
       (filter (\<lambda>l. 0 \<le> rankIn t slot l) RETRIEVAL_LANES)"

definition present :: "plan_context \<Rightarrow> candidate_table \<Rightarrow> fusion_result \<Rightarrow> nat \<Rightarrow> selected_candidate" where
  "present px t z slot =
     (let r = row t slot
      in \<lparr>sc_candidate =
            \<lparr>cc_node = c_node r, cc_score = fz_fused z ! slot, cc_seed = c_seed r,
             cc_parentNode = c_parentNode r, cc_parentEdge = c_parentEdge r, cc_depth = c_depth r,
             cc_flags = c_flags r\<rparr>,
          sc_lane = laneOf t slot, sc_confidence = confidenceOf t slot,
          sc_contributions = contributionsFor px t slot, sc_tokenCost = costOf px t slot,
          sc_group = c_group r, sc_parentEdges = parentChain t slot (pl_maxDepth (px_plan px))\<rparr>)"

definition presentation_rank :: "selected_candidate \<Rightarrow> int \<times> int" where
  "presentation_rank s = (- cc_score (sc_candidate s), cc_node (sc_candidate s))"

definition guarantees_of :: "candidate_table \<Rightarrow> fusion_result \<Rightarrow> nat list \<Rightarrow> kernel_guarantees" where
  "guarantees_of t z chosen =
     \<lparr>kg_exactSeedAvailable = fz_exactSeedReachable z,
      kg_exactSeedSelected = list_ex (\<lambda>s. has t s EXACT_SEED) chosen,
      kg_protectedGatesReachable = fz_protectedReachable z,
      kg_protectedGatesSelected = length (filter (\<lambda>s. s \<in> set chosen) (fz_protectedGates z)),
      kg_conflictsReachable = fz_conflictsReachable z,
      kg_conflictsSelected = length (filter (\<lambda>s. s \<in> set chosen) (fz_conflicts z)),
      kg_testOrGateReachable = fz_testOrGateReachable z,
      kg_testOrGateSelected = list_ex (\<lambda>s. has t s TEST_OR_GATE) chosen\<rparr>"

definition warn_if :: "bool \<Rightarrow> kernel_warning \<Rightarrow> kernel_state \<Rightarrow> kernel_state" where
  "warn_if b w s = (if b then warn w s else s)"

definition guarantee_warnings :: "plan_context \<Rightarrow> kernel_guarantees \<Rightarrow> kernel_state \<Rightarrow> kernel_state" where
  "guarantee_warnings px g s =
     warn_if (pl_profile (px_plan px) = P_implementation \<and> kg_testOrGateReachable g \<and> \<not> kg_testOrGateSelected g)
       W_test_or_gate_unfit
       (warn_if (safety_profile px \<and> kg_conflictsSelected g < kg_conflictsReachable g) W_conflict_unfit
         (warn_if (safety_profile px \<and> kg_protectedGatesSelected g < kg_protectedGatesReachable g) W_protected_unfit
           (warn_if (kg_exactSeedAvailable g \<and> \<not> kg_exactSeedSelected g) W_exact_seed_unfit s)))"

definition selectKernelCandidates ::
  "plan_context \<Rightarrow> fusion_result \<Rightarrow> kernel_state \<Rightarrow> kernel_state \<times> selection_result" where
  "selectKernelCandidates px z s =
     (let t = ks_table s;
          sel = run_selector px t z (ks_omissions s);
          g = guarantees_of t z (sl_chosen sel);
          s1 = guarantee_warnings px g (s\<lparr>ks_omissions := sl_omissions sel\<rparr>);
          selected = sort_key presentation_rank (map (present px t z) (sl_chosen sel));
          truncated = (0 < omission_count (ks_omissions s1) O_token_budget \<or>
                       0 < omission_count (ks_omissions s1) O_max_selected)
      in (s1, \<lparr>sr_selected = selected, sr_tokenCost = sl_spent sel, sr_truncated = truncated,
               sr_guarantees = g\<rparr>))"

subsection \<open>The selector's invariant\<close>

definition selector_inv :: "plan_context \<Rightarrow> candidate_table \<Rightarrow> selector \<Rightarrow> bool" where
  "selector_inv px t sel \<longleftrightarrow>
     distinct (sl_chosen sel) \<and> sl_taken sel = set (sl_chosen sel) \<and>
     length (sl_chosen sel) \<le> px_maxSelected px \<and>
     sl_spent sel = sum_list (map (costOf px t) (sl_chosen sel)) \<and>
     sl_spent sel \<le> pl_tokenBudget (px_plan px) \<and>
     (\<forall>g. sl_perGroup sel g = length (filter (\<lambda>s. c_group (row t s) = g) (sl_chosen sel)))"

definition selector_le :: "selector \<Rightarrow> selector \<Rightarrow> bool" where
  "selector_le sel sel' \<longleftrightarrow>
     (\<exists>more. sl_chosen sel' = sl_chosen sel @ more) \<and>
     (\<forall>r. omission_count (sl_omissions sel) r \<le> omission_count (sl_omissions sel') r)"

interpretation sel: invariant_order "selector_inv px t" selector_le for px t
  by unfold_locales (auto simp: selector_le_def intro: order_trans)

lemma new_selector_inv: "0 \<le> pl_tokenBudget (px_plan px) \<Longrightarrow> selector_inv px t (new_selector om)"
  by (simp add: selector_inv_def new_selector_def)

lemma select_omit_grows: "sel.grows px t s (select_omit r s)"
  by (rule sel.growsI) (simp_all add: selector_inv_def selector_le_def select_omit_def omission_count_add)

lemma take_slot_grows: "sel.grows px t s (take_slot px t slot s)"
proof -
  have "sel.grows px t s (s\<lparr>sl_taken := insert slot (sl_taken s), sl_chosen := sl_chosen s @ [slot],
                    sl_spent := sl_spent s + costOf px t slot,
                    sl_perGroup := (sl_perGroup s)(c_group (row t slot) := groupCount t slot s + 1)\<rparr>)"
    if "slot \<notin> sl_taken s" "length (sl_chosen s) < px_maxSelected px"
      "sl_spent s + costOf px t slot \<le> pl_tokenBudget (px_plan px)"
    using that by (intro sel.growsI) (auto simp: selector_inv_def selector_le_def groupCount_def)
  then show ?thesis by (simp add: take_slot_def Let_def select_omit_grows not_le not_less)
qed

lemma fill_slot_grows: "sel.grows px t s (fill_slot px t b slot s)"
  by (simp add: fill_slot_def select_omit_grows take_slot_grows)

lemma run_selector_inv:
  assumes "0 \<le> pl_tokenBudget (px_plan px)"
  shows "selector_inv px t (run_selector px t z om)"
    and "selector_le (fold (take_slot px t) (reserve_order px z) (new_selector om)) (run_selector px t z om)"
    and "selector_inv px t (fold (take_slot px t) (reserve_order px z) (new_selector om))"
proof -
  let ?r = "fold (take_slot px t) (reserve_order px z) (new_selector om)"
  have "sel.grows px t (new_selector om) ?r" by (intro sel.grows_fold take_slot_grows)
  then show r: "selector_inv px t ?r" using new_selector_inv [OF assms] by (simp add: sel.grows_def)
  have "sel.grows px t ?r (run_selector px t z om)"
    unfolding run_selector_def by (intro sel.grows_fold fill_slot_grows)
  then show "selector_inv px t (run_selector px t z om)" "selector_le ?r (run_selector px t z om)"
    using r by (simp_all add: sel.grows_def)
qed

text \<open>Nothing is chosen that no list offered.\<close>

lemma take_slot_chosen: "set (sl_chosen (take_slot px t slot s)) \<subseteq> insert slot (set (sl_chosen s))"
  by (auto simp: take_slot_def Let_def select_omit_def)

lemma fold_take_chosen: "set (sl_chosen (fold (take_slot px t) slots s)) \<subseteq> set slots \<union> set (sl_chosen s)"
proof (induction slots arbitrary: s)
  case (Cons k slots)
  then show ?case using take_slot_chosen [of px t k s] by fastforce
qed simp

lemma fold_fill_chosen: "set (sl_chosen (fold (fill_slot px t b) slots s)) \<subseteq> set slots \<union> set (sl_chosen s)"
proof (induction slots arbitrary: s)
  case (Cons k slots)
  have "set (sl_chosen (fill_slot px t b k s)) \<subseteq> insert k (set (sl_chosen s))"
    using take_slot_chosen [of px t k s] by (auto simp: fill_slot_def select_omit_def)
  then show ?case using Cons.IH [of "fill_slot px t b k s"] by fastforce
qed simp

lemma run_selector_chosen:
  "set (sl_chosen (run_selector px t z om)) \<subseteq> set (reserve_order px z) \<union> set (fz_order z)"
  using fold_fill_chosen fold_take_chosen unfolding run_selector_def
  by (fastforce simp: new_selector_def)

text \<open>
  The reserve that goes first is taken whole when it fits: while the running total stays
  within both bounds, no slot of the list is refused.
\<close>

lemma take_all_that_fit:
  assumes "selector_inv px t s" "distinct slots" "set slots \<inter> set (sl_chosen s) = {}"
    "length (sl_chosen s) + length slots \<le> px_maxSelected px"
    "sl_spent s + sum_list (map (costOf px t) slots) \<le> pl_tokenBudget (px_plan px)"
    "\<forall>k \<in> set slots. 0 \<le> costOf px t k"
  shows "sl_chosen (fold (take_slot px t) slots s) = sl_chosen s @ slots"
  using assms
proof (induction slots arbitrary: s)
  case (Cons k slots)
  have "0 \<le> sum_list (map (costOf px t) slots)" using Cons.prems(6) by (intro sum_list_nonneg) auto
  then have fits: "sl_spent s + costOf px t k \<le> pl_tokenBudget (px_plan px)" using Cons.prems(5) by simp
  define s' where "s' = take_slot px t k s"
  have s': "sl_chosen s' = sl_chosen s @ [k]" "sl_spent s' = sl_spent s + costOf px t k"
    using fits Cons.prems by (simp_all add: s'_def take_slot_def Let_def selector_inv_def)
  have "selector_inv px t s'" using take_slot_grows Cons.prems(1) by (simp add: s'_def sel.grows_def)
  then have "sl_chosen (fold (take_slot px t) slots s') = sl_chosen s' @ slots"
    by (rule Cons.IH) (use Cons.prems s' in auto)
  then show ?case by (simp add: s'_def [symmetric] s')
qed simp

lemma fold_take_prefix: "sel.grows px t s (fold (take_slot px t) slots s)"
  by (intro sel.grows_fold take_slot_grows)

lemma selector_le_chosen: "selector_le s s' \<Longrightarrow> set (sl_chosen s) \<subseteq> set (sl_chosen s')"
  by (auto simp: selector_le_def)

text \<open>A prefix of the reserve order that fits is selected whole.\<close>

lemma reserved_first:
  assumes "0 \<le> pl_tokenBudget (px_plan px)" "reserve_order px z = first @ rest" "distinct first"
    "length first \<le> px_maxSelected px" "sum_list (map (costOf px t) first) \<le> pl_tokenBudget (px_plan px)"
    "\<forall>k \<in> set first. 0 \<le> costOf px t k"
  shows "set first \<subseteq> set (sl_chosen (run_selector px t z om))"
proof -
  let ?a = "fold (take_slot px t) first (new_selector om)"
  have i: "selector_inv px t (new_selector om)" using assms(1) by (rule new_selector_inv)
  have a: "sl_chosen ?a = first"
    using take_all_that_fit [OF i assms(3)] assms by (simp add: new_selector_def)
  have ia: "selector_inv px t ?a" using fold_take_prefix i by (simp add: sel.grows_def)
  have "selector_le ?a (fold (take_slot px t) (reserve_order px z) (new_selector om))"
    using fold_take_prefix [of px t ?a rest] ia by (simp add: assms(2) sel.grows_def)
  then have "set first \<subseteq> set (sl_chosen (fold (take_slot px t) (reserve_order px z) (new_selector om)))"
    using selector_le_chosen [of ?a] a by metis
  then show ?thesis using selector_le_chosen [OF run_selector_inv(2) [OF assms(1)]] by blast
qed

lemma warn_if_table [simp]: "ks_table (warn_if b w s) = ks_table s"
  by (simp add: warn_if_def warn_def)

lemma select_table [simp]: "ks_table (fst (selectKernelCandidates px z s)) = ks_table s"
  by (simp add: selectKernelCandidates_def Let_def guarantee_warnings_def)

end
