(* ===== verification/Context_Kernel.thy ===== *)
theory Context_Kernel
  imports Kernel_Select
begin

text \<open>
  The composition, \<open>query/kernel.ts\<close>: plan, seeding lanes, name marks, safety closure, traversal,
  fusion, selection.  Each stage is named, so that a property can speak of the state
  between two of them.
\<close>

record kernel_options =
  ko_config :: ranking_config
  ko_kernelConfig :: kernel_config
  ko_clock :: kernel_clock
  ko_safetyClosure :: "bool option"

record kernel_result =
  kr_plan :: query_plan
  kr_selected :: "selected_candidate list"
  kr_lanes :: "lane_telemetry list"
  kr_omissions :: kernel_omissions
  kr_warnings :: "kernel_warning list"
  kr_candidateCount :: nat
  kr_visitedNodes :: nat
  kr_visitedEdges :: nat
  kr_tokenCost :: int
  kr_truncated :: bool
  kr_timedOut :: bool
  kr_guarantees :: kernel_guarantees
  kr_durationMs :: int

definition initial_state :: "plan_context \<Rightarrow> kernel_omissions \<Rightarrow> kernel_warning list \<Rightarrow> kernel_state" where
  "initial_state px om ws =
     \<lparr>ks_table = new_table (pl_candidateBudget (px_plan px)), ks_omissions = om, ks_warnings = ws,
      ks_ticks = 1\<rparr>"

definition no_closure :: safety_outcome where
  "no_closure = \<lparr>so_visitedNodes = 0, so_visitedEdges = 0, so_capHit = False, so_timedOut = False\<rparr>"

definition closure_wanted :: "kernel_options \<Rightarrow> plan_context \<Rightarrow> bool" where
  "closure_wanted options px \<longleftrightarrow>
     (case ko_safetyClosure options of Some b \<Rightarrow> b | None \<Rightarrow> True) \<or> safety_profile px"

definition closure_stage ::
  "index_reader \<Rightarrow> kernel_options \<Rightarrow> plan_context \<Rightarrow> kernel_state \<Rightarrow> kernel_state \<times> safety_outcome" where
  "closure_stage reader options px s =
     (if closure_wanted options px then runSafetyClosure reader px s else (s, no_closure))"

definition graph_telemetry :: "traversal_outcome \<Rightarrow> lane_telemetry" where
  "graph_telemetry o1 =
     \<lparr>lt_lane = L_local_graph, lt_matchedTerms = 0, lt_postingsExamined = to_visitedEdges o1,
      lt_candidates = to_visitedNodes o1,
      lt_truncated = to_nodeCapHit o1 \<or> to_edgeCapHit o1 \<or> to_frontierCapHit o1\<rparr>"

definition overflow_stage :: "nat \<Rightarrow> kernel_state \<Rightarrow> kernel_state" where
  "overflow_stage seedingOverflow s =
     omit O_candidate_budget (int (ct_overflow (ks_table s)) - int seedingOverflow) s"

definition runContextKernel ::
  "(string \<Rightarrow> normalized_query) \<Rightarrow> index_reader \<Rightarrow> kernel_request \<Rightarrow> kernel_options \<Rightarrow> kernel_result" where
  "runContextKernel tokenizer reader request options =
     (let (px, om, ws) = resolveQueryPlan tokenizer reader request (ko_config options)
                           (ko_kernelConfig options) (ko_clock options);
          (s1, lanes) = runSeedLanes reader px request (initial_state px om ws);
          s2 = on_table (\<lambda>t. fst (markNameAnchors reader px t)) s1;
          seedingOverflow = ct_overflow (ks_table s2);
          (s3, safety) = closure_stage reader options px s2;
          (s4, walk) = traverseKernelGraph reader px (\<not> so_capHit safety \<and> \<not> so_timedOut safety) s3;
          s5 = overflow_stage seedingOverflow s4;
          (s6, fusion) = fuseKernelCandidates reader px s5;
          (s7, selection) = selectKernelCandidates px fusion s6;
          timedOut = (to_timedOut walk \<or> so_timedOut safety)
      in \<lparr>kr_plan = px_plan px, kr_selected = sr_selected selection,
          kr_lanes = lanes @ [graph_telemetry walk], kr_omissions = ks_omissions s7,
          kr_warnings = ks_warnings s7, kr_candidateCount = ct_size (ks_table s7),
          kr_visitedNodes = to_visitedNodes walk + so_visitedNodes safety,
          kr_visitedEdges = to_visitedEdges walk + so_visitedEdges safety,
          kr_tokenCost = sr_tokenCost selection,
          kr_truncated = sr_truncated selection \<or> to_nodeCapHit walk \<or> to_edgeCapHit walk \<or>
            to_frontierCapHit walk \<or> timedOut \<or> 0 < ct_overflow (ks_table s7),
          kr_timedOut = timedOut, kr_guarantees = sr_guarantees selection,
          kr_durationMs = max 0 (px_clock px (ks_ticks s7) - px_startedAt px)\<rparr>)"

definition fixedKernelClock :: "int \<Rightarrow> kernel_clock" where
  "fixedKernelClock v = (\<lambda>_. v)"

subsection \<open>The stages\<close>

text \<open>A run of the kernel, with the state after each stage named.\<close>

record kernel_run =
  st_px :: plan_context
  st_seeded :: kernel_state
  st_named :: kernel_state
  st_safety :: safety_outcome
  st_closed :: kernel_state
  st_walk :: traversal_outcome
  st_walked :: kernel_state
  st_fusion :: fusion_result
  st_fused :: kernel_state
  st_selection :: selection_result

definition kernel_run_of ::
  "(string \<Rightarrow> normalized_query) \<Rightarrow> index_reader \<Rightarrow> kernel_request \<Rightarrow> kernel_options \<Rightarrow> kernel_run" where
  "kernel_run_of tokenizer reader request options =
     (let (px, om, ws) = resolveQueryPlan tokenizer reader request (ko_config options)
                           (ko_kernelConfig options) (ko_clock options);
          s1 = fst (runSeedLanes reader px request (initial_state px om ws));
          s2 = on_table (\<lambda>t. fst (markNameAnchors reader px t)) s1;
          (s3, safety) = closure_stage reader options px s2;
          (s4, walk) = traverseKernelGraph reader px (\<not> so_capHit safety \<and> \<not> so_timedOut safety) s3;
          s5 = overflow_stage (ct_overflow (ks_table s2)) s4;
          (s6, fusion) = fuseKernelCandidates reader px s5
      in \<lparr>st_px = px, st_seeded = s1, st_named = s2, st_safety = safety, st_closed = s3, st_walk = walk,
          st_walked = s5, st_fusion = fusion, st_fused = s6,
          st_selection = snd (selectKernelCandidates px fusion s6)\<rparr>)"

lemma run_result:
  fixes tokenizer reader request options
  defines "k \<equiv> kernel_run_of tokenizer reader request options"
    and "r \<equiv> runContextKernel tokenizer reader request options"
  shows "kr_selected r = sr_selected (st_selection k)"
    and "kr_plan r = px_plan (st_px k)"
    and "kr_tokenCost r = sr_tokenCost (st_selection k)"
    and "kr_guarantees r = sr_guarantees (st_selection k)"
    and "kr_visitedNodes r = to_visitedNodes (st_walk k) + so_visitedNodes (st_safety k)"
    and "kr_visitedEdges r = to_visitedEdges (st_walk k) + so_visitedEdges (st_safety k)"
    and "kr_timedOut r \<longleftrightarrow> to_timedOut (st_walk k) \<or> so_timedOut (st_safety k)"
    and "kr_candidateCount r = ct_size (ks_table (st_walked k))"
  unfolding k_def r_def runContextKernel_def kernel_run_of_def Let_def
  by (simp_all add: case_prod_beta overflow_stage_def omit_def)

lemma initial_state_inv: "kernel_inv reader (initial_state px om ws)"
  by (simp add: initial_state_def kernel_inv_def new_table_inv)

lemma closure_stage_grows: "ker.grows reader s (fst (closure_stage reader options px s))"
  by (simp add: closure_stage_def runSafetyClosure_grows)

lemma name_stage_grows: "ker.grows reader s (on_table (\<lambda>t. fst (markNameAnchors reader px t)) s)"
  by (rule on_table_grows) (rule markNameAnchors_grows)

lemma run_stages:
  fixes tokenizer reader request options
  defines "k \<equiv> kernel_run_of tokenizer reader request options"
  shows "kernel_inv reader (st_seeded k)" "kernel_inv reader (st_named k)" "kernel_inv reader (st_closed k)" "kernel_inv reader (st_walked k)"
    and "kernel_le (st_named k) (st_closed k)" "kernel_le (st_closed k) (st_walked k)"
    and "st_fusion k = fusion_result_of (fusion_run_of reader (st_px k) (ks_table (st_walked k)))"
    and "ks_table (st_fused k) = ks_table (st_walked k)"
    and "st_selection k = snd (selectKernelCandidates (st_px k) (st_fusion k) (st_fused k))"
    and "st_safety k = snd (closure_stage reader options (st_px k) (st_named k))"
    and "st_closed k = fst (closure_stage reader options (st_px k) (st_named k))"
    and "\<exists>om ws. resolveQueryPlan tokenizer reader request (ko_config options)
           (ko_kernelConfig options) (ko_clock options) = (st_px k, om, ws)"
    and "st_walk k = snd (traverseKernelGraph reader (st_px k)
           (\<not> so_capHit (st_safety k) \<and> \<not> so_timedOut (st_safety k)) (st_closed k))"
    and "ct_capacity (ks_table (st_walked k)) = nat (max 0 (kc_candidateBudget (ko_kernelConfig options)))"
proof -
  obtain px om ws where p: "resolveQueryPlan tokenizer reader request (ko_config options)
      (ko_kernelConfig options) (ko_clock options) = (px, om, ws)" by (metis prod_cases3)
  define s1 where "s1 = fst (runSeedLanes reader px request (initial_state px om ws))"
  define s2 where "s2 = on_table (\<lambda>t. fst (markNameAnchors reader px t)) s1"
  obtain s3 sf where c: "closure_stage reader options px s2 = (s3, sf)" by fastforce
  obtain s4 w where w: "traverseKernelGraph reader px (\<not> so_capHit sf \<and> \<not> so_timedOut sf) s3 = (s4, w)"
    by fastforce
  define s5 where "s5 = overflow_stage (ct_overflow (ks_table s2)) s4"
  obtain s6 z where z: "fuseKernelCandidates reader px s5 = (s6, z)" by fastforce
  have k: "st_px k = px" "st_seeded k = s1" "st_named k = s2" "st_safety k = sf" "st_closed k = s3"
    "st_walk k = w" "st_walked k = s5" "st_fusion k = z" "st_fused k = s6"
    "st_selection k = snd (selectKernelCandidates px z s6)"
    using p c w z by (simp_all add: k_def kernel_run_of_def Let_def case_prod_beta s1_def s2_def s5_def del: fuse_result)
  have g1: "ker.grows reader (initial_state px om ws) s1" unfolding s1_def by (rule runSeedLanes_grows)
  have g2: "ker.grows reader s1 s2" unfolding s2_def by (rule name_stage_grows)
  have g3: "ker.grows reader s2 s3" using closure_stage_grows [of reader s2 options px] c by simp
  have "ker.grows reader s3 s4"
    using traverseKernelGraph_grows [of reader s3 px "\<not> so_capHit sf \<and> \<not> so_timedOut sf"] w by simp
  then have g5: "ker.grows reader s3 s5" by (simp add: s5_def overflow_stage_def grows_omit)
  have i: "kernel_inv reader s1" "kernel_inv reader s2" "kernel_inv reader s3" "kernel_inv reader s5"
    using initial_state_inv g1 g2 g3 g5 by (auto simp: ker.grows_def)
  then show "kernel_inv reader (st_seeded k)" "kernel_inv reader (st_named k)" "kernel_inv reader (st_closed k)" "kernel_inv reader (st_walked k)"
    by (simp_all add: k)
  show "kernel_le (st_named k) (st_closed k)" "kernel_le (st_closed k) (st_walked k)"
    using g3 g5 i by (simp_all add: k ker.grows_def)
  have "ker.grows reader (initial_state px om ws) s5"
    by (rule ker.grows_trans [OF ker.grows_trans [OF ker.grows_trans [OF g1 g2] g3] g5])
  then have "kernel_le (initial_state px om ws) s5" using initial_state_inv by (simp add: ker.grows_def)
  then have "ct_capacity (ks_table s5) = ct_capacity (ks_table (initial_state px om ws))"
    by (simp add: kernel_le_def table_le_def)
  then show "ct_capacity (ks_table (st_walked k)) = nat (max 0 (kc_candidateBudget (ko_kernelConfig options)))"
    using plan_facts(15) [OF p] by (simp add: k initial_state_def new_table_def)
  show "st_fusion k = fusion_result_of (fusion_run_of reader (st_px k) (ks_table (st_walked k)))"
    "ks_table (st_fused k) = ks_table (st_walked k)"
    using fuse_result [of reader px s5] fuse_table [of reader px s5] by (simp_all add: k z)
  show "st_selection k = snd (selectKernelCandidates (st_px k) (st_fusion k) (st_fused k))"
    "st_safety k = snd (closure_stage reader options (st_px k) (st_named k))"
    "st_closed k = fst (closure_stage reader options (st_px k) (st_named k))"
    "st_walk k = snd (traverseKernelGraph reader (st_px k)
           (\<not> so_capHit (st_safety k) \<and> \<not> so_timedOut (st_safety k)) (st_closed k))"
    using c w by (simp_all add: k)
  show "\<exists>om ws. resolveQueryPlan tokenizer reader request (ko_config options)
           (ko_kernelConfig options) (ko_clock options) = (st_px k, om, ws)"
    using p by (auto simp: k)
qed

subsection \<open>The chosen slots of a run\<close>

definition chosen_slots :: "kernel_run \<Rightarrow> nat list" where
  "chosen_slots k =
     sl_chosen (run_selector (st_px k) (ks_table (st_fused k)) (st_fusion k) (ks_omissions (st_fused k)))"

lemma selection_of_run:
  fixes tokenizer reader request options
  defines "k \<equiv> kernel_run_of tokenizer reader request options"
    and "r \<equiv> runContextKernel tokenizer reader request options"
  shows "kr_selected r = sort_key presentation_rank
           (map (present (st_px k) (ks_table (st_walked k)) (st_fusion k)) (chosen_slots k))"
    and "kr_tokenCost r = sum_list (map (costOf (st_px k) (ks_table (st_walked k))) (chosen_slots k))"
    and "kr_tokenCost r \<le> pl_tokenBudget (px_plan (st_px k))"
    and "distinct (chosen_slots k)" "length (chosen_slots k) \<le> px_maxSelected (st_px k)"
    and "kr_guarantees r = guarantees_of (ks_table (st_walked k)) (st_fusion k) (chosen_slots k)"
proof -
  note s = run_stages [where tokenizer = tokenizer and reader = reader and request = request and options = options, folded k_def]
  obtain om ws where p: "resolveQueryPlan tokenizer reader request (ko_config options)
      (ko_kernelConfig options) (ko_clock options) = (st_px k, om, ws)" using s(12) by blast
  note i = run_selector_inv(1) [OF plan_facts(5) [OF p], of "ks_table (st_walked k)" "st_fusion k" "ks_omissions (st_fused k)"]
  show "kr_selected r = sort_key presentation_rank
           (map (present (st_px k) (ks_table (st_walked k)) (st_fusion k)) (chosen_slots k))"
    "kr_guarantees r = guarantees_of (ks_table (st_walked k)) (st_fusion k) (chosen_slots k)"
    unfolding r_def run_result [of tokenizer reader request options, folded k_def] s(9)
    by (simp_all add: selectKernelCandidates_def Let_def chosen_slots_def s(8))
  have t: "kr_tokenCost r = sl_spent (run_selector (st_px k) (ks_table (st_walked k)) (st_fusion k) (ks_omissions (st_fused k)))"
    unfolding r_def run_result [of tokenizer reader request options, folded k_def] s(9) by (simp add: selectKernelCandidates_def Let_def s(8))
  show "kr_tokenCost r = sum_list (map (costOf (st_px k) (ks_table (st_walked k))) (chosen_slots k))"
    "kr_tokenCost r \<le> pl_tokenBudget (px_plan (st_px k))"
    "distinct (chosen_slots k)" "length (chosen_slots k) \<le> px_maxSelected (st_px k)"
    using i by (simp_all add: t selector_inv_def chosen_slots_def s(8))
qed

lemma reserve_order_subset:
  assumes "table_inv reader t"
  shows "set (reserve_order px (fusion_result_of (fusion_run_of reader px t))) \<subseteq> set (admissible reader px t)"
proof -
  have l: "nat (fz_laneLeaders (fusion_result_of (fusion_run_of reader px t)) l) \<in> set (admissible reader px t)"
    if "0 \<le> fz_laneLeaders (fusion_result_of (fusion_run_of reader px t)) l" for l
    using that best_slots_subset [of reader px t 1 "\<lambda>s. 0 \<le> rankIn t s l"]
    by (auto simp: fusion_result_facts(6) [OF assms] split: list.splits)
  show ?thesis
    using best_slots_subset l
    by (fastforce simp: reserve_order_def fusion_result_facts [OF assms] split: if_splits)
qed

lemma chosen_admissible:
  fixes tokenizer reader request options
  defines "k \<equiv> kernel_run_of tokenizer reader request options"
  shows "set (chosen_slots k) \<subseteq> set (admissible reader (st_px k) (ks_table (st_walked k)))"
proof -
  note s = run_stages [where tokenizer = tokenizer and reader = reader and request = request and options = options, folded k_def]
  have t: "table_inv reader (ks_table (st_walked k))" using s(4) by (simp add: kernel_inv_def)
  have "set (fz_order (st_fusion k)) \<subseteq> set (admissible reader (st_px k) (ks_table (st_walked k)))"
    unfolding s(7) fusion_result_facts(1) [OF t] using best_slots_subset by blast
  moreover have "set (reserve_order (st_px k) (st_fusion k)) \<subseteq> set (admissible reader (st_px k) (ks_table (st_walked k)))"
    unfolding s(7) by (rule reserve_order_subset [OF t])
  ultimately show ?thesis
    using run_selector_chosen unfolding chosen_slots_def by (metis (no_types, lifting) Un_subset_iff subset_trans)
qed

end
