(* ===== verification/Kernel_Guarantees.thy ===== *)
theory Kernel_Guarantees
  imports Context_Kernel
begin

text \<open>
  The two guarantees the kernel's stages give together: the safety closure reaches every
  protected gate the safety relations connect to a seed, and on a safety query the selector
  takes the protected gates before anything else.  A small index with one seed and one
  protected gate shows that their hypotheses can hold.
\<close>

subsection \<open>A small index\<close>

definition sample_reader :: index_reader where
  "sample_reader =
     \<lparr>rd_termId = (\<lambda>_. - 1), rd_exact = (\<lambda>_ _. []), rd_basename = (\<lambda>_. []), rd_nodeHasName = (\<lambda>_ _. False),
      rd_lexical = (\<lambda>_ _. \<lparr>ss_postings = [], ss_matchedTerms = 0, ss_truncated = False\<rparr>),
      rd_coarse = (\<lambda>_ _. \<lparr>ss_postings = [], ss_matchedTerms = 0, ss_truncated = False\<rparr>),
      rd_outgoing = (\<lambda>n _. if n = 0 then [\<lparr>ev_edge = 0, ev_target = 1, ev_type = 11, ev_confidence = 0\<rparr>] else []),
      rd_incoming = (\<lambda>_ _. []),
      rd_nodeFlags = (\<lambda>n. if n = 1 then NODE_GROUNDABLE OR NODE_PROTECTED else NODE_GROUNDABLE),
      rd_nodeScoreFields = (\<lambda>_. \<lparr>sf_kind = 0, sf_freshness = 0, sf_risk = 0, sf_flags = 0, sf_trust = 0,
        sf_tokenCost = 40, sf_group = 0, sf_outDegree = 1, sf_inDegree = 1\<rparr>),
      rd_nodeTokenCost = (\<lambda>_. 40), rd_nodeGroup = (\<lambda>_. 0)\<rparr>"

definition flat_config :: ranking_config where
  "flat_config =
     \<lparr>rc_seedConfidenceScore = (\<lambda>_. 0), rc_exactSeedBonus = 0, rc_lexicalSeedBonus = 0, rc_nameSeedBonus = 0,
      rc_providedSeedScoreCeiling = 0, rc_edgeConfidenceMultiplier = (\<lambda>_. 0), rc_depthDecay = 0,
      rc_reverseEdgeMultiplier = 0, rc_trustBonus = 0, rc_freshnessBonus = (\<lambda>_. 0),
      rc_riskRelevanceBonus = (\<lambda>_. 0), rc_highRiskRelevanceMultiplier = 0, rc_evidenceCoverageBonus = 0,
      rc_evidenceCoverageCap = 0, rc_stalePenalty = 0, rc_invalidatedPenalty = 0, rc_redundancyPenalty = 0,
      rc_redundancyPenaltyCap = 0, rc_tokenCostPenaltyPerToken = 0, rc_tokenCostPenaltyCap = 0,
      rc_minExactSeeds = 3, rc_maxLexicalSeeds = 8, rc_lexicalScanBudget = 50000,
      rc_lexicalMinTokenLength = 4, rc_lexicalMatchScore = 0, rc_maxQueryTokens = 24, rc_maxSeedsPerToken = 6,
      rc_timeoutCheckInterval = 512, rc_moduleShareCap = 0, rc_minGroupSlots = 2,
      rc_maxRedundancyGroupMembers = 12, rc_protectedGateReserveSlots = 8, rc_testOrGateReserveSlots = 1,
      rc_maxProvenancePerNode = 6, rc_minTokenCost = 1\<rparr>"

definition flat_kernel_config :: kernel_config where
  "flat_kernel_config =
     \<lparr>kc_rrfK = 60, kc_rrfRankCap = 0, kc_laneTopN = 64, kc_laneWeights = (\<lambda>_ _. 0), kc_exactAnchorPriority = 0,
      kc_nameAnchorPriority = 0, kc_anchoredMaxTerms = 6, kc_naturalMinTerms = 3,
      kc_textShapePostingMultiplier = 2, kc_candidateBudget = 16, kc_frontierBudget = 16, kc_safetyMaxDepth = 3,
      kc_safetyMaxVisitedNodes = 4, kc_safetyMaxVisitedEdges = 100, kc_exactSeedReserveSlots = 1\<rparr>"

definition sample_plan :: plan_context where
  "sample_plan =
     \<lparr>px_plan = \<lparr>pl_profile = P_review, pl_shape = anchored, pl_termIds = [], pl_fieldMask = 0, pl_profileMask = 2,
        pl_maxDepth = 2, pl_frontierBudget = 8192, pl_postingCapPerTerm = 4096, pl_candidateBudget = 2048,
        pl_tokenBudget = 4000\<rparr>,
      px_config = flat_config, px_kernelConfig = flat_kernel_config,
      px_normalizedQuery = ''q'', px_terms = [], px_anchorTerms = [''q''], px_focusPaths = [], px_highRisk = False,
      px_maxSelected = 64, px_startedAt = 0, px_deadline = Some 400, px_clock = (\<lambda>_. 0), px_edgeWeights = [],
      px_edgeTypeMask = 0, px_safetyEdgeMask = edgeTypeMaskOf KERNEL_SAFETY_EDGE_TYPES,
      px_conflictEdgeMask = edgeTypeMaskOf KERNEL_CONFLICT_EDGE_TYPES, px_confidenceMultipliers = [],
      px_laneWeights = (\<lambda>_. 0), px_rrf = []\<rparr>"

definition sample_seeded :: kernel_state where
  "sample_seeded =
     (initial_state sample_plan Map.empty [])
       \<lparr>ks_table := mark 0 SEED (fst (admit sample_reader 0 (new_table 16)))\<rparr>"

lemma sample_seeded_inv: "kernel_inv sample_reader sample_seeded"
  using tbl.grows_trans [OF admit_grows mark_grows] new_table_inv
  by (auto simp: sample_seeded_def kernel_inv_def initial_state_def tbl.grows_def)



lemma safety_mask_code: "edgeTypeMaskOf KERNEL_SAFETY_EDGE_TYPES = 0x141E00"
  by code_simp
lemma conflict_mask_code: "edgeTypeMaskOf KERNEL_CONFLICT_EDGE_TYPES = 0x140000"
  by code_simp
lemma sample_masks: "mask_has 0x141E00 11" "\<not> mask_has 0x140000 11"
  by code_simp+
lemma sample_flags: "hasFlag SEED SEED" "\<not> hasFlag 0 SEED" "hasFlag (NODE_GROUNDABLE OR NODE_PROTECTED) NODE_PROTECTED"
    "\<not> hasFlag NODE_GROUNDABLE NODE_PROTECTED"  "\<not> hasFlag (NODE_GROUNDABLE OR NODE_PROTECTED) NODE_IS_TEST_OR_GATE"
 "\<not> hasFlag NODE_GROUNDABLE NODE_IS_TEST_OR_GATE"
  by code_simp+

definition sample_gate :: edge_view where
  "sample_gate = \<lparr>ev_edge = 0, ev_target = 1, ev_type = 11, ev_confidence = 0\<rparr>"

lemma sample_plan_fields:
  "px_deadline sample_plan = Some 400" "px_clock sample_plan = (\<lambda>_. 0)"
  "px_safetyEdgeMask sample_plan = 0x141E00" "px_conflictEdgeMask sample_plan = 0x140000"
  "pl_profileMask (px_plan sample_plan) = 2" "kc_safetyMaxDepth (px_kernelConfig sample_plan) = 3"
  "kc_safetyMaxVisitedEdges (px_kernelConfig sample_plan) = 100" "closure_max_nodes sample_plan = 4"
  "rc_timeoutCheckInterval (px_config sample_plan) = 512"
  "rc_minTokenCost (px_config sample_plan) = 1" "rc_protectedGateReserveSlots (px_config sample_plan) = 8"
  "px_maxSelected sample_plan = 64" "pl_tokenBudget (px_plan sample_plan) = 4000"
  "pl_profile (px_plan sample_plan) = P_review" "px_focusPaths sample_plan = []"
  by (simp_all add: sample_plan_def safety_mask_code conflict_mask_code closure_max_nodes_def flat_kernel_config_def flat_config_def)

lemma sample_reader_fields: "rd_outgoing sample_reader 0 m = [sample_gate]" "rd_outgoing sample_reader 1 m = []" "rd_incoming sample_reader n m = []"
  "rd_nodeFlags sample_reader 0 = NODE_GROUNDABLE" "rd_nodeFlags sample_reader 1 = NODE_GROUNDABLE OR NODE_PROTECTED"
  by (simp_all add: sample_reader_def sample_gate_def)

lemma node_admitted [simp]: "c_node (admitted_row r n) = n" by (simp add: admitted_row_def)

definition sample_table :: candidate_table where
  "sample_table = 
  \<lparr>ct_capacity = 16, ct_overflow = 0, ct_rows = [(admitted_row sample_reader 0)\<lparr>c_flags := SEED\<rparr>], ct_slots = [0 \<mapsto> 0]\<rparr>"

lemma sample_start: "ks_table sample_seeded = sample_table"
  by (simp add: sample_table_def sample_seeded_def mark_def admit_def new_table_def ct_size_def update_row_def row_def admitted_row_def fun_eq_iff)

lemma sample_rows: "ct_size sample_table = 1" "row sample_table 0 = (admitted_row sample_reader 0)\<lparr>c_flags := SEED\<rparr>"
   "has sample_table 0 SEED" "c_node (row sample_table 0) = 0" "ct_slots sample_table = [0 \<mapsto> 0]" "ct_capacity sample_table = 16"
  by (simp_all add: sample_table_def ct_size_def row_def has_def sample_flags admitted_row_def)

definition sample_closed :: candidate_table where
  "sample_closed = closure_link 0 sample_gate 0 1 (closure_mark sample_plan sample_gate 1 (fst (admit sample_reader 1 sample_table)))"

lemma sample_edge: "closure_edge sample_reader sample_plan 4 0 0 sample_gate
   \<lparr>cl_state = sample_seeded, cl_queue = [(0, 0)], cl_seen = {0}, cl_head = 1, cl_edges = 0, cl_capHit = False,
      cl_timedOut = False, cl_since = 0\<rparr> = 
   (\<lparr>cl_state = sample_seeded\<lparr>ks_table := sample_closed\<rparr>, cl_queue = [(0, 0), (1, 1)], cl_seen = {0, 1}, cl_head = 1, cl_edges = 1, cl_capHit = False,
      cl_timedOut = False, cl_since = 1\<rparr>, True)"
  by (simp add: closure_edge_def deadline_check_def sample_plan_fields sample_start sample_rows sample_closed_def admit_def enqueue_def sample_masks insert_commute sample_gate_def)

abbreviation "sample_opened \<equiv> \<lparr>cl_state = sample_seeded, cl_queue = [(0, 0)], cl_seen = {0}, cl_head = 0, cl_edges = 0, cl_capHit = False,
      cl_timedOut = False, cl_since = 0\<rparr>"
abbreviation "sample_walked \<equiv> \<lparr>cl_state = sample_seeded\<lparr>ks_table := sample_closed\<rparr>, cl_queue = [(0, 0), (1, 1)], cl_seen = {0, 1}, cl_head = 1, cl_edges = 1, cl_capHit = False,
      cl_timedOut = False, cl_since = 1\<rparr>"
lemma sample_visit_seed: "closure_visit sample_reader sample_plan 4 sample_opened = sample_walked"
  by (simp add: closure_visit_def sample_plan_fields sample_reader_fields sample_edge [simplified] Let_def)
lemma sample_visit_gate: "closure_visit sample_reader sample_plan 4 sample_walked = sample_walked\<lparr>cl_head := 2\<rparr>"
  by (simp add: closure_visit_def sample_plan_fields sample_reader_fields [simplified] Let_def)
lemma four_steps: "(4::nat) = Suc (Suc (Suc (Suc 0)))" by simp
lemma sample_queue: "closure_seeds 4 sample_table [0] (closure_start sample_seeded) = sample_opened"
  by (simp add: sample_rows sample_start enqueue_def closure_start_def)
lemma sample_loop: "closure_loop sample_reader sample_plan 4 4 sample_opened = sample_walked\<lparr>cl_head := 2\<rparr>"
  by (subst (2) four_steps) (simp add: closure_continues_def sample_visit_seed [simplified] sample_visit_gate [simplified])
lemma sample_run: "closure_run sample_reader sample_plan sample_seeded =
   \<lparr>cl_state = sample_seeded\<lparr>ks_table := sample_closed\<rparr>, cl_queue = [(0, 0), (1, 1)], cl_seen = {0, 1}, cl_head = 2, cl_edges = 1, cl_capHit = False,
      cl_timedOut = False, cl_since = 1\<rparr>"
  by (simp add: closure_run_def sample_plan_fields sample_start sample_rows(1) sample_queue [simplified] sample_loop [simplified])

lemma sample_uncapped: "\<not> so_capHit (snd (runSafetyClosure sample_reader sample_plan sample_seeded))"
  "\<not> so_timedOut (snd (runSafetyClosure sample_reader sample_plan sample_seeded))"
  by (simp_all add: runSafetyClosure_def sample_run)

subsection \<open>The guarantees\<close>

text \<open>C1: when the safety closure reports neither a cap nor the deadline, every node that some chain of
  safety relations of bounded depth connects to a seed has all its safety relations covered: the
  far end is a candidate, marked as safety, as conflict, as protected gate and as test or gate wherever
  the relation and the node flags ask for it.\<close>

theorem safety_closure_recall:
  assumes "kernel_inv reader s"
    and "\<not> so_capHit (snd (runSafetyClosure reader px s))"
    and "\<not> so_timedOut (snd (runSafetyClosure reader px s))"
    and "safety_reach reader px (ks_table s) node depth"
    and "depth < kc_safetyMaxDepth (px_kernelConfig px)"
    and "safety_hop reader px node e"
  shows "edge_covered px e (ks_table (fst (runSafetyClosure reader px s)))"
  using closure_reach_marked [OF assms(1) closure_outcome_clean [OF assms(2,3)] assms(4-6)] by simp

theorem safety_closure_recall_witness:
  "edge_covered sample_plan sample_gate
     (ks_table (fst (runSafetyClosure sample_reader sample_plan sample_seeded)))"
proof (rule safety_closure_recall [OF sample_seeded_inv sample_uncapped])
  show "safety_reach sample_reader sample_plan (ks_table sample_seeded) 0 0"
    using safety_reach.seed [of 0 "ks_table sample_seeded"] by (metis One_nat_def lessI sample_rows(1,3,4) sample_start)
qed (simp_all add: sample_plan_fields safety_hop_def sample_reader_fields sample_gate_def sample_masks)

text \<open>C2: on a review or high-risk query, the admissible protected gates are all selected whenever
  they are no more than the reserve has slots and their cost fits the token budget, whatever
  else competes for it.\<close>

theorem protected_gates_selected:
  assumes "table_inv reader t" and "safety_profile px" and "0 \<le> pl_tokenBudget (px_plan px)"
    and "0 \<le> rc_minTokenCost (px_config px)"
    and "length (filter (\<lambda>s. has t s PROTECTED) (admissible reader px t))
           \<le> min (rc_protectedGateReserveSlots (px_config px)) (px_maxSelected px)"
    and "sum_list (map (costOf px t) (filter (\<lambda>s. has t s PROTECTED) (admissible reader px t)))
           \<le> pl_tokenBudget (px_plan px)"
  shows "filter (\<lambda>s. has t s PROTECTED \<and>
             s \<notin> set (sl_chosen (run_selector px t (fusion_result_of (fusion_run_of reader px t)) omissions)))
           (admissible reader px t) = []"
proof -
  define z where "z = fusion_result_of (fusion_run_of reader px t)"
  define gates where "gates = filter (\<lambda>s. has t s PROTECTED) (admissible reader px t)"
  have z: "fz_protectedGates z = best_slots reader px t (rc_protectedGateReserveSlots (px_config px)) (\<lambda>s. has t s PROTECTED)"
    unfolding z_def by (rule fusion_result_facts(2) [OF assms(1)])
  have all: "set (fz_protectedGates z) = set gates"
    using best_slots_all [of "\<lambda>s. has t s PROTECTED" reader px t] assms(5) by (auto simp: z gates_def)
  have m: "mset (fz_protectedGates z) = mset gates"
    using all best_slots_distinct [OF assms(1)] admissible_distinct
    by (metis set_eq_iff_mset_eq_distinct z gates_def distinct_filter)
  have "set (fz_protectedGates z) \<subseteq> set (sl_chosen (run_selector px t z omissions))"
  proof (rule reserved_first [OF assms(3)])
    show "reserve_order px z = fz_protectedGates z @ (fz_conflicts z @ fz_exactSeeds z @
      (if pl_profile (px_plan px) = P_implementation then fz_testOrGates z else []) @
      map (\<lambda>l. nat (fz_laneLeaders z l)) (filter (\<lambda>l. 0 \<le> fz_laneLeaders z l) RETRIEVAL_LANES))"
      using assms(2) by (simp add: reserve_order_def)
    show "length (fz_protectedGates z) \<le> px_maxSelected px"
      using assms(5) mset_eq_length [OF m] by (simp add: gates_def)
    show "sum_list (map (costOf px t) (fz_protectedGates z)) \<le> pl_tokenBudget (px_plan px)"
      using assms(6) m by (metis gates_def mset_map sum_mset_sum_list)
  qed (use best_slots_distinct [OF assms(1)] assms(4) in \<open>auto simp: z costOf_def\<close>)
  then show ?thesis using all by (auto simp: filter_empty_conv gates_def z_def)
qed

definition sample_gates :: candidate_table where
  "sample_gates = mark 0 PROTECTED (fst (admit sample_reader 1 (new_table 16)))"

lemma sample_gates_eq:
  "sample_gates = \<lparr>ct_capacity = 16, ct_overflow = 0,
     ct_rows = [(admitted_row sample_reader 1)\<lparr>c_flags := PROTECTED\<rparr>], ct_slots = [1 \<mapsto> 0]\<rparr>"
  by (simp add: sample_gates_def mark_def admit_def new_table_def ct_size_def update_row_def row_def
      admitted_row_def fun_eq_iff)

lemma gate_flags:
  "hasFlag PROTECTED PROTECTED" "\<not> hasFlag (NODE_GROUNDABLE OR NODE_PROTECTED) NODE_INVALIDATED"
  "hasFlag (NODE_GROUNDABLE OR NODE_PROTECTED) NODE_GROUNDABLE"
  by code_simp+

lemma sample_gates_rows:
  "admissible sample_reader sample_plan sample_gates = [0]" "has sample_gates 0 PROTECTED"
  "costOf sample_plan sample_gates 0 = 40"
  by (simp_all add: sample_gates_eq admissible_def ct_size_def exclusion_of_def row_def has_def gate_flags
      admitted_row_def sample_reader_fields [simplified] sample_plan_fields costOf_def Let_def)
    (simp add: sample_reader_def)

lemma sample_gates_inv: "table_inv sample_reader sample_gates"
  using tbl.grows_trans [OF admit_grows mark_grows] new_table_inv
  by (auto simp: sample_gates_def tbl.grows_def)

theorem protected_gates_selected_witness:
  "filter (\<lambda>s. has sample_gates s PROTECTED \<and>
     s \<notin> set (sl_chosen (run_selector sample_plan sample_gates
               (fusion_result_of (fusion_run_of sample_reader sample_plan sample_gates)) Map.empty)))
     (admissible sample_reader sample_plan sample_gates) = []"
  by (rule protected_gates_selected)
     (simp_all add: sample_gates_rows sample_gates_inv sample_plan_fields safety_profile_def)

end
