(* ===== verification/Index_Bytes.thy ===== *)
theory Index_Bytes
  imports Js_Number
begin

text \<open>
  Bytes as the index format reads and writes them: little-endian numbers over a list of
  bytes, the outcomes of a read, and the checked arithmetic and checksum of
  \<open>runtime-index/format-primitives.ts\<close>.  The error codes and the repair commands are those of
  \<open>runtime-index/format-contract.ts\<close>.  A \<open>Uint8Array\<close> is the list of its bytes; a \<open>DataView\<close> over
  a window is that window, and a read outside it is the \<open>RangeError\<close> it throws.
\<close>

type_synonym bytes = "8 word list"

subsection \<open>Outcomes\<close>

text \<open>
  The codes of a rejected file.  The numeric detail of an error is diagnostic only and left
  out, except for the two revisions, which decide the repair command.
\<close>

datatype format_error =
    magic_invalid | revision_unsupported nat nat | header_truncated | header_checksum_mismatch
  | reserved_not_zero | section_table_truncated | section_kind_unknown | section_duplicate
  | section_missing | section_overlap | section_out_of_bounds | section_checksum_mismatch
  | count_limit_exceeded | offset_overflow | string_offset_invalid | string_not_utf8
  | csr_not_monotonic | csr_length_mismatch | reference_out_of_range

text \<open>
  An outcome is a value, a rejection of the file, a refusal (of the pointer that led to a file, or of
  the writer to write one), or an exception: the \<open>RangeError\<close> of a \<open>DataView\<close> read or of a row check,
  the \<open>TypeError\<close> of a fatal \<open>TextDecoder\<close>, and the plain \<open>Error\<close> of the string interner.
\<close>

datatype writer_error =
    absolute_path | lint_error | unknown_enum | dangling_edge | count_limit | duplicate_node | lexicon_invariant

datatype refusal =
    context_index_stale | context_index_pointer_meta_divergent | writer_refuses writer_error

datatype js_error = RangeError | TypeError | PlainError

datatype 'a outcome = Ok 'a | Reject format_error | Refuse refusal | Thrown js_error

fun bind_outcome :: "'a outcome \<Rightarrow> ('a \<Rightarrow> 'b outcome) \<Rightarrow> 'b outcome" where
  "bind_outcome (Ok x) f = f x"
| "bind_outcome (Reject e) f = Reject e"
| "bind_outcome (Refuse e) f = Refuse e"
| "bind_outcome (Thrown e) f = Thrown e"

definition require :: "bool \<Rightarrow> format_error \<Rightarrow> unit outcome" where
  "require b e = (if b then Ok () else Reject e)"

text \<open>A loop over rows that carries a state and stops at the first failure.\<close>

fun each_row :: "('x \<Rightarrow> 's \<Rightarrow> 's outcome) \<Rightarrow> 'x list \<Rightarrow> 's \<Rightarrow> 's outcome" where
  "each_row f [] s = Ok s"
| "each_row f (x # xs) s = bind_outcome (f x s) (each_row f xs)"

lemma bind_Ok [simp]: "bind_outcome r f = Ok y \<longleftrightarrow> (\<exists>x. r = Ok x \<and> f x = Ok y)"
  by (cases r) auto

lemma require_Ok [simp]: "require b e = Ok u \<longleftrightarrow> b"
  by (simp add: require_def)

lemma bind_assoc: "bind_outcome (bind_outcome r f) g = bind_outcome r (\<lambda>x. bind_outcome (f x) g)"
  by (cases r) auto

lemma each_row_append: "each_row f (xs @ ys) s = bind_outcome (each_row f xs s) (each_row f ys)"
proof (induction xs arbitrary: s)
  case (Cons x xs)
  then show ?case by (cases "f x s") simp_all
qed simp

lemma each_row_invariant:
  assumes "each_row f xs s = Ok s'" "I s" "\<And>x s s'. x \<in> set xs \<Longrightarrow> I s \<Longrightarrow> f x s = Ok s' \<Longrightarrow> I s'"
  shows "I s'"
  using assms by (induction xs arbitrary: s) auto

lemma each_row_unit: "each_row (\<lambda>x u. f x) xs () = Ok u \<longleftrightarrow> (\<forall>x \<in> set xs. f x = Ok ())"
  by (induction xs) auto

datatype public_code = index_format_unsupported | index_truncated | index_checksum_mismatch

fun CONTEXT_INDEX_FORMAT_ERRORS :: "format_error \<Rightarrow> public_code" where
  "CONTEXT_INDEX_FORMAT_ERRORS magic_invalid = index_format_unsupported"
| "CONTEXT_INDEX_FORMAT_ERRORS (revision_unsupported _ _) = index_format_unsupported"
| "CONTEXT_INDEX_FORMAT_ERRORS header_truncated = index_truncated"
| "CONTEXT_INDEX_FORMAT_ERRORS header_checksum_mismatch = index_checksum_mismatch"
| "CONTEXT_INDEX_FORMAT_ERRORS reserved_not_zero = index_format_unsupported"
| "CONTEXT_INDEX_FORMAT_ERRORS section_table_truncated = index_truncated"
| "CONTEXT_INDEX_FORMAT_ERRORS section_kind_unknown = index_format_unsupported"
| "CONTEXT_INDEX_FORMAT_ERRORS section_duplicate = index_checksum_mismatch"
| "CONTEXT_INDEX_FORMAT_ERRORS section_missing = index_truncated"
| "CONTEXT_INDEX_FORMAT_ERRORS section_overlap = index_checksum_mismatch"
| "CONTEXT_INDEX_FORMAT_ERRORS section_out_of_bounds = index_truncated"
| "CONTEXT_INDEX_FORMAT_ERRORS section_checksum_mismatch = index_checksum_mismatch"
| "CONTEXT_INDEX_FORMAT_ERRORS count_limit_exceeded = index_truncated"
| "CONTEXT_INDEX_FORMAT_ERRORS offset_overflow = index_truncated"
| "CONTEXT_INDEX_FORMAT_ERRORS string_offset_invalid = index_checksum_mismatch"
| "CONTEXT_INDEX_FORMAT_ERRORS string_not_utf8 = index_checksum_mismatch"
| "CONTEXT_INDEX_FORMAT_ERRORS csr_not_monotonic = index_checksum_mismatch"
| "CONTEXT_INDEX_FORMAT_ERRORS csr_length_mismatch = index_checksum_mismatch"
| "CONTEXT_INDEX_FORMAT_ERRORS reference_out_of_range = index_checksum_mismatch"

datatype repair_command = repair_rebuild_index | repair_update

definition formatRepairCommandFor :: "format_error \<Rightarrow> repair_command" where
  "formatRepairCommandFor code =
     (if CONTEXT_INDEX_FORMAT_ERRORS code \<noteq> index_format_unsupported then repair_rebuild_index
      else case code of
             revision_unsupported found supported \<Rightarrow>
               (if found < supported then repair_rebuild_index else repair_update)
           | _ \<Rightarrow> repair_update)"

subsection \<open>Little-endian numbers\<close>

fun le_nat :: "bytes \<Rightarrow> nat" where
  "le_nat [] = 0"
| "le_nat (b # bs) = unat b + 256 * le_nat bs"

fun le_bytes :: "nat \<Rightarrow> nat \<Rightarrow> bytes" where
  "le_bytes 0 v = []"
| "le_bytes (Suc n) v = of_nat (v mod 256) # le_bytes n (v div 256)"

lemma length_le_bytes [simp]: "length (le_bytes n v) = n"
  by (induction n arbitrary: v) auto

lemma unat_byte: "unat (of_nat (v mod 256) :: 8 word) = v mod 256"
  by (simp add: unat_of_nat)

lemma le_nat_bytes: "le_nat (le_bytes n v) = v mod 256 ^ n"
  by (induction n arbitrary: v) (simp_all add: unat_byte mod_mult2_eq)

lemma le_bytes_nat: "length bs = n \<Longrightarrow> le_bytes n (le_nat bs) = bs"
proof (induction bs arbitrary: n)
  case (Cons b bs)
  then obtain m where n: "n = Suc m" "length bs = m" by auto
  have "unat b < 256" using unsigned_less [of b] by simp
  then show ?case using Cons.IH [OF n(2)] by (simp add: n(1))
qed simp

lemma le_nat_less: "le_nat bs < 256 ^ length bs"
proof (induction bs)
  case (Cons b bs)
  have "unat b < 256" using unsigned_less [of b] by simp
  with Cons show ?case by simp
qed simp

definition sub_bytes :: "nat \<Rightarrow> nat \<Rightarrow> bytes \<Rightarrow> bytes" where
  "sub_bytes pos n bs = take n (drop pos bs)"

definition getUint :: "nat \<Rightarrow> bytes \<Rightarrow> nat \<Rightarrow> nat outcome" where
  "getUint width view pos =
     (if pos + width \<le> length view then Ok (le_nat (sub_bytes pos width view)) else Thrown RangeError)"

abbreviation "getUint8 \<equiv> getUint 1"
abbreviation "getUint16 \<equiv> getUint 2"
abbreviation "getUint32 \<equiv> getUint 4"
abbreviation "getBigUint64 \<equiv> getUint 8"

text \<open>\<open>bytes.set(payload, pos)\<close> into a buffer that is long enough.\<close>

definition put :: "nat \<Rightarrow> bytes \<Rightarrow> bytes \<Rightarrow> bytes" where
  "put pos payload buf = take pos buf @ payload @ drop (pos + length payload) buf"

text \<open>\<open>new DataView(buffer, start, size)\<close>.\<close>

definition window :: "bytes \<Rightarrow> nat \<Rightarrow> nat \<Rightarrow> bytes outcome" where
  "window bs start len = (if start + len \<le> length bs then Ok (sub_bytes start len bs) else Thrown RangeError)"

lemma length_sub_bytes [simp]: "length (sub_bytes pos n bs) = min n (length bs - pos)"
  by (simp add: sub_bytes_def)

lemma length_put [simp]: "pos + length p \<le> length buf \<Longrightarrow> length (put pos p buf) = length buf"
  by (simp add: put_def)

lemma sub_bytes_put_same: "pos + length p \<le> length buf \<Longrightarrow> n = length p \<Longrightarrow> sub_bytes pos n (put pos p buf) = p"
  by (simp add: sub_bytes_def put_def)

lemma sub_bytes_put_before: "i + n \<le> pos \<Longrightarrow> pos + length p \<le> length buf \<Longrightarrow> sub_bytes i n (put pos p buf) = sub_bytes i n buf"
  by (rule nth_equalityI) (auto simp: sub_bytes_def put_def nth_append)

lemma sub_bytes_put_after: "pos + length p \<le> i \<Longrightarrow> pos + length p \<le> length buf \<Longrightarrow> sub_bytes i n (put pos p buf) = sub_bytes i n buf"
  by (simp add: sub_bytes_def put_def)

lemma sub_bytes_sub_bytes: "i + n \<le> m \<Longrightarrow> sub_bytes i n (sub_bytes pos m bs) = sub_bytes (pos + i) n bs"
  by (simp add: sub_bytes_def drop_take min_def add.commute)

lemma sub_bytes_append_left: "i + n \<le> length xs \<Longrightarrow> sub_bytes i n (xs @ ys) = sub_bytes i n xs"
  by (simp add: sub_bytes_def)

lemma sub_bytes_split: "sub_bytes i (m + n) bs = sub_bytes i m bs @ sub_bytes (i + m) n bs"
  by (simp add: sub_bytes_def take_add add.commute)

lemma sub_bytes_all: "length bs = n \<Longrightarrow> sub_bytes 0 n bs = bs"
  by (simp add: sub_bytes_def)

lemma getUint_Ok [simp]: "getUint w view pos = Ok v \<longleftrightarrow> pos + w \<le> length view \<and> v = le_nat (sub_bytes pos w view)"
  by (auto simp: getUint_def)

lemma window_Ok [simp]: "window bs start len = Ok v \<longleftrightarrow> start + len \<le> length bs \<and> v = sub_bytes start len bs"
  by (auto simp: window_def)

lemma le_nat_sub_bytes_less: "pos + w \<le> length bs \<Longrightarrow> le_nat (sub_bytes pos w bs) < 256 ^ w"
  using le_nat_less [of "sub_bytes pos w bs"] by (simp add: min_absorb1)

subsection \<open>Checked arithmetic and the checksum\<close>

definition maxFileBytes :: nat where "maxFileBytes = 2 ^ 33"
definition maxSectionBytes :: nat where "maxSectionBytes = 2 ^ 32"

definition checkedAdd :: "nat \<Rightarrow> nat \<Rightarrow> nat outcome" where
  "checkedAdd a b = (if maxFileBytes < a + b then Reject offset_overflow else Ok (a + b))"

definition checkedMul :: "nat \<Rightarrow> nat \<Rightarrow> nat outcome" where
  "checkedMul a b = (if maxSectionBytes < a * b then Reject offset_overflow else Ok (a * b))"

definition checksum_step :: "8 word \<Rightarrow> 32 word \<times> 32 word \<Rightarrow> 32 word \<times> 32 word" where
  "checksum_step byte lanes =
     (case lanes of (lo, hi) \<Rightarrow>
        ((lo XOR ucast byte) * 0x01000193, ((hi + ucast byte) * 0x85ebca6b) XOR drop_bit 13 hi))"

definition checksum_of :: "bytes \<Rightarrow> nat" where
  "checksum_of bs =
     (case fold checksum_step bs (0x811c9dc5, 0x01000193) of (lo, hi) \<Rightarrow> unat hi * 2 ^ 32 + unat lo)"

definition contextIndexChecksum :: "bytes \<Rightarrow> nat \<Rightarrow> nat \<Rightarrow> nat outcome" where
  "contextIndexChecksum bs start ending =
     (if length bs < ending \<or> ending < start then Reject offset_overflow
      else Ok (checksum_of (sub_bytes start (ending - start) bs)))"

lemma checkedAdd_Ok [simp]: "checkedAdd a b = Ok c \<longleftrightarrow> c = a + b \<and> a + b \<le> maxFileBytes"
  by (auto simp: checkedAdd_def)

lemma checkedMul_Ok [simp]: "checkedMul a b = Ok c \<longleftrightarrow> c = a * b \<and> a * b \<le> maxSectionBytes"
  by (auto simp: checkedMul_def)

lemma checksum_less: "checksum_of bs < 2 ^ 64"
proof -
  obtain lo hi where f: "fold checksum_step bs (0x811c9dc5, 0x01000193) = (lo, hi)" by fastforce
  have "unat lo < 2 ^ 32" "unat hi < 2 ^ 32" using unsigned_less [of lo] unsigned_less [of hi] by simp_all
  then show ?thesis by (simp add: checksum_of_def f)
qed

lemma contextIndexChecksum_Ok [simp]:
  "contextIndexChecksum bs start ending = Ok c \<longleftrightarrow>
     start \<le> ending \<and> ending \<le> length bs \<and> c = checksum_of (sub_bytes start (ending - start) bs)"
  by (auto simp: contextIndexChecksum_def)

end
