(* ===== verification/Index_Format.thy ===== *)
theory Index_Format
  imports Index_Bytes
begin

text \<open>
  The header and the section table of the binary index, \<open>runtime-index/format-header.ts\<close>, with the
  constants of \<open>format-contract.ts\<close>: what is written is read back, what is accepted is in
  canonical form, and the sections of an accepted layout are complete, in bounds and disjoint.
\<close>

subsection \<open>Constants\<close>

definition CONTEXT_INDEX_MAGIC :: bytes where
  "CONTEXT_INDEX_MAGIC = [0x53, 0x4b, 0x53, 0x43, 0x47, 0x32, 0x00, 0x00]"

definition CONTEXT_INDEX_FORMAT_REVISION :: nat where "CONTEXT_INDEX_FORMAT_REVISION = 2"
definition CONTEXT_INDEX_HEADER_BYTES :: nat where "CONTEXT_INDEX_HEADER_BYTES = 104"
definition CONTEXT_INDEX_SECTION_DESCRIPTOR_BYTES :: nat where "CONTEXT_INDEX_SECTION_DESCRIPTOR_BYTES = 32"
definition CONTEXT_INDEX_HASH_BYTES :: nat where "CONTEXT_INDEX_HASH_BYTES = 32"

text \<open>The section kinds are the codes 1 to 20, in the order of the declaration.\<close>

datatype section_kind =
    STRING_TABLE | NODE_TABLE | NODE_METADATA | EDGE_TABLE | OUT_CSR_OFFSETS | OUT_CSR_EDGES
  | IN_CSR_OFFSETS | IN_CSR_EDGES | EXACT_TERM_TABLE | EXACT_POSTINGS | BASENAME_TABLE
  | BASENAME_POSTINGS | LEXICON_TABLE | LEXICON_POSTINGS | COARSE_TERM_TABLE | COARSE_POSTINGS
  | PROVENANCE_TABLE | GROUP_TABLE | CYCLE_TABLE | SOURCE_HASH_TABLE

fun CONTEXT_INDEX_SECTION :: "section_kind \<Rightarrow> nat" where
  "CONTEXT_INDEX_SECTION STRING_TABLE = 1"
| "CONTEXT_INDEX_SECTION NODE_TABLE = 2"
| "CONTEXT_INDEX_SECTION NODE_METADATA = 3"
| "CONTEXT_INDEX_SECTION EDGE_TABLE = 4"
| "CONTEXT_INDEX_SECTION OUT_CSR_OFFSETS = 5"
| "CONTEXT_INDEX_SECTION OUT_CSR_EDGES = 6"
| "CONTEXT_INDEX_SECTION IN_CSR_OFFSETS = 7"
| "CONTEXT_INDEX_SECTION IN_CSR_EDGES = 8"
| "CONTEXT_INDEX_SECTION EXACT_TERM_TABLE = 9"
| "CONTEXT_INDEX_SECTION EXACT_POSTINGS = 10"
| "CONTEXT_INDEX_SECTION BASENAME_TABLE = 11"
| "CONTEXT_INDEX_SECTION BASENAME_POSTINGS = 12"
| "CONTEXT_INDEX_SECTION LEXICON_TABLE = 13"
| "CONTEXT_INDEX_SECTION LEXICON_POSTINGS = 14"
| "CONTEXT_INDEX_SECTION COARSE_TERM_TABLE = 15"
| "CONTEXT_INDEX_SECTION COARSE_POSTINGS = 16"
| "CONTEXT_INDEX_SECTION PROVENANCE_TABLE = 17"
| "CONTEXT_INDEX_SECTION GROUP_TABLE = 18"
| "CONTEXT_INDEX_SECTION CYCLE_TABLE = 19"
| "CONTEXT_INDEX_SECTION SOURCE_HASH_TABLE = 20"

definition CONTEXT_INDEX_REQUIRED_SECTIONS :: "nat list" where
  "CONTEXT_INDEX_REQUIRED_SECTIONS = [1..<21]"

definition maxNodeCount :: nat where "maxNodeCount = 2 ^ 24"
definition maxEdgeCount :: nat where "maxEdgeCount = 2 ^ 26"
definition maxTermCount :: nat where "maxTermCount = 2 ^ 24"
definition maxProvenanceCount :: nat where "maxProvenanceCount = 2 ^ 26"
definition maxSectionCount :: nat where "maxSectionCount = 64"
definition maxSectionCountValue :: nat where "maxSectionCountValue = 2 ^ 27"

lemma section_kinds: "CONTEXT_INDEX_SECTION k \<in> set CONTEXT_INDEX_REQUIRED_SECTIONS"
  by (cases k) (simp_all add: CONTEXT_INDEX_REQUIRED_SECTIONS_def)

lemmas limit_defs = maxNodeCount_def maxEdgeCount_def maxTermCount_def maxProvenanceCount_def
  maxSectionCount_def maxSectionCountValue_def maxFileBytes_def maxSectionBytes_def

subsection \<open>The header\<close>

record index_header =
  ih_formatRevision :: nat
  ih_schemaRevision :: nat
  ih_flags :: nat
  ih_nodeCount :: nat
  ih_edgeCount :: nat
  ih_termCount :: nat
  ih_provenanceCount :: nat
  ih_snapshotHash :: bytes
  ih_configHash :: bytes
  ih_sectionCount :: nat

definition fixedHash :: "bytes \<Rightarrow> bytes" where
  "fixedHash hash =
     (if length hash \<noteq> CONTEXT_INDEX_HASH_BYTES
      then put 0 (take CONTEXT_INDEX_HASH_BYTES hash) (replicate CONTEXT_INDEX_HASH_BYTES 0) else hash)"

definition header_body :: "index_header \<Rightarrow> bytes" where
  "header_body h =
     (put 98 (le_bytes 2 0) \<circ> put 96 (le_bytes 2 (ih_sectionCount h)) \<circ>
      put 64 (fixedHash (ih_configHash h)) \<circ> put 32 (fixedHash (ih_snapshotHash h)) \<circ>
      put 28 (le_bytes 4 (ih_provenanceCount h)) \<circ> put 24 (le_bytes 4 (ih_termCount h)) \<circ>
      put 20 (le_bytes 4 (ih_edgeCount h)) \<circ> put 16 (le_bytes 4 (ih_nodeCount h)) \<circ>
      put 12 (le_bytes 4 (ih_flags h)) \<circ> put 10 (le_bytes 2 (ih_schemaRevision h)) \<circ>
      put 8 (le_bytes 2 (ih_formatRevision h)) \<circ> put 0 CONTEXT_INDEX_MAGIC)
     (replicate CONTEXT_INDEX_HEADER_BYTES 0)"

definition encodeContextIndexHeader :: "index_header \<Rightarrow> bytes" where
  "encodeContextIndexHeader h =
     put 100 (le_bytes 4 (checksum_of (sub_bytes 0 100 (header_body h)) mod 2 ^ 32)) (header_body h)"

definition readContextIndexHeader :: "bytes \<Rightarrow> index_header outcome" where
  "readContextIndexHeader bs =
     bind_outcome (require (CONTEXT_INDEX_HEADER_BYTES \<le> length bs) header_truncated) (\<lambda>_.
     bind_outcome (require (sub_bytes 0 8 bs = CONTEXT_INDEX_MAGIC) magic_invalid) (\<lambda>_.
     bind_outcome (getUint32 bs 100) (\<lambda>stored.
     bind_outcome (contextIndexChecksum bs 0 100) (\<lambda>computed.
     bind_outcome (require (stored = computed mod 2 ^ 32) header_checksum_mismatch) (\<lambda>_.
     bind_outcome (getUint16 bs 8) (\<lambda>formatRevision.
     bind_outcome (require (formatRevision = CONTEXT_INDEX_FORMAT_REVISION)
                     (revision_unsupported formatRevision CONTEXT_INDEX_FORMAT_REVISION)) (\<lambda>_.
     bind_outcome (getUint16 bs 98) (\<lambda>reserved.
     bind_outcome (require (reserved = 0) reserved_not_zero) (\<lambda>_.
     bind_outcome (getUint32 bs 16) (\<lambda>nodeCount.
     bind_outcome (getUint32 bs 20) (\<lambda>edgeCount.
     bind_outcome (getUint32 bs 24) (\<lambda>termCount.
     bind_outcome (getUint32 bs 28) (\<lambda>provenanceCount.
     bind_outcome (getUint16 bs 96) (\<lambda>sectionCount.
     bind_outcome (require (nodeCount \<le> maxNodeCount) count_limit_exceeded) (\<lambda>_.
     bind_outcome (require (edgeCount \<le> maxEdgeCount) count_limit_exceeded) (\<lambda>_.
     bind_outcome (require (termCount \<le> maxTermCount) count_limit_exceeded) (\<lambda>_.
     bind_outcome (require (provenanceCount \<le> maxProvenanceCount) count_limit_exceeded) (\<lambda>_.
     bind_outcome (require (sectionCount \<le> maxSectionCount) count_limit_exceeded) (\<lambda>_.
     bind_outcome (getUint16 bs 10) (\<lambda>schemaRevision.
     bind_outcome (getUint32 bs 12) (\<lambda>headerFlags.
       Ok \<lparr>ih_formatRevision = formatRevision, ih_schemaRevision = schemaRevision, ih_flags = headerFlags,
           ih_nodeCount = nodeCount, ih_edgeCount = edgeCount, ih_termCount = termCount,
           ih_provenanceCount = provenanceCount,
           ih_snapshotHash = sub_bytes 32 CONTEXT_INDEX_HASH_BYTES bs,
           ih_configHash = sub_bytes 64 CONTEXT_INDEX_HASH_BYTES bs,
           ih_sectionCount = sectionCount\<rparr>)))))))))))))))))))))"

subsection \<open>The section table\<close>

record section_descriptor =
  sd_kind :: nat
  sd_offset :: nat
  sd_length :: nat
  sd_count :: nat
  sd_checksum :: nat

definition encodeSectionDescriptor :: "section_descriptor \<Rightarrow> bytes" where
  "encodeSectionDescriptor d =
     (put 24 (le_bytes 8 (sd_checksum d)) \<circ> put 16 (le_bytes 8 (sd_length d)) \<circ>
      put 8 (le_bytes 8 (sd_offset d)) \<circ> put 4 (le_bytes 4 (sd_count d)) \<circ> put 0 (le_bytes 4 (sd_kind d)))
     (replicate CONTEXT_INDEX_SECTION_DESCRIPTOR_BYTES 0)"

definition read_descriptor :: "bytes \<Rightarrow> nat \<Rightarrow> section_descriptor outcome" where
  "read_descriptor bs pos =
     bind_outcome (getUint32 bs pos) (\<lambda>kind.
     bind_outcome (require (kind \<in> set CONTEXT_INDEX_REQUIRED_SECTIONS) section_kind_unknown) (\<lambda>_.
     bind_outcome (getUint32 bs (pos + 4)) (\<lambda>n.
     bind_outcome (require (n \<le> maxSectionCountValue) count_limit_exceeded) (\<lambda>_.
     bind_outcome (getBigUint64 bs (pos + 8)) (\<lambda>start.
     bind_outcome (getBigUint64 bs (pos + 16)) (\<lambda>len.
     bind_outcome (getBigUint64 bs (pos + 24)) (\<lambda>checksum.
       Ok \<lparr>sd_kind = kind, sd_offset = start, sd_length = len, sd_count = n, sd_checksum = checksum\<rparr>)))))))"

definition descriptor_at :: "nat \<Rightarrow> nat" where
  "descriptor_at index = CONTEXT_INDEX_HEADER_BYTES + index * CONTEXT_INDEX_SECTION_DESCRIPTOR_BYTES"

definition readSectionTable :: "bytes \<Rightarrow> index_header \<Rightarrow> section_descriptor list outcome" where
  "readSectionTable bs h =
     bind_outcome (checkedMul (ih_sectionCount h) CONTEXT_INDEX_SECTION_DESCRIPTOR_BYTES) (\<lambda>tableBytes.
     bind_outcome (require (CONTEXT_INDEX_HEADER_BYTES + tableBytes \<le> length bs) section_table_truncated) (\<lambda>_.
       each_row (\<lambda>index ds. bind_outcome (read_descriptor bs (descriptor_at index)) (\<lambda>d. Ok (ds @ [d])))
         [0..<ih_sectionCount h] []))"

subsection \<open>The layout\<close>

definition place_section ::
  "bytes \<Rightarrow> nat \<Rightarrow> section_descriptor \<Rightarrow> (nat \<rightharpoonup> section_descriptor) \<Rightarrow> (nat \<rightharpoonup> section_descriptor) outcome" where
  "place_section bs tableEnd d byKind =
     bind_outcome (require (byKind (sd_kind d) = None) section_duplicate) (\<lambda>_.
     bind_outcome (require (sd_length d \<le> maxSectionBytes) count_limit_exceeded) (\<lambda>_.
     bind_outcome (checkedAdd (sd_offset d) (sd_length d)) (\<lambda>ending.
     bind_outcome (require (tableEnd \<le> sd_offset d \<and> ending \<le> length bs) section_out_of_bounds) (\<lambda>_.
       Ok (byKind(sd_kind d \<mapsto> d))))))"

fun no_overlap :: "section_descriptor list \<Rightarrow> unit outcome" where
  "no_overlap (previous # current # ds) =
     bind_outcome (require (sd_offset previous + sd_length previous \<le> sd_offset current) section_overlap) (\<lambda>_.
       no_overlap (current # ds))"
| "no_overlap ds = Ok ()"

definition check_section :: "bytes \<Rightarrow> section_descriptor \<Rightarrow> unit outcome" where
  "check_section bs d =
     bind_outcome (contextIndexChecksum bs (sd_offset d) (sd_offset d + sd_length d)) (\<lambda>found.
       require (found = sd_checksum d) section_checksum_mismatch)"

definition validateSectionLayout ::
  "bytes \<Rightarrow> section_descriptor list \<Rightarrow> (nat \<rightharpoonup> section_descriptor) outcome" where
  "validateSectionLayout bs ds =
     bind_outcome (each_row (place_section bs (descriptor_at (length ds))) ds Map.empty) (\<lambda>byKind.
     bind_outcome (no_overlap (sort_key sd_offset ds)) (\<lambda>_.
     bind_outcome (each_row (\<lambda>k u. require (byKind k \<noteq> None) section_missing)
                     CONTEXT_INDEX_REQUIRED_SECTIONS ()) (\<lambda>_.
     bind_outcome (each_row (\<lambda>d u. check_section bs d) ds ()) (\<lambda>_.
       Ok byKind))))"

subsection \<open>Round trips of the header\<close>

lemma fixedHash_length [simp]: "length (fixedHash hash) = 32"
  by (simp add: fixedHash_def CONTEXT_INDEX_HASH_BYTES_def put_def)

lemma fixedHash_id: "length hash = 32 \<Longrightarrow> fixedHash hash = hash"
  by (simp add: fixedHash_def CONTEXT_INDEX_HASH_BYTES_def)

lemma magic_length [simp]: "length CONTEXT_INDEX_MAGIC = 8"
  by (simp add: CONTEXT_INDEX_MAGIC_def)

lemmas sub_bytes_put = sub_bytes_put_same sub_bytes_put_before sub_bytes_put_after

lemma header_body_length [simp]: "length (header_body h) = 104"
  by (simp add: header_body_def CONTEXT_INDEX_HEADER_BYTES_def)

lemma header_body_fields:
  "sub_bytes 0 8 (header_body h) = CONTEXT_INDEX_MAGIC"
  "sub_bytes 8 2 (header_body h) = le_bytes 2 (ih_formatRevision h)"
  "sub_bytes 10 2 (header_body h) = le_bytes 2 (ih_schemaRevision h)"
  "sub_bytes 12 4 (header_body h) = le_bytes 4 (ih_flags h)"
  "sub_bytes 16 4 (header_body h) = le_bytes 4 (ih_nodeCount h)"
  "sub_bytes 20 4 (header_body h) = le_bytes 4 (ih_edgeCount h)"
  "sub_bytes 24 4 (header_body h) = le_bytes 4 (ih_termCount h)"
  "sub_bytes 28 4 (header_body h) = le_bytes 4 (ih_provenanceCount h)"
  "sub_bytes 32 32 (header_body h) = fixedHash (ih_snapshotHash h)"
  "sub_bytes 64 32 (header_body h) = fixedHash (ih_configHash h)"
  "sub_bytes 96 2 (header_body h) = le_bytes 2 (ih_sectionCount h)"
  "sub_bytes 98 2 (header_body h) = le_bytes 2 0"
  by (simp_all add: header_body_def CONTEXT_INDEX_HEADER_BYTES_def sub_bytes_put)

definition header_prefix :: "index_header \<Rightarrow> bytes" where
  "header_prefix h =
     CONTEXT_INDEX_MAGIC @ le_bytes 2 (ih_formatRevision h) @ le_bytes 2 (ih_schemaRevision h) @
     le_bytes 4 (ih_flags h) @ le_bytes 4 (ih_nodeCount h) @ le_bytes 4 (ih_edgeCount h) @
     le_bytes 4 (ih_termCount h) @ le_bytes 4 (ih_provenanceCount h) @ fixedHash (ih_snapshotHash h) @
     fixedHash (ih_configHash h) @ le_bytes 2 (ih_sectionCount h) @ le_bytes 2 0"

text \<open>The hundred bytes the checksum covers, cut at the field offsets.\<close>

lemma hundred_bytes:
  "sub_bytes 0 100 bs = sub_bytes 0 8 bs @ sub_bytes 8 2 bs @ sub_bytes 10 2 bs @ sub_bytes 12 4 bs @
     sub_bytes 16 4 bs @ sub_bytes 20 4 bs @ sub_bytes 24 4 bs @ sub_bytes 28 4 bs @ sub_bytes 32 32 bs @
     sub_bytes 64 32 bs @ sub_bytes 96 2 bs @ sub_bytes 98 2 bs"
  using sub_bytes_split [of 0 8 92 bs] sub_bytes_split [of 8 2 90 bs] sub_bytes_split [of 10 2 88 bs]
    sub_bytes_split [of 12 4 84 bs] sub_bytes_split [of 16 4 80 bs] sub_bytes_split [of 20 4 76 bs]
    sub_bytes_split [of 24 4 72 bs] sub_bytes_split [of 28 4 68 bs] sub_bytes_split [of 32 32 36 bs]
    sub_bytes_split [of 64 32 4 bs] sub_bytes_split [of 96 2 2 bs]
  by simp

lemma header_body_prefix: "sub_bytes 0 100 (header_body h) = header_prefix h"
  unfolding hundred_bytes header_body_fields header_prefix_def by simp

lemma encode_header_eq:
  "encodeContextIndexHeader h = header_prefix h @ le_bytes 4 (checksum_of (header_prefix h) mod 2 ^ 32)"
proof -
  let ?e = "encodeContextIndexHeader h"
  have "?e = sub_bytes 0 100 ?e @ sub_bytes 100 4 ?e"
    using sub_bytes_split [of 0 100 4 ?e] by (simp add: encodeContextIndexHeader_def sub_bytes_def put_def)
  moreover have "sub_bytes 0 100 ?e = header_prefix h"
    unfolding encodeContextIndexHeader_def by (subst sub_bytes_put_before) (simp_all add: header_body_prefix)
  moreover have "sub_bytes 100 4 ?e = le_bytes 4 (checksum_of (header_prefix h) mod 2 ^ 32)"
    unfolding encodeContextIndexHeader_def by (subst sub_bytes_put_same) (simp_all add: header_body_prefix)
  ultimately show ?thesis by simp
qed

lemma encode_header_length [simp]: "length (encodeContextIndexHeader h) = 104"
  by (simp add: encodeContextIndexHeader_def)

text \<open>The limits a header must keep to be accepted.\<close>

definition header_fits :: "index_header \<Rightarrow> bool" where
  "header_fits h \<longleftrightarrow>
     ih_formatRevision h = CONTEXT_INDEX_FORMAT_REVISION \<and> ih_schemaRevision h < 2 ^ 16 \<and>
     ih_flags h < 2 ^ 32 \<and> ih_nodeCount h \<le> maxNodeCount \<and> ih_edgeCount h \<le> maxEdgeCount \<and>
     ih_termCount h \<le> maxTermCount \<and> ih_provenanceCount h \<le> maxProvenanceCount \<and>
     length (ih_snapshotHash h) = 32 \<and> length (ih_configHash h) = 32 \<and>
     ih_sectionCount h \<le> maxSectionCount"

definition header_in :: "bytes \<Rightarrow> index_header" where
  "header_in bs =
     \<lparr>ih_formatRevision = le_nat (sub_bytes 8 2 bs), ih_schemaRevision = le_nat (sub_bytes 10 2 bs),
      ih_flags = le_nat (sub_bytes 12 4 bs), ih_nodeCount = le_nat (sub_bytes 16 4 bs),
      ih_edgeCount = le_nat (sub_bytes 20 4 bs), ih_termCount = le_nat (sub_bytes 24 4 bs),
      ih_provenanceCount = le_nat (sub_bytes 28 4 bs), ih_snapshotHash = sub_bytes 32 32 bs,
      ih_configHash = sub_bytes 64 32 bs, ih_sectionCount = le_nat (sub_bytes 96 2 bs)\<rparr>"

lemma read_header_Ok:
  "readContextIndexHeader bs = Ok h \<longleftrightarrow>
     104 \<le> length bs \<and> sub_bytes 0 8 bs = CONTEXT_INDEX_MAGIC \<and>
     le_nat (sub_bytes 100 4 bs) = checksum_of (sub_bytes 0 100 bs) mod 2 ^ 32 \<and>
     le_nat (sub_bytes 98 2 bs) = 0 \<and> header_fits h \<and> h = header_in bs"
proof -
  have "le_nat (sub_bytes 10 2 bs) < 65536" "le_nat (sub_bytes 12 4 bs) < 4294967296" if "104 \<le> length bs"
    using that le_nat_sub_bytes_less [of 10 2 bs] le_nat_sub_bytes_less [of 12 4 bs] by simp_all
  then show ?thesis
    by (auto simp: readContextIndexHeader_def header_fits_def header_in_def CONTEXT_INDEX_HEADER_BYTES_def
        CONTEXT_INDEX_HASH_BYTES_def)
qed

lemma header_in_append:
  "104 \<le> length xs \<Longrightarrow> header_in (xs @ ys) = header_in xs"
  by (simp add: header_in_def sub_bytes_append_left)

lemma header_in_encoded:
  assumes "header_fits h"
  shows "header_in (encodeContextIndexHeader h) = h"
proof -
  have f: "sub_bytes i n (encodeContextIndexHeader h) = sub_bytes i n (header_body h)" if "i + n \<le> 100" for i n
    using that by (simp add: encodeContextIndexHeader_def sub_bytes_put_before)
  show ?thesis using assms
    by (simp add: header_in_def f header_body_fields le_nat_bytes fixedHash_id header_fits_def limit_defs
        CONTEXT_INDEX_FORMAT_REVISION_def)
qed

lemma header_roundtrip:
  assumes "header_fits h"
  shows "readContextIndexHeader (encodeContextIndexHeader h @ rest) = Ok h"
proof -
  let ?e = "encodeContextIndexHeader h"
  have len: "length (header_prefix h) = 100" by (simp add: header_prefix_def)
  have p: "sub_bytes 0 100 ?e = header_prefix h" "sub_bytes 100 4 ?e = le_bytes 4 (checksum_of (header_prefix h) mod 2 ^ 32)"
    by (simp_all add: encode_header_eq sub_bytes_def len)
  have f: "sub_bytes i n ?e = sub_bytes i n (header_body h)" if "i + n \<le> 100" for i n
    using that by (simp add: encodeContextIndexHeader_def sub_bytes_put_before)
  have a: "sub_bytes i n (?e @ rest) = sub_bytes i n ?e" if "i + n \<le> 104" for i n
    using that by (simp add: sub_bytes_append_left)
  have z: "le_nat (sub_bytes 98 2 ?e) = 0" using f [of 98 2] by (simp add: header_body_fields le_nat_bytes)
  show ?thesis
    unfolding read_header_Ok using assms
    by (simp add: a p z f [of 0 8] header_body_fields le_nat_bytes header_in_append header_in_encoded)
qed

text \<open>C31: the header format is canonical.  A header that is accepted keeps every count within its
  limit, and encoding what was read gives back the first 104 bytes of the file exactly, so no two
  different headers are read as the same one.\<close>

theorem accepted_header_is_canonical:
  "case readContextIndexHeader bs of
     Ok h \<Rightarrow> encodeContextIndexHeader h = take 104 bs \<and> header_fits h
   | Reject e \<Rightarrow> True
   | Refuse e \<Rightarrow> False
   | Thrown e \<Rightarrow> False"
proof (cases "readContextIndexHeader bs")
  case (Ok h)
  then have r: "104 \<le> length bs" "sub_bytes 0 8 bs = CONTEXT_INDEX_MAGIC"
    "le_nat (sub_bytes 100 4 bs) = checksum_of (sub_bytes 0 100 bs) mod 2 ^ 32"
    "le_nat (sub_bytes 98 2 bs) = 0" "header_fits h" "h = header_in bs"
    unfolding read_header_Ok by blast+
  have l: "le_bytes n (le_nat (sub_bytes i n bs)) = sub_bytes i n bs" if "i + n \<le> 104" for i n
    using that r(1) by (intro le_bytes_nat) simp
  have z: "le_bytes 2 0 = sub_bytes 98 2 bs" using l [of 98 2] r(4) by simp
  have "header_prefix h = sub_bytes 0 100 bs"
    unfolding hundred_bytes header_prefix_def using r(1)
    by (simp add: r(2,6) header_in_def l fixedHash_id z)
  then have "encodeContextIndexHeader h = sub_bytes 0 100 bs @ sub_bytes 100 4 bs"
    using l [of 100 4] unfolding encode_header_eq by (simp only: r(3))
  then show ?thesis using Ok r(5) sub_bytes_split [of 0 100 4 bs] by (simp add: sub_bytes_def)
next
  case (Refuse e)
  then have False
    by (simp add: readContextIndexHeader_def CONTEXT_INDEX_HEADER_BYTES_def require_def getUint_def
        contextIndexChecksum_def split: if_splits)
  then show ?thesis ..
next
  case (Thrown e)
  then have False
    by (simp add: readContextIndexHeader_def CONTEXT_INDEX_HEADER_BYTES_def require_def getUint_def
        contextIndexChecksum_def split: if_splits)
  then show ?thesis ..
qed simp

text \<open>C32: a header within the limits, written in front of anything, is read back as it was.\<close>

theorem header_reads_back:
  assumes "header_fits h"
  shows "readContextIndexHeader (encodeContextIndexHeader h @ rest) = Ok h"
  using assms by (rule header_roundtrip)

definition sample_header :: index_header where
  "sample_header =
     \<lparr>ih_formatRevision = 2, ih_schemaRevision = 1, ih_flags = 0, ih_nodeCount = 3, ih_edgeCount = 2,
      ih_termCount = 3, ih_provenanceCount = 1, ih_snapshotHash = replicate 32 1,
      ih_configHash = replicate 32 2, ih_sectionCount = 20\<rparr>"

theorem header_reads_back_witness:
  "readContextIndexHeader (encodeContextIndexHeader sample_header @ [7]) = Ok sample_header"
  by (rule header_reads_back) (simp add: header_fits_def sample_header_def limit_defs CONTEXT_INDEX_FORMAT_REVISION_def)

end
