(* ===== verification/Index_Layout.thy ===== *)
theory Index_Layout
  imports Index_Format
begin

text \<open>
  What an accepted section layout guarantees, and the assembler of \<open>runtime-index/writer-assemble.ts\<close>:
  a file it lays out is accepted by the three readers of \<open>format-header.ts\<close>, and every section is
  read back byte for byte.
\<close>

subsection \<open>Accepted layouts\<close>

definition section_end :: "section_descriptor \<Rightarrow> nat" where
  "section_end d = sd_offset d + sd_length d"

definition section_before :: "section_descriptor \<Rightarrow> section_descriptor \<Rightarrow> bool" where
  "section_before a b \<longleftrightarrow> section_end a \<le> sd_offset b"

definition section_in_bounds :: "bytes \<Rightarrow> nat \<Rightarrow> section_descriptor \<Rightarrow> bool" where
  "section_in_bounds bs tableEnd d \<longleftrightarrow>
     sd_length d \<le> maxSectionBytes \<and> section_end d \<le> maxFileBytes \<and>
     tableEnd \<le> sd_offset d \<and> section_end d \<le> length bs"

definition section_table_of :: "section_descriptor list \<Rightarrow> (nat \<rightharpoonup> section_descriptor)" where
  "section_table_of ds = map_of (map (\<lambda>d. (sd_kind d, d)) ds)"

definition section_intact :: "bytes \<Rightarrow> section_descriptor \<Rightarrow> bool" where
  "section_intact bs d \<longleftrightarrow> checksum_of (sub_bytes (sd_offset d) (sd_length d) bs) = sd_checksum d"

lemma section_table_None: "section_table_of ds k = None \<longleftrightarrow> k \<notin> sd_kind ` set ds"
  by (force simp: section_table_of_def map_of_eq_None_iff)

lemma section_table_Some: "section_table_of ds k = Some d \<Longrightarrow> d \<in> set ds \<and> sd_kind d = k"
  by (auto simp: section_table_of_def dest: map_of_SomeD)

lemma section_table_dom: "(\<exists>d. section_table_of ds k = Some d) \<longleftrightarrow> k \<in> sd_kind ` set ds"
  using section_table_None [of ds k] by (cases "section_table_of ds k") auto

lemma place_section_Ok:
  "place_section bs tableEnd d m = Ok m' \<longleftrightarrow>
     m (sd_kind d) = None \<and> section_in_bounds bs tableEnd d \<and> m' = m(sd_kind d \<mapsto> d)"
  by (auto simp: place_section_def section_in_bounds_def section_end_def)

lemma place_all:
  "each_row (place_section bs tableEnd) ds m = Ok m' \<longleftrightarrow>
     distinct (map sd_kind ds) \<and> (\<forall>d \<in> set ds. m (sd_kind d) = None) \<and>
     list_all (section_in_bounds bs tableEnd) ds \<and> m' = m ++ section_table_of ds"
proof (induction ds arbitrary: m)
  case (Cons d ds)
  have "(m(sd_kind d \<mapsto> d)) ++ section_table_of ds = m ++ section_table_of (d # ds)"
    if "sd_kind d \<notin> sd_kind ` set ds"
    using that section_table_None [of ds "sd_kind d"]
    by (auto simp: fun_eq_iff map_add_def section_table_of_def split: option.split)
  then show ?case
    by (auto simp: place_section_Ok Cons.IH split: if_splits) (force | metis image_eqI)+
qed (auto simp: section_table_of_def)

lemma no_overlap_Ok: "no_overlap ds = Ok u \<longleftrightarrow> sorted_wrt section_before ds"
proof -
  have "transp section_before"
    by (rule transpI) (simp add: section_before_def section_end_def)
  moreover have "no_overlap ds = Ok u \<longleftrightarrow> successively section_before ds"
    by (induction ds rule: no_overlap.induct) (auto simp: section_before_def section_end_def)
  ultimately show ?thesis by (simp add: successively_conv_sorted_wrt)
qed

lemma layout_Ok:
  "validateSectionLayout bs ds = Ok byKind \<longleftrightarrow>
     distinct (map sd_kind ds) \<and> list_all (section_in_bounds bs (descriptor_at (length ds))) ds \<and>
     sorted_wrt section_before (sort_key sd_offset ds) \<and>
     set CONTEXT_INDEX_REQUIRED_SECTIONS \<subseteq> sd_kind ` set ds \<and>
     list_all (section_intact bs) ds \<and> byKind = section_table_of ds"
proof -
  have "section_in_bounds bs t d \<Longrightarrow> section_intact bs d \<longleftrightarrow> check_section bs d = Ok ()" for t d
    by (auto simp: section_in_bounds_def section_end_def section_intact_def check_section_def)
  then have "list_all (section_in_bounds bs t) ds \<Longrightarrow>
      list_all (section_intact bs) ds \<longleftrightarrow> (\<forall>d \<in> set ds. check_section bs d = Ok ())" for t
    by (auto simp: list_all_iff)
  then show ?thesis
    by (auto simp: validateSectionLayout_def place_all no_overlap_Ok each_row_unit section_table_dom)
qed

text \<open>C33: in a layout that is accepted, the section kinds are distinct and complete, every section
  lies between the end of the section table and the end of the file, the sections taken in file
  order do not overlap, and the checksum of every section is the one recorded for it.\<close>

theorem accepted_layout_is_sound:
  "case validateSectionLayout bs ds of
     Ok byKind \<Rightarrow>
       byKind = section_table_of ds \<and> distinct (map sd_kind ds) \<and>
       set CONTEXT_INDEX_REQUIRED_SECTIONS \<subseteq> dom byKind \<and>
       list_all (\<lambda>d. descriptor_at (length ds) \<le> sd_offset d \<and> section_end d \<le> length bs) ds \<and>
       sorted_wrt section_before (sort_key sd_offset ds) \<and> list_all (section_intact bs) ds
   | _ \<Rightarrow> True"
proof (cases "validateSectionLayout bs ds")
  case (Ok byKind)
  then have l: "distinct (map sd_kind ds)" "list_all (section_in_bounds bs (descriptor_at (length ds))) ds"
    "sorted_wrt section_before (sort_key sd_offset ds)"
    "set CONTEXT_INDEX_REQUIRED_SECTIONS \<subseteq> sd_kind ` set ds"
    "list_all (section_intact bs) ds" "byKind = section_table_of ds"
    unfolding layout_Ok by blast+
  have "k \<in> dom byKind" if "k \<in> set CONTEXT_INDEX_REQUIRED_SECTIONS" for k
    using that l(4) section_table_None [of ds k] by (auto simp: l(6) dom_def)
  then show ?thesis using l by (auto simp: Ok list_all_iff section_in_bounds_def)
qed simp_all

subsection \<open>The section table\<close>

definition descriptor_fits :: "section_descriptor \<Rightarrow> bool" where
  "descriptor_fits d \<longleftrightarrow>
     sd_kind d \<in> set CONTEXT_INDEX_REQUIRED_SECTIONS \<and> sd_count d \<le> maxSectionCountValue \<and>
     sd_offset d < 2 ^ 64 \<and> sd_length d < 2 ^ 64 \<and> sd_checksum d < 2 ^ 64"

lemma encode_descriptor_length [simp]: "length (encodeSectionDescriptor d) = 32"
  by (simp add: encodeSectionDescriptor_def CONTEXT_INDEX_SECTION_DESCRIPTOR_BYTES_def)

lemma encode_descriptor_fields:
  "sub_bytes 0 4 (encodeSectionDescriptor d) = le_bytes 4 (sd_kind d)"
  "sub_bytes 4 4 (encodeSectionDescriptor d) = le_bytes 4 (sd_count d)"
  "sub_bytes 8 8 (encodeSectionDescriptor d) = le_bytes 8 (sd_offset d)"
  "sub_bytes 16 8 (encodeSectionDescriptor d) = le_bytes 8 (sd_length d)"
  "sub_bytes 24 8 (encodeSectionDescriptor d) = le_bytes 8 (sd_checksum d)"
  by (simp_all add: encodeSectionDescriptor_def CONTEXT_INDEX_SECTION_DESCRIPTOR_BYTES_def sub_bytes_put)

lemma descriptor_roundtrip:
  assumes "descriptor_fits d" "sub_bytes pos 32 bs = encodeSectionDescriptor d" "pos + 32 \<le> length bs"
  shows "read_descriptor bs pos = Ok d"
proof -
  have f: "sub_bytes (pos + i) n bs = sub_bytes i n (encodeSectionDescriptor d)" if "i + n \<le> 32" for i n
    using that assms(2) sub_bytes_sub_bytes [of i n 32 pos bs] by simp
  have "sd_kind d < 2 ^ 32" using assms(1) by (simp add: descriptor_fits_def CONTEXT_INDEX_REQUIRED_SECTIONS_def)
  then show ?thesis
    using assms f [of 0 4] by (simp add: read_descriptor_def f encode_descriptor_fields le_nat_bytes
        descriptor_fits_def limit_defs)
qed

lemma section_table_reads_back:
  assumes "length ds = ih_sectionCount h" "ih_sectionCount h \<le> maxSectionCount"
    "descriptor_at (length ds) \<le> length bs" "list_all descriptor_fits ds"
    "\<And>i. i < length ds \<Longrightarrow> sub_bytes (descriptor_at i) 32 bs = encodeSectionDescriptor (ds ! i)"
  shows "readSectionTable bs h = Ok ds"
proof -
  let ?f = "\<lambda>index ds'. bind_outcome (read_descriptor bs (descriptor_at index)) (\<lambda>d. Ok (ds' @ [d]))"
  have "each_row ?f [0..<n] [] = Ok (take n ds)" if "n \<le> length ds" for n
    using that
  proof (induction n)
    case (Suc n)
    have "read_descriptor bs (descriptor_at n) = Ok (ds ! n)"
    proof (rule descriptor_roundtrip)
      show "descriptor_at n + 32 \<le> length bs"
        using Suc.prems assms(3) by (simp add: descriptor_at_def CONTEXT_INDEX_SECTION_DESCRIPTOR_BYTES_def)
    qed (use Suc.prems assms in \<open>auto simp: list_all_length\<close>)
    with Suc show ?case by (simp add: each_row_append take_Suc_conv_app_nth)
  qed simp
  from this [of "length ds"] show ?thesis
    using assms(1-3) by (auto simp: readSectionTable_def descriptor_at_def limit_defs
        CONTEXT_INDEX_SECTION_DESCRIPTOR_BYTES_def)
qed

subsection \<open>The assembler\<close>

record assembled_counts =
  ac_schemaRevision :: nat
  ac_snapshotHash :: bytes
  ac_configHash :: bytes
  ac_nodeCount :: nat
  ac_edgeCount :: nat
  ac_termCount :: nat
  ac_provenanceCount :: nat

type_synonym section_payloads = "nat \<rightharpoonup> bytes \<times> nat"

definition lay_section ::
  "section_payloads \<Rightarrow> nat \<Rightarrow> section_descriptor list \<times> nat \<Rightarrow> (section_descriptor list \<times> nat) outcome" where
  "lay_section payloads kind acc =
     (case payloads kind of
        None \<Rightarrow> Reject section_missing
      | Some (payload, n) \<Rightarrow>
          Ok (fst acc @ [\<lparr>sd_kind = kind, sd_offset = snd acc, sd_length = length payload, sd_count = n,
                          sd_checksum = checksum_of payload\<rparr>],
              snd acc + length payload))"

definition assembled_header :: "assembled_counts \<Rightarrow> index_header" where
  "assembled_header ac =
     \<lparr>ih_formatRevision = CONTEXT_INDEX_FORMAT_REVISION, ih_schemaRevision = ac_schemaRevision ac,
      ih_flags = 0, ih_nodeCount = ac_nodeCount ac, ih_edgeCount = ac_edgeCount ac,
      ih_termCount = ac_termCount ac, ih_provenanceCount = ac_provenanceCount ac,
      ih_snapshotHash = ac_snapshotHash ac, ih_configHash = ac_configHash ac,
      ih_sectionCount = length CONTEXT_INDEX_REQUIRED_SECTIONS\<rparr>"

definition payload_of :: "section_payloads \<Rightarrow> nat \<Rightarrow> bytes" where
  "payload_of payloads kind = (case payloads kind of None \<Rightarrow> [] | Some (payload, _) \<Rightarrow> payload)"

definition assemble :: "section_payloads \<Rightarrow> assembled_counts \<Rightarrow> bytes outcome" where
  "assemble payloads ac =
     bind_outcome
       (each_row (lay_section payloads) CONTEXT_INDEX_REQUIRED_SECTIONS
          ([], descriptor_at (length CONTEXT_INDEX_REQUIRED_SECTIONS))) (\<lambda>(ds, cursor).
       Ok (fold (\<lambda>(d, kind). put (sd_offset d) (payload_of payloads kind))
             (zip ds CONTEXT_INDEX_REQUIRED_SECTIONS)
             (fold (\<lambda>(position, d). put (descriptor_at position) (encodeSectionDescriptor d)) (enumerate 0 ds)
               (put 0 (encodeContextIndexHeader (assembled_header ac)) (replicate cursor 0)))))"

subsection \<open>What the assembler writes is accepted\<close>

text \<open>Writes that follow each other fill a zeroed buffer from left to right.\<close>

fun consecutive :: "nat \<Rightarrow> (nat \<times> bytes) list \<Rightarrow> bool" where
  "consecutive start [] \<longleftrightarrow> True"
| "consecutive start ((pos, p) # writes) \<longleftrightarrow> pos = start \<and> consecutive (start + length p) writes"

lemma consecutive_fill:
  "consecutive (length xs) writes \<Longrightarrow> length (concat (map snd writes)) \<le> n \<Longrightarrow>
   fold (\<lambda>(pos, p). put pos p) writes (xs @ replicate n 0) =
     xs @ concat (map snd writes) @ replicate (n - length (concat (map snd writes))) 0"
proof (induction writes arbitrary: xs n)
  case (Cons w writes)
  obtain pos p where w: "w = (pos, p)" by fastforce
  have "put pos p (xs @ replicate n 0) = (xs @ p) @ replicate (n - length p) 0"
    using Cons.prems by (simp add: w put_def)
  then show ?case using Cons.IH [of "xs @ p" "n - length p"] Cons.prems by (simp add: w)
qed simp

lemma consecutiveI:
  "(\<And>i. i < length ws \<Longrightarrow> fst (ws ! i) = start + length (concat (map snd (take i ws)))) \<Longrightarrow>
   consecutive start ws"
proof (induction ws arbitrary: start)
  case (Cons w ws)
  obtain pos p where w: "w = (pos, p)" by fastforce
  have "consecutive (start + length p) ws"
    by (rule Cons.IH) (use Cons.prems [of "Suc _"] in \<open>simp add: w\<close>)
  then show ?case using Cons.prems [of 0] by (simp add: w)
qed simp

lemma length_concat_same: "(\<And>x. x \<in> set xs \<Longrightarrow> length (f x) = n) \<Longrightarrow> length (concat (map f xs)) = length xs * n"
  by (induction xs) auto

lemma sub_bytes_concat:
  "i < length ps \<Longrightarrow>
   sub_bytes (length xs + length (concat (take i ps))) (length (ps ! i)) (xs @ concat ps @ ys) = ps ! i"
  by (subst id_take_nth_drop [of i ps]) (simp_all add: sub_bytes_def)

definition laid_out :: "section_payloads \<Rightarrow> nat \<Rightarrow> nat \<Rightarrow> section_descriptor" where
  "laid_out payloads start i =
     (let kinds = CONTEXT_INDEX_REQUIRED_SECTIONS; kind = kinds ! i
      in \<lparr>sd_kind = kind, sd_offset = start + length (concat (map (payload_of payloads) (take i kinds))),
          sd_length = length (payload_of payloads kind), sd_count = snd (the (payloads kind)),
          sd_checksum = checksum_of (payload_of payloads kind)\<rparr>)"

lemma lay_all:
  assumes "set CONTEXT_INDEX_REQUIRED_SECTIONS \<subseteq> dom payloads" "n \<le> length CONTEXT_INDEX_REQUIRED_SECTIONS"
  shows "each_row (lay_section payloads) (take n CONTEXT_INDEX_REQUIRED_SECTIONS) ([], start) =
    Ok (map (laid_out payloads start) [0..<n],
        start + length (concat (map (payload_of payloads) (take n CONTEXT_INDEX_REQUIRED_SECTIONS))))"
  using assms(2)
proof (induction n)
  case (Suc n)
  let ?k = "CONTEXT_INDEX_REQUIRED_SECTIONS ! n"
  obtain payload m where p: "payloads ?k = Some (payload, m)"
    using assms(1) Suc.prems by (metis Suc_le_lessD domIff nth_mem option.exhaust subsetD surj_pair)
  then have "lay_section payloads ?k acc = Ok (fst acc @
      [\<lparr>sd_kind = ?k, sd_offset = snd acc, sd_length = length (payload_of payloads ?k), sd_count = m,
        sd_checksum = checksum_of (payload_of payloads ?k)\<rparr>], snd acc + length (payload_of payloads ?k))" for acc
    by (simp add: lay_section_def payload_of_def)
  then show ?case using Suc p
    by (simp add: take_Suc_conv_app_nth each_row_append laid_out_def Let_def)
qed simp

lemma lay_missing:
  assumes "each_row (lay_section payloads) kinds acc = Ok r"
  shows "set kinds \<subseteq> dom payloads"
  using assms by (induction kinds arbitrary: acc) (auto simp: lay_section_def split: option.splits)

lemma section_count: "length CONTEXT_INDEX_REQUIRED_SECTIONS = 20"
  by (simp add: CONTEXT_INDEX_REQUIRED_SECTIONS_def)

lemma assemble_eq:
  fixes payloads ac
  defines "kinds \<equiv> CONTEXT_INDEX_REQUIRED_SECTIONS"
    and "ds \<equiv> map (laid_out payloads 744) [0..<20]"
  assumes "set kinds \<subseteq> dom payloads"
  shows "assemble payloads ac =
    Ok (encodeContextIndexHeader (assembled_header ac) @ concat (map encodeSectionDescriptor ds) @
        concat (map (payload_of payloads) kinds))"
proof -
  define H where "H = encodeContextIndexHeader (assembled_header ac)"
  define D where "D = concat (map encodeSectionDescriptor ds)"
  define P where "P = concat (map (payload_of payloads) kinds)"
  have start: "descriptor_at 20 = 744"
    by (simp add: descriptor_at_def CONTEXT_INDEX_HEADER_BYTES_def CONTEXT_INDEX_SECTION_DESCRIPTOR_BYTES_def)
  have lay: "each_row (lay_section payloads) kinds ([], 744) = Ok (ds, 744 + length P)"
    using lay_all [of payloads 20 744] assms(3) by (simp add: kinds_def ds_def section_count P_def)
  have lenD: "length D = 640"
    by (simp add: D_def length_concat comp_def ds_def sum_list_triv)
  have lenH: "length H = 104" by (simp add: H_def)
  have "put 0 H (replicate (744 + length P) 0) = H @ replicate (640 + length P) 0"
    by (simp add: put_def lenH)
  moreover have "fold (\<lambda>(position, d). put (descriptor_at position) (encodeSectionDescriptor d)) (enumerate 0 ds)
      (H @ replicate (640 + length P) 0) = (H @ D) @ replicate (length P) 0"
  proof -
    let ?w = "map (\<lambda>(position, d). (descriptor_at position, encodeSectionDescriptor d)) (enumerate 0 ds)"
    have s: "map snd ?w = map encodeSectionDescriptor ds"
      by (rule nth_equalityI) (simp_all add: nth_enumerate_eq case_prod_beta)
    have "consecutive 104 ?w"
    proof (rule consecutiveI)
      fix i assume "i < length ?w"
      moreover have "length (concat (map snd (take i ?w))) = i * 32" if "i \<le> length ds"
      proof -
        have "map snd (take i ?w) = map encodeSectionDescriptor (take i ds)" using s by (metis take_map)
        then show ?thesis using that length_concat_same [of "take i ds" encodeSectionDescriptor 32] by simp
      qed
      ultimately show "fst (?w ! i) = 104 + length (concat (map snd (take i ?w)))"
        by (simp add: nth_enumerate_eq case_prod_beta descriptor_at_def CONTEXT_INDEX_HEADER_BYTES_def
            CONTEXT_INDEX_SECTION_DESCRIPTOR_BYTES_def)
    qed
    then show ?thesis using consecutive_fill [of H ?w "640 + length P"]
      unfolding s by (simp add: fold_map comp_def case_prod_unfold D_def [symmetric] lenD lenH)
  qed
  moreover have "fold (\<lambda>(d, kind). put (sd_offset d) (payload_of payloads kind)) (zip ds kinds)
      ((H @ D) @ replicate (length P) 0) = (H @ D) @ P"
  proof -
    let ?w = "map (\<lambda>(d, kind). (sd_offset d, payload_of payloads kind)) (zip ds kinds)"
    have s: "map snd ?w = map (payload_of payloads) kinds"
      by (rule nth_equalityI) (simp_all add: ds_def kinds_def section_count)
    have "consecutive 744 ?w"
    proof (rule consecutiveI)
      fix i assume i: "i < length ?w"
      have "map snd (take i ?w) = map (payload_of payloads) (take i kinds)"
        using s by (metis take_map)
      then show "fst (?w ! i) = 744 + length (concat (map snd (take i ?w)))"
        using i by (simp add: ds_def kinds_def section_count laid_out_def Let_def)
    qed
    then show ?thesis using consecutive_fill [of "H @ D" ?w "length P"]
      unfolding s by (simp add: fold_map comp_def case_prod_unfold P_def [symmetric] lenD lenH)
  qed
  ultimately show ?thesis
    by (simp add: assemble_def section_count start lay [unfolded kinds_def] H_def D_def P_def kinds_def)
qed

definition assembled_descriptors :: "section_payloads \<Rightarrow> section_descriptor list" where
  "assembled_descriptors payloads = map (laid_out payloads 744) [0..<20]"

text \<open>What the writer must have respected: the counts and the sizes are within the format's limits.\<close>

definition payloads_fit :: "section_payloads \<Rightarrow> bool" where
  "payloads_fit payloads \<longleftrightarrow>
     list_all (\<lambda>k. case payloads k of
         None \<Rightarrow> False
       | Some (payload, n) \<Rightarrow> length payload \<le> maxSectionBytes \<and> n \<le> maxSectionCountValue)
       CONTEXT_INDEX_REQUIRED_SECTIONS \<and>
     744 + length (concat (map (payload_of payloads) CONTEXT_INDEX_REQUIRED_SECTIONS)) \<le> maxFileBytes"

lemma payloads_fit_dom: "payloads_fit payloads \<Longrightarrow> set CONTEXT_INDEX_REQUIRED_SECTIONS \<subseteq> dom payloads"
  by (auto simp: payloads_fit_def list_all_iff split: option.splits)

lemma length_concat_take: "length (concat (take i xss)) \<le> length (concat xss)"
  by (metis append_take_drop_id concat_append le_add1 length_append)

lemma laid_out_end:
  assumes "i < 20"
  shows "section_end (laid_out payloads s i) =
      s + length (concat (map (payload_of payloads) (take (Suc i) CONTEXT_INDEX_REQUIRED_SECTIONS)))"
  using assms by (simp add: section_end_def laid_out_def Let_def take_Suc_conv_app_nth section_count)

lemma laid_out_sorted: "sorted_wrt section_before (map (laid_out payloads s) [0..<n])" if "n \<le> 20"
proof -
  have "section_before (laid_out payloads s i) (laid_out payloads s j)" if "i < j" "j < 20" for i j
  proof -
    let ?f = "\<lambda>m. length (concat (map (payload_of payloads) (take m CONTEXT_INDEX_REQUIRED_SECTIONS)))"
    have "?f (Suc i) \<le> ?f j"
      using that length_concat_take [of "Suc i" "map (payload_of payloads) (take j CONTEXT_INDEX_REQUIRED_SECTIONS)"]
      by (simp add: take_map min_def)
    then show ?thesis using that by (simp add: section_before_def laid_out_end) (simp add: laid_out_def Let_def)
  qed
  then show ?thesis using that by (simp add: sorted_wrt_map sorted_wrt_iff_nth_less)
qed

lemma assembled_kinds: "map sd_kind (assembled_descriptors payloads) = CONTEXT_INDEX_REQUIRED_SECTIONS"
  by (rule nth_equalityI) (simp_all add: assembled_descriptors_def section_count laid_out_def Let_def)

lemma assemble_accepted:
  assumes "payloads_fit payloads" "header_fits (assembled_header ac)"
  shows "\<exists>bs. assemble payloads ac = Ok bs \<and>
    readContextIndexHeader bs = Ok (assembled_header ac) \<and>
    readSectionTable bs (assembled_header ac) = Ok (assembled_descriptors payloads) \<and>
    validateSectionLayout bs (assembled_descriptors payloads) =
      Ok (section_table_of (assembled_descriptors payloads)) \<and>
    map (\<lambda>d. sub_bytes (sd_offset d) (sd_length d) bs) (assembled_descriptors payloads) =
      map (payload_of payloads) CONTEXT_INDEX_REQUIRED_SECTIONS"
proof -
  define ds where "ds = assembled_descriptors payloads"
  define H where "H = encodeContextIndexHeader (assembled_header ac)"
  define D where "D = concat (map encodeSectionDescriptor ds)"
  define ps where "ps = map (payload_of payloads) CONTEXT_INDEX_REQUIRED_SECTIONS"
  define bs where "bs = H @ D @ concat ps"
  have len: "length ds = 20" "length H = 104" "length D = 640" "length ps = 20"
    by (simp_all add: ds_def assembled_descriptors_def H_def D_def length_concat_same ps_def section_count)
  have a: "assemble payloads ac = Ok bs"
    using assemble_eq [OF payloads_fit_dom [OF assms(1)]]
    by (simp add: bs_def H_def D_def ds_def assembled_descriptors_def ps_def)
  have h: "readContextIndexHeader bs = Ok (assembled_header ac)"
    unfolding bs_def H_def by (rule header_roundtrip [OF assms(2)])
  have sec: "sub_bytes (sd_offset (ds ! i)) (sd_length (ds ! i)) bs = ps ! i" if "i < 20" for i
    using sub_bytes_concat [of i ps "H @ D" "[]"] that len
    by (simp add: bs_def ds_def assembled_descriptors_def laid_out_def Let_def ps_def take_map section_count add.assoc)
  have total: "744 + length (concat ps) = length bs" by (simp add: bs_def len)
  have small: "length bs \<le> maxFileBytes" using assms(1) total by (simp add: payloads_fit_def ps_def)
  have ending: "section_end (ds ! i) \<le> length bs" "744 \<le> sd_offset (ds ! i)" if "i < 20" for i
    using that length_concat_take [of "Suc i" ps] total
    by (simp_all add: ds_def assembled_descriptors_def laid_out_end ps_def take_map)
      (simp add: laid_out_def Let_def)
  have each: "case payloads (sd_kind (ds ! i)) of None \<Rightarrow> False
      | Some (payload, n) \<Rightarrow> sd_length (ds ! i) \<le> maxSectionBytes \<and> sd_count (ds ! i) \<le> maxSectionCountValue"
    if "i < 20" for i
    using that assms(1)
    by (auto simp: ds_def assembled_descriptors_def laid_out_def Let_def payloads_fit_def list_all_length
        section_count payload_of_def split: option.splits)
  have fits: "descriptor_fits (ds ! i)" "section_in_bounds bs 744 (ds ! i)" "section_intact bs (ds ! i)" if "i < 20" for i
  proof -
    show "section_intact bs (ds ! i)" using sec [OF that] that
      by (simp add: section_intact_def) (simp add: ds_def assembled_descriptors_def laid_out_def Let_def ps_def section_count)
    have k: "sd_kind (ds ! i) \<in> set CONTEXT_INDEX_REQUIRED_SECTIONS"
      using that by (simp add: ds_def assembled_descriptors_def laid_out_def Let_def section_count)
    have c: "sd_checksum (ds ! i) < 2 ^ 64"
      using that checksum_less by (simp add: ds_def assembled_descriptors_def laid_out_def Let_def)
    show "section_in_bounds bs 744 (ds ! i)" "descriptor_fits (ds ! i)"
      using each [OF that] ending [OF that] small k c
      by (auto simp: section_in_bounds_def descriptor_fits_def section_end_def limit_defs split: option.splits)
  qed
  have start: "descriptor_at (length ds) = 744"
    by (simp add: len descriptor_at_def CONTEXT_INDEX_HEADER_BYTES_def CONTEXT_INDEX_SECTION_DESCRIPTOR_BYTES_def)
  have t: "readSectionTable bs (assembled_header ac) = Ok ds"
  proof (rule section_table_reads_back)
    fix i assume "i < length ds"
    then show "sub_bytes (descriptor_at i) 32 bs = encodeSectionDescriptor (ds ! i)"
      using sub_bytes_concat [of i "map encodeSectionDescriptor ds" H "concat ps"]
        length_concat_same [of "take i ds" encodeSectionDescriptor 32]
      by (simp add: bs_def D_def len take_map descriptor_at_def CONTEXT_INDEX_HEADER_BYTES_def
          CONTEXT_INDEX_SECTION_DESCRIPTOR_BYTES_def)
  qed (use fits total in \<open>auto simp: assembled_header_def section_count len start [unfolded len] list_all_length limit_defs\<close>)
  have "sorted_wrt section_before ds"
    using laid_out_sorted by (simp add: ds_def assembled_descriptors_def)
  moreover from this have "sorted (map sd_offset ds)"
    unfolding sorted_map by (rule sorted_wrt_mono_rel [rotated]) (auto simp: section_before_def section_end_def)
  then have "sort_key sd_offset ds = ds" by (simp add: sort_key_id_if_sorted)
  moreover have k: "map sd_kind ds = CONTEXT_INDEX_REQUIRED_SECTIONS"
    unfolding ds_def by (rule assembled_kinds)
  moreover from k have "sd_kind ` set ds = set CONTEXT_INDEX_REQUIRED_SECTIONS" by (metis image_set)
  moreover have "distinct CONTEXT_INDEX_REQUIRED_SECTIONS" by (simp add: CONTEXT_INDEX_REQUIRED_SECTIONS_def)
  moreover have "list_all (section_in_bounds bs 744) ds" "list_all (section_intact bs) ds"
    using fits by (simp_all add: list_all_length len)
  ultimately have v: "validateSectionLayout bs ds = Ok (section_table_of ds)"
    unfolding layout_Ok start by (metis order_refl)
  have s: "map (\<lambda>d. sub_bytes (sd_offset d) (sd_length d) bs) ds = ps"
    by (rule nth_equalityI) (simp_all add: len sec)
  show ?thesis using a h t v s by (auto simp: ds_def ps_def)
qed

text \<open>C34: a file the assembler lays out from payloads within the limits is accepted: the header reads
  back as the one written, the section table reads back, the layout is valid, and each section of the
  file holds exactly the bytes of its payload.\<close>

theorem assembled_file_is_accepted:
  assumes "payloads_fit payloads" "header_fits (assembled_header ac)"
  shows "\<exists>bs. assemble payloads ac = Ok bs \<and>
    readContextIndexHeader bs = Ok (assembled_header ac) \<and>
    readSectionTable bs (assembled_header ac) = Ok (assembled_descriptors payloads) \<and>
    validateSectionLayout bs (assembled_descriptors payloads) =
      Ok (section_table_of (assembled_descriptors payloads)) \<and>
    map (\<lambda>d. sub_bytes (sd_offset d) (sd_length d) bs) (assembled_descriptors payloads) =
      map (payload_of payloads) CONTEXT_INDEX_REQUIRED_SECTIONS"
  by (rule assemble_accepted [OF assms])

definition sample_counts :: assembled_counts where
  "sample_counts =
     \<lparr>ac_schemaRevision = 1, ac_snapshotHash = replicate 32 1, ac_configHash = replicate 32 2,
      ac_nodeCount = 0, ac_edgeCount = 0, ac_termCount = 0, ac_provenanceCount = 0\<rparr>"

definition sample_payloads :: section_payloads where
  "sample_payloads = (\<lambda>_. Some ([0, 0, 0, 0], 1))"

theorem assembled_file_is_accepted_witness:
  "\<exists>bs. assemble sample_payloads sample_counts = Ok bs \<and>
    readContextIndexHeader bs = Ok (assembled_header sample_counts) \<and>
    readSectionTable bs (assembled_header sample_counts) = Ok (assembled_descriptors sample_payloads) \<and>
    validateSectionLayout bs (assembled_descriptors sample_payloads) =
      Ok (section_table_of (assembled_descriptors sample_payloads)) \<and>
    map (\<lambda>d. sub_bytes (sd_offset d) (sd_length d) bs) (assembled_descriptors sample_payloads) =
      map (payload_of sample_payloads) CONTEXT_INDEX_REQUIRED_SECTIONS"
proof (rule assembled_file_is_accepted)
  show "payloads_fit sample_payloads"
    using length_concat_same [of CONTEXT_INDEX_REQUIRED_SECTIONS "payload_of sample_payloads" 4]
    by (simp add: payloads_fit_def sample_payloads_def payload_of_def section_count limit_defs list_all_iff)
  show "header_fits (assembled_header sample_counts)"
    by (simp add: header_fits_def assembled_header_def sample_counts_def section_count limit_defs)
qed

end
