(* ===== verification/Index_Validate.thy ===== *)
theory Index_Validate
  imports Index_Layout Graph_Contracts
begin

text \<open>
  Opening an index: the payload checks of \<open>runtime-index/format-sections.ts\<close> and
  \<open>reader-validate.ts\<close>, the geometry and the string table of \<open>reader-layout.ts\<close>, and
  \<open>openContextIndex\<close> of \<open>reader.ts\<close>.  The fatal UTF-8 decoder of the platform is written out; a
  decoded string is the list of its UTF-16 code units, which is what JavaScript compares.
\<close>

subsection \<open>Strings\<close>

definition utf8_tail :: "nat \<Rightarrow> bool" where
  "utf8_tail b \<longleftrightarrow> 0x80 \<le> b \<and> b \<le> 0xBF"

fun utf8_scalars :: "nat list \<Rightarrow> nat list option" where
  "utf8_scalars [] = Some []"
| "utf8_scalars (a # rest) =
     (if a < 0x80 then map_option (Cons a) (utf8_scalars rest)
      else if 0xC2 \<le> a \<and> a \<le> 0xDF then
        (case rest of
           b # rest' \<Rightarrow>
             if utf8_tail b then map_option (Cons ((a - 0xC0) * 0x40 + (b - 0x80))) (utf8_scalars rest')
             else None
         | _ \<Rightarrow> None)
      else if 0xE0 \<le> a \<and> a \<le> 0xEF then
        (case rest of
           b # c # rest' \<Rightarrow>
             if utf8_tail b \<and> utf8_tail c \<and> (a = 0xE0 \<longrightarrow> 0xA0 \<le> b) \<and> (a = 0xED \<longrightarrow> b \<le> 0x9F)
             then map_option (Cons ((a - 0xE0) * 0x1000 + (b - 0x80) * 0x40 + (c - 0x80))) (utf8_scalars rest')
             else None
         | _ \<Rightarrow> None)
      else if 0xF0 \<le> a \<and> a \<le> 0xF4 then
        (case rest of
           b # c # d # rest' \<Rightarrow>
             if utf8_tail b \<and> utf8_tail c \<and> utf8_tail d \<and> (a = 0xF0 \<longrightarrow> 0x90 \<le> b) \<and> (a = 0xF4 \<longrightarrow> b \<le> 0x8F)
             then map_option (Cons ((a - 0xF0) * 0x40000 + (b - 0x80) * 0x1000 + (c - 0x80) * 0x40 + (d - 0x80)))
                    (utf8_scalars rest')
             else None
         | _ \<Rightarrow> None)
      else None)"

definition utf16_units :: "nat \<Rightarrow> nat list" where
  "utf16_units c =
     (if c < 0x10000 then [c] else [0xD800 + (c - 0x10000) div 0x400, 0xDC00 + (c - 0x10000) mod 0x400])"

text \<open>The decoder drops one leading byte order mark.\<close>

definition utf8_decode :: "bytes \<Rightarrow> nat list outcome" where
  "utf8_decode bs =
     (let body = (if take 3 bs = [0xEF, 0xBB, 0xBF] then drop 3 bs else bs)
      in case utf8_scalars (map unat body) of
           None \<Rightarrow> Thrown TypeError
         | Some cs \<Rightarrow> Ok (concat (map utf16_units cs)))"

fun code_unit_less :: "nat list \<Rightarrow> nat list \<Rightarrow> bool" where
  "code_unit_less xs [] \<longleftrightarrow> False"
| "code_unit_less [] (y # ys) \<longleftrightarrow> True"
| "code_unit_less (x # xs) (y # ys) \<longleftrightarrow> x < y \<or> x = y \<and> code_unit_less xs ys"

subsection \<open>Section payloads\<close>

definition section_view :: "bytes \<Rightarrow> section_descriptor \<Rightarrow> bytes outcome" where
  "section_view bs d = window bs (sd_offset d) (sd_length d)"

definition string_offset_step :: "bytes \<Rightarrow> nat \<Rightarrow> nat \<Rightarrow> nat \<Rightarrow> nat \<Rightarrow> nat outcome" where
  "string_offset_step view blobStart len index previous =
     bind_outcome (getUint32 view (index * 4)) (\<lambda>ending.
     bind_outcome (require (previous \<le> ending) string_offset_invalid) (\<lambda>_.
     bind_outcome (require (blobStart + ending \<le> len) string_offset_invalid) (\<lambda>_. Ok ending)))"

definition validateStringTable :: "bytes \<Rightarrow> section_descriptor \<Rightarrow> unit outcome" where
  "validateStringTable bs d =
     (let start = sd_offset d; len = sd_length d; indexBytes = sd_count d * 4
      in bind_outcome (require (indexBytes \<le> len) string_offset_invalid) (\<lambda>_.
         bind_outcome (section_view bs d) (\<lambda>view.
         bind_outcome (each_row (string_offset_step view indexBytes len) [0..<sd_count d] 0) (\<lambda>previous.
           case utf8_decode (sub_bytes (start + indexBytes) previous bs) of
             Ok _ \<Rightarrow> Ok ()
           | _ \<Rightarrow> Reject string_not_utf8))))"

definition csr_step :: "bytes \<Rightarrow> nat \<Rightarrow> nat \<Rightarrow> nat outcome" where
  "csr_step view index previous =
     bind_outcome (getUint32 view (index * 4)) (\<lambda>v.
     bind_outcome (require (previous \<le> v) csr_not_monotonic) (\<lambda>_. Ok v))"

definition validateCsrOffsets ::
  "bytes \<Rightarrow> section_descriptor \<Rightarrow> section_descriptor \<Rightarrow> nat \<Rightarrow> unit outcome" where
  "validateCsrOffsets bs offsets edges nodeCount =
     bind_outcome (require (sd_count offsets = nodeCount + 1) csr_length_mismatch) (\<lambda>_.
     bind_outcome (section_view bs offsets) (\<lambda>view.
     bind_outcome (require (sd_count offsets * 4 \<le> sd_length offsets) csr_length_mismatch) (\<lambda>_.
     bind_outcome (each_row (csr_step view) [0..<sd_count offsets] 0) (\<lambda>previous.
       require (previous = sd_count edges) csr_length_mismatch))))"

definition validateReferenceRange ::
  "bytes \<Rightarrow> section_descriptor \<Rightarrow> nat \<Rightarrow> nat \<Rightarrow> nat \<Rightarrow> unit outcome" where
  "validateReferenceRange bs d stride fieldOffset exclusiveMax =
     bind_outcome (require (sd_count d * stride \<le> sd_length d) reference_out_of_range) (\<lambda>_.
     bind_outcome (section_view bs d) (\<lambda>view.
       each_row (\<lambda>index u.
         bind_outcome (getUint32 view (index * stride + fieldOffset)) (\<lambda>v.
           require (v < exclusiveMax) reference_out_of_range)) [0..<sd_count d] ()))"

subsection \<open>Row layouts\<close>

definition CONTEXT_INDEX_NODE_ROW_BYTES :: nat where "CONTEXT_INDEX_NODE_ROW_BYTES = 40"
definition CONTEXT_INDEX_EDGE_ROW_BYTES :: nat where "CONTEXT_INDEX_EDGE_ROW_BYTES = 16"
definition CONTEXT_INDEX_PROVENANCE_ROW_BYTES :: nat where "CONTEXT_INDEX_PROVENANCE_ROW_BYTES = 16"
definition CONTEXT_INDEX_TERM_ROW_BYTES :: nat where "CONTEXT_INDEX_TERM_ROW_BYTES = 12"
definition CONTEXT_INDEX_METADATA_ROW_BYTES :: nat where "CONTEXT_INDEX_METADATA_ROW_BYTES = 16"
definition CONTEXT_INDEX_SOURCE_HASH_ROW_BYTES :: nat where "CONTEXT_INDEX_SOURCE_HASH_ROW_BYTES = 8"
definition CONTEXT_INDEX_METADATA_TYPE_COUNT :: nat where "CONTEXT_INDEX_METADATA_TYPE_COUNT = 6"
definition METADATA_ARRAY_ELEMENT :: nat where "METADATA_ARRAY_ELEMENT = 4"
definition CONTEXT_INDEX_NO_VALUE :: nat where "CONTEXT_INDEX_NO_VALUE = 0xffffffff"

definition NODE_KIND_AT :: nat where "NODE_KIND_AT = 0"
definition NODE_FRESHNESS_AT :: nat where "NODE_FRESHNESS_AT = 1"
definition NODE_RISK_AT :: nat where "NODE_RISK_AT = 2"
definition NODE_FLAGS_AT :: nat where "NODE_FLAGS_AT = 3"
definition NODE_TRUST_AT :: nat where "NODE_TRUST_AT = 4"
definition NODE_TOKEN_COST_AT :: nat where "NODE_TOKEN_COST_AT = 8"
definition NODE_LABEL_AT :: nat where "NODE_LABEL_AT = 12"
definition NODE_PATH_AT :: nat where "NODE_PATH_AT = 16"
definition NODE_LINE_AT :: nat where "NODE_LINE_AT = 20"
definition NODE_COLUMN_AT :: nat where "NODE_COLUMN_AT = 24"
definition NODE_CONTENT_HASH_AT :: nat where "NODE_CONTENT_HASH_AT = 28"
definition NODE_GROUP_AT :: nat where "NODE_GROUP_AT = 32"
definition NODE_ID_AT :: nat where "NODE_ID_AT = 36"
definition EDGE_TARGET_AT :: nat where "EDGE_TARGET_AT = 0"
definition EDGE_TYPE_AT :: nat where "EDGE_TYPE_AT = 4"
definition EDGE_CONFIDENCE_AT :: nat where "EDGE_CONFIDENCE_AT = 5"
definition EDGE_FLAGS_AT :: nat where "EDGE_FLAGS_AT = 6"
definition EDGE_PROVENANCE_AT :: nat where "EDGE_PROVENANCE_AT = 8"
definition EDGE_PROFILE_MASK_AT :: nat where "EDGE_PROFILE_MASK_AT = 12"
definition METADATA_NODE_AT :: nat where "METADATA_NODE_AT = 0"
definition METADATA_KEY_AT :: nat where "METADATA_KEY_AT = 4"
definition METADATA_VALUE_AT :: nat where "METADATA_VALUE_AT = 8"
definition METADATA_TYPE_AT :: nat where "METADATA_TYPE_AT = 12"
definition METADATA_ORDINAL_AT :: nat where "METADATA_ORDINAL_AT = 14"
definition PROVENANCE_PATH_AT :: nat where "PROVENANCE_PATH_AT = 0"
definition PROVENANCE_LINE_AT :: nat where "PROVENANCE_LINE_AT = 4"
definition PROVENANCE_HASH_AT :: nat where "PROVENANCE_HASH_AT = 8"
definition PROVENANCE_EXTRACTOR_AT :: nat where "PROVENANCE_EXTRACTOR_AT = 12"
definition TERM_ID_AT :: nat where "TERM_ID_AT = 0"
definition TERM_POSTING_START_AT :: nat where "TERM_POSTING_START_AT = 4"
definition TERM_POSTING_COUNT_AT :: nat where "TERM_POSTING_COUNT_AT = 8"
definition SOURCE_HASH_PATH_AT :: nat where "SOURCE_HASH_PATH_AT = 0"
definition SOURCE_HASH_HASH_AT :: nat where "SOURCE_HASH_HASH_AT = 4"

lemmas row_bytes_defs =
  CONTEXT_INDEX_NODE_ROW_BYTES_def CONTEXT_INDEX_EDGE_ROW_BYTES_def CONTEXT_INDEX_PROVENANCE_ROW_BYTES_def
  CONTEXT_INDEX_TERM_ROW_BYTES_def CONTEXT_INDEX_METADATA_ROW_BYTES_def CONTEXT_INDEX_SOURCE_HASH_ROW_BYTES_def

lemmas row_field_defs =
  NODE_KIND_AT_def NODE_FRESHNESS_AT_def NODE_RISK_AT_def NODE_FLAGS_AT_def NODE_TRUST_AT_def
  NODE_TOKEN_COST_AT_def NODE_LABEL_AT_def NODE_PATH_AT_def NODE_LINE_AT_def NODE_COLUMN_AT_def
  NODE_CONTENT_HASH_AT_def NODE_GROUP_AT_def NODE_ID_AT_def EDGE_TARGET_AT_def EDGE_TYPE_AT_def
  EDGE_CONFIDENCE_AT_def EDGE_FLAGS_AT_def EDGE_PROVENANCE_AT_def EDGE_PROFILE_MASK_AT_def
  METADATA_NODE_AT_def METADATA_KEY_AT_def METADATA_VALUE_AT_def METADATA_TYPE_AT_def
  METADATA_ORDINAL_AT_def PROVENANCE_PATH_AT_def PROVENANCE_LINE_AT_def PROVENANCE_HASH_AT_def
  PROVENANCE_EXTRACTOR_AT_def TERM_ID_AT_def TERM_POSTING_START_AT_def TERM_POSTING_COUNT_AT_def
  SOURCE_HASH_PATH_AT_def SOURCE_HASH_HASH_AT_def

subsection \<open>The whole file\<close>

type_synonym section_map = "nat \<rightharpoonup> section_descriptor"

definition sectionOf :: "section_map \<Rightarrow> section_kind \<Rightarrow> section_descriptor outcome" where
  "sectionOf byKind kind =
     (case byKind (CONTEXT_INDEX_SECTION kind) of None \<Rightarrow> Reject section_missing | Some d \<Rightarrow> Ok d)"

definition requireCount :: "nat \<Rightarrow> nat \<Rightarrow> unit outcome" where
  "requireCount actual expected = require (actual = expected) count_limit_exceeded"

definition CONTEXT_INDEX_FIXED_STRIDE_SECTIONS :: "(section_kind \<times> nat) list" where
  "CONTEXT_INDEX_FIXED_STRIDE_SECTIONS =
     [(NODE_TABLE, CONTEXT_INDEX_NODE_ROW_BYTES), (NODE_METADATA, CONTEXT_INDEX_METADATA_ROW_BYTES),
      (EDGE_TABLE, CONTEXT_INDEX_EDGE_ROW_BYTES), (OUT_CSR_OFFSETS, 4), (OUT_CSR_EDGES, 4),
      (IN_CSR_OFFSETS, 4), (IN_CSR_EDGES, 4), (EXACT_TERM_TABLE, CONTEXT_INDEX_TERM_ROW_BYTES),
      (EXACT_POSTINGS, 4), (BASENAME_TABLE, CONTEXT_INDEX_TERM_ROW_BYTES), (BASENAME_POSTINGS, 4),
      (LEXICON_TABLE, CONTEXT_INDEX_TERM_ROW_BYTES), (LEXICON_POSTINGS, 4),
      (COARSE_TERM_TABLE, CONTEXT_INDEX_TERM_ROW_BYTES), (COARSE_POSTINGS, 4),
      (PROVENANCE_TABLE, CONTEXT_INDEX_PROVENANCE_ROW_BYTES), (GROUP_TABLE, 4), (CYCLE_TABLE, 4),
      (SOURCE_HASH_TABLE, CONTEXT_INDEX_SOURCE_HASH_ROW_BYTES)]"

definition requireExactRows :: "section_descriptor \<Rightarrow> nat \<Rightarrow> unit outcome" where
  "requireExactRows d stride = require (sd_count d * stride = sd_length d) count_limit_exceeded"

text \<open>The four \<open>previous\<close> variables of the loop start at \<open>-1\<close>.\<close>

record metadata_scan =
  ms_node :: int
  ms_key :: int
  ms_ordinal :: int
  ms_type :: int

definition metadata_step :: "bytes \<Rightarrow> nat \<Rightarrow> metadata_scan \<Rightarrow> metadata_scan outcome" where
  "metadata_step view row previous =
     (let pos = row * CONTEXT_INDEX_METADATA_ROW_BYTES
      in bind_outcome (getUint32 view (pos + METADATA_NODE_AT)) (\<lambda>node.
         bind_outcome (getUint32 view (pos + METADATA_KEY_AT)) (\<lambda>key.
         bind_outcome (getUint16 view (pos + METADATA_TYPE_AT)) (\<lambda>type.
         bind_outcome (getUint16 view (pos + METADATA_ORDINAL_AT)) (\<lambda>ordinal.
         bind_outcome (require (type < CONTEXT_INDEX_METADATA_TYPE_COUNT) reference_out_of_range) (\<lambda>_.
           let continues = (int node = ms_node previous \<and> int key = ms_key previous);
               ascends = (ms_node previous < int node \<or>
                          int node = ms_node previous \<and> ms_key previous < int key \<or>
                          continues \<and> ms_ordinal previous < int ordinal)
           in bind_outcome (require ascends csr_not_monotonic) (\<lambda>_.
              bind_outcome
                (if continues
                 then require (type = METADATA_ARRAY_ELEMENT \<and> ms_type previous = int METADATA_ARRAY_ELEMENT \<and>
                               int ordinal = ms_ordinal previous + 1) csr_not_monotonic
                 else require (ordinal = 0) csr_not_monotonic) (\<lambda>_.
              Ok \<lparr>ms_node = int node, ms_key = int key, ms_ordinal = int ordinal, ms_type = int type\<rparr>))))))))"

definition validateMetadataRows :: "bytes \<Rightarrow> section_descriptor \<Rightarrow> unit outcome" where
  "validateMetadataRows bs metadata =
     (if sd_count metadata = 0 then Ok ()
      else bind_outcome (section_view bs metadata) (\<lambda>view.
           bind_outcome (each_row (metadata_step view) [0..<sd_count metadata]
                           \<lparr>ms_node = - 1, ms_key = - 1, ms_ordinal = - 1, ms_type = - 1\<rparr>) (\<lambda>_. Ok ())))"

definition term_step :: "bytes \<Rightarrow> nat \<Rightarrow> nat \<Rightarrow> int \<Rightarrow> int outcome" where
  "term_step view available row previousTermId =
     (let pos = row * CONTEXT_INDEX_TERM_ROW_BYTES
      in bind_outcome (getUint32 view (pos + TERM_ID_AT)) (\<lambda>termId.
         bind_outcome (require (previousTermId < int termId) csr_not_monotonic) (\<lambda>_.
         bind_outcome (getUint32 view (pos + TERM_POSTING_START_AT)) (\<lambda>start.
         bind_outcome (getUint32 view (pos + TERM_POSTING_COUNT_AT)) (\<lambda>n.
         bind_outcome (require (start + n \<le> available) reference_out_of_range) (\<lambda>_. Ok (int termId)))))))"

definition validateTermTable ::
  "bytes \<Rightarrow> section_descriptor \<Rightarrow> section_descriptor \<Rightarrow> nat \<Rightarrow> nat \<Rightarrow> unit outcome" where
  "validateTermTable bs table postings stringCount nodeCount =
     bind_outcome (validateReferenceRange bs table CONTEXT_INDEX_TERM_ROW_BYTES TERM_ID_AT stringCount) (\<lambda>_.
     bind_outcome (validateReferenceRange bs postings 4 0 nodeCount) (\<lambda>_.
     bind_outcome (section_view bs table) (\<lambda>view.
     bind_outcome (each_row (term_step view (sd_count postings)) [0..<sd_count table] (- 1)) (\<lambda>_. Ok ()))))"

definition checkCode :: "nat \<Rightarrow> nat \<Rightarrow> unit outcome" where
  "checkCode v exclusiveMax = require (v < exclusiveMax) reference_out_of_range"

definition checkOptionalReference :: "nat \<Rightarrow> nat \<Rightarrow> unit outcome" where
  "checkOptionalReference v stringCount =
     (if v = CONTEXT_INDEX_NO_VALUE then Ok () else require (v < stringCount) reference_out_of_range)"

definition check_node_row :: "bytes \<Rightarrow> nat \<Rightarrow> nat \<Rightarrow> nat \<Rightarrow> nat \<Rightarrow> unit outcome" where
  "check_node_row bs nodeBase groupBase stringCount node =
     (let pos = nodeBase + node * CONTEXT_INDEX_NODE_ROW_BYTES
      in bind_outcome (getUint8 bs (pos + NODE_KIND_AT)) (\<lambda>kind.
         bind_outcome (checkCode kind (length CONTEXT_GRAPH_NODE_KINDS)) (\<lambda>_.
         bind_outcome (getUint8 bs (pos + NODE_FRESHNESS_AT)) (\<lambda>freshness.
         bind_outcome (checkCode freshness (length FRESHNESS_CODES)) (\<lambda>_.
         bind_outcome (getUint8 bs (pos + NODE_RISK_AT)) (\<lambda>risk.
         bind_outcome (checkCode risk (length RISK_CODES)) (\<lambda>_.
         bind_outcome (getUint32 bs (pos + NODE_PATH_AT)) (\<lambda>path.
         bind_outcome (checkOptionalReference path stringCount) (\<lambda>_.
         bind_outcome (getUint32 bs (pos + NODE_CONTENT_HASH_AT)) (\<lambda>contentHash.
         bind_outcome (checkOptionalReference contentHash stringCount) (\<lambda>_.
         bind_outcome (getUint32 bs (pos + NODE_GROUP_AT)) (\<lambda>rowGroup.
         bind_outcome (getUint32 bs (groupBase + node * 4)) (\<lambda>tableGroup.
           require (rowGroup = tableGroup) section_checksum_mismatch)))))))))))))"

definition check_edge_row :: "bytes \<Rightarrow> nat \<Rightarrow> nat \<Rightarrow> unit outcome" where
  "check_edge_row bs edgeBase edge =
     (let pos = edgeBase + edge * CONTEXT_INDEX_EDGE_ROW_BYTES
      in bind_outcome (getUint8 bs (pos + EDGE_TYPE_AT)) (\<lambda>type.
         bind_outcome (checkCode type (length CONTEXT_GRAPH_EDGE_TYPES)) (\<lambda>_.
         bind_outcome (getUint8 bs (pos + EDGE_CONFIDENCE_AT)) (\<lambda>confidence.
           checkCode confidence (length CONFIDENCE_CODES)))))"

definition validateEnums ::
  "bytes \<Rightarrow> index_header \<Rightarrow> section_descriptor \<Rightarrow> section_descriptor \<Rightarrow> section_descriptor \<Rightarrow> nat \<Rightarrow> unit outcome" where
  "validateEnums bs h nodes edges groups stringCount =
     bind_outcome (each_row (\<lambda>node u. check_node_row bs (sd_offset nodes) (sd_offset groups) stringCount node)
                     [0..<ih_nodeCount h] ()) (\<lambda>_.
       each_row (\<lambda>edge u. check_edge_row bs (sd_offset edges) edge) [0..<ih_edgeCount h] ())"

definition TERM_TABLES :: "(section_kind \<times> section_kind) list" where
  "TERM_TABLES =
     [(EXACT_TERM_TABLE, EXACT_POSTINGS), (BASENAME_TABLE, BASENAME_POSTINGS),
      (LEXICON_TABLE, LEXICON_POSTINGS), (COARSE_TERM_TABLE, COARSE_POSTINGS)]"

text \<open>The references that must address a live row: section, row width, column and bound, in order.\<close>

definition reference_columns :: "index_header \<Rightarrow> nat \<Rightarrow> nat \<Rightarrow> (section_kind \<times> nat \<times> nat \<times> nat) list" where
  "reference_columns h stringCount provenanceCount =
     [(NODE_TABLE, CONTEXT_INDEX_NODE_ROW_BYTES, NODE_LABEL_AT, stringCount),
      (NODE_TABLE, CONTEXT_INDEX_NODE_ROW_BYTES, NODE_ID_AT, stringCount),
      (NODE_TABLE, CONTEXT_INDEX_NODE_ROW_BYTES, NODE_GROUP_AT, max (ih_nodeCount h) 1),
      (NODE_METADATA, CONTEXT_INDEX_METADATA_ROW_BYTES, METADATA_NODE_AT, ih_nodeCount h),
      (NODE_METADATA, CONTEXT_INDEX_METADATA_ROW_BYTES, METADATA_KEY_AT, stringCount),
      (NODE_METADATA, CONTEXT_INDEX_METADATA_ROW_BYTES, METADATA_VALUE_AT, stringCount),
      (EDGE_TABLE, CONTEXT_INDEX_EDGE_ROW_BYTES, EDGE_TARGET_AT, ih_nodeCount h),
      (EDGE_TABLE, CONTEXT_INDEX_EDGE_ROW_BYTES, EDGE_PROVENANCE_AT, provenanceCount),
      (OUT_CSR_EDGES, 4, 0, ih_edgeCount h),
      (IN_CSR_EDGES, 4, 0, ih_edgeCount h),
      (PROVENANCE_TABLE, CONTEXT_INDEX_PROVENANCE_ROW_BYTES, PROVENANCE_PATH_AT, stringCount),
      (PROVENANCE_TABLE, CONTEXT_INDEX_PROVENANCE_ROW_BYTES, PROVENANCE_HASH_AT, stringCount),
      (PROVENANCE_TABLE, CONTEXT_INDEX_PROVENANCE_ROW_BYTES, PROVENANCE_EXTRACTOR_AT, stringCount),
      (GROUP_TABLE, 4, 0, max (ih_nodeCount h) 1),
      (CYCLE_TABLE, 4, 0, ih_nodeCount h),
      (SOURCE_HASH_TABLE, CONTEXT_INDEX_SOURCE_HASH_ROW_BYTES, SOURCE_HASH_PATH_AT, stringCount),
      (SOURCE_HASH_TABLE, CONTEXT_INDEX_SOURCE_HASH_ROW_BYTES, SOURCE_HASH_HASH_AT, stringCount)]"

definition validateContextIndexPayloads :: "bytes \<Rightarrow> index_header \<Rightarrow> section_map \<Rightarrow> unit outcome" where
  "validateContextIndexPayloads bs h byKind =
     bind_outcome (sectionOf byKind STRING_TABLE) (\<lambda>strings.
     bind_outcome (sectionOf byKind NODE_TABLE) (\<lambda>nodes.
     bind_outcome (sectionOf byKind NODE_METADATA) (\<lambda>metadata.
     bind_outcome (sectionOf byKind EDGE_TABLE) (\<lambda>edges.
     bind_outcome (sectionOf byKind OUT_CSR_OFFSETS) (\<lambda>outOffsets.
     bind_outcome (sectionOf byKind OUT_CSR_EDGES) (\<lambda>outEdges.
     bind_outcome (sectionOf byKind IN_CSR_OFFSETS) (\<lambda>inOffsets.
     bind_outcome (sectionOf byKind IN_CSR_EDGES) (\<lambda>inEdges.
     bind_outcome (sectionOf byKind PROVENANCE_TABLE) (\<lambda>provenance.
     bind_outcome (sectionOf byKind GROUP_TABLE) (\<lambda>groups.
     bind_outcome (sectionOf byKind CYCLE_TABLE) (\<lambda>_.
     bind_outcome (sectionOf byKind SOURCE_HASH_TABLE) (\<lambda>_.
     bind_outcome (requireCount (sd_count nodes) (ih_nodeCount h)) (\<lambda>_.
     bind_outcome (requireCount (sd_count edges) (ih_edgeCount h)) (\<lambda>_.
     bind_outcome (requireCount (sd_count provenance) (ih_provenanceCount h)) (\<lambda>_.
     bind_outcome (requireCount (sd_count groups) (ih_nodeCount h)) (\<lambda>_.
     bind_outcome (requireCount (sd_count outEdges) (ih_edgeCount h)) (\<lambda>_.
     bind_outcome (requireCount (sd_count inEdges) (ih_edgeCount h)) (\<lambda>_.
     bind_outcome (sectionOf byKind EXACT_TERM_TABLE) (\<lambda>exactTerms.
     bind_outcome (requireCount (sd_count exactTerms) (ih_termCount h)) (\<lambda>_.
     bind_outcome (each_row (\<lambda>x u. case x of (kind, stride) \<Rightarrow>
                     bind_outcome (sectionOf byKind kind) (\<lambda>d. requireExactRows d stride))
                     CONTEXT_INDEX_FIXED_STRIDE_SECTIONS ()) (\<lambda>_.
     bind_outcome (validateStringTable bs strings) (\<lambda>_.
     bind_outcome (validateCsrOffsets bs outOffsets outEdges (ih_nodeCount h)) (\<lambda>_.
     bind_outcome (validateCsrOffsets bs inOffsets inEdges (ih_nodeCount h)) (\<lambda>_.
     bind_outcome (each_row (\<lambda>x u. case x of (kind, stride, field, exclusiveMax) \<Rightarrow>
                     bind_outcome (sectionOf byKind kind) (\<lambda>d.
                       validateReferenceRange bs d stride field exclusiveMax))
                     (reference_columns h (sd_count strings) (sd_count provenance)) ()) (\<lambda>_.
     bind_outcome (validateMetadataRows bs metadata) (\<lambda>_.
     bind_outcome (each_row (\<lambda>x u. case x of (table, postings) \<Rightarrow>
                     bind_outcome (sectionOf byKind table) (\<lambda>t.
                     bind_outcome (sectionOf byKind postings) (\<lambda>p.
                       validateTermTable bs t p (sd_count strings) (ih_nodeCount h)))) TERM_TABLES ()) (\<lambda>_.
       validateEnums bs h nodes edges groups (sd_count strings))))))))))))))))))))))))))))"

subsection \<open>Geometry\<close>

record index_lane =
  il_terms :: section_descriptor
  il_postings :: section_descriptor

record index_geometry =
  ig_bytes :: bytes
  ig_nodeCount :: nat
  ig_edgeCount :: nat
  ig_stringCount :: nat
  ig_stringIndexBase :: nat
  ig_stringBlobBase :: nat
  ig_nodeBase :: nat
  ig_metadataBase :: nat
  ig_metadataCount :: nat
  ig_edgeBase :: nat
  ig_outOffsetBase :: nat
  ig_outEdgeBase :: nat
  ig_inOffsetBase :: nat
  ig_inEdgeBase :: nat
  ig_provenanceBase :: nat
  ig_provenanceCount :: nat
  ig_sourceHashBase :: nat
  ig_sourceHashCount :: nat
  ig_exact :: index_lane
  ig_basename :: index_lane
  ig_lexicon :: index_lane
  ig_coarse :: index_lane

definition laneSections :: "section_map \<Rightarrow> section_kind \<Rightarrow> section_kind \<Rightarrow> index_lane outcome" where
  "laneSections byKind terms postings =
     bind_outcome (sectionOf byKind terms) (\<lambda>t.
     bind_outcome (sectionOf byKind postings) (\<lambda>p. Ok \<lparr>il_terms = t, il_postings = p\<rparr>))"

definition readContextIndexGeometry :: "bytes \<Rightarrow> index_header \<Rightarrow> section_map \<Rightarrow> index_geometry outcome" where
  "readContextIndexGeometry bs h byKind =
     bind_outcome (sectionOf byKind STRING_TABLE) (\<lambda>strings.
     bind_outcome (sectionOf byKind NODE_METADATA) (\<lambda>metadata.
     bind_outcome (sectionOf byKind PROVENANCE_TABLE) (\<lambda>provenance.
     bind_outcome (sectionOf byKind SOURCE_HASH_TABLE) (\<lambda>sourceHash.
     bind_outcome (sectionOf byKind NODE_TABLE) (\<lambda>nodes.
     bind_outcome (sectionOf byKind EDGE_TABLE) (\<lambda>edges.
     bind_outcome (sectionOf byKind OUT_CSR_OFFSETS) (\<lambda>outOffsets.
     bind_outcome (sectionOf byKind OUT_CSR_EDGES) (\<lambda>outEdges.
     bind_outcome (sectionOf byKind IN_CSR_OFFSETS) (\<lambda>inOffsets.
     bind_outcome (sectionOf byKind IN_CSR_EDGES) (\<lambda>inEdges.
     bind_outcome (laneSections byKind EXACT_TERM_TABLE EXACT_POSTINGS) (\<lambda>exact.
     bind_outcome (laneSections byKind BASENAME_TABLE BASENAME_POSTINGS) (\<lambda>basename.
     bind_outcome (laneSections byKind LEXICON_TABLE LEXICON_POSTINGS) (\<lambda>lexicon.
     bind_outcome (laneSections byKind COARSE_TERM_TABLE COARSE_POSTINGS) (\<lambda>coarse.
       Ok \<lparr>ig_bytes = bs, ig_nodeCount = ih_nodeCount h, ig_edgeCount = ih_edgeCount h,
           ig_stringCount = sd_count strings, ig_stringIndexBase = sd_offset strings,
           ig_stringBlobBase = sd_offset strings + sd_count strings * 4,
           ig_nodeBase = sd_offset nodes, ig_metadataBase = sd_offset metadata,
           ig_metadataCount = sd_count metadata, ig_edgeBase = sd_offset edges,
           ig_outOffsetBase = sd_offset outOffsets, ig_outEdgeBase = sd_offset outEdges,
           ig_inOffsetBase = sd_offset inOffsets, ig_inEdgeBase = sd_offset inEdges,
           ig_provenanceBase = sd_offset provenance, ig_provenanceCount = sd_count provenance,
           ig_sourceHashBase = sd_offset sourceHash, ig_sourceHashCount = sd_count sourceHash,
           ig_exact = exact, ig_basename = basename, ig_lexicon = lexicon, ig_coarse = coarse\<rparr>))))))))))))))"

definition HEX :: string where "HEX = ''0123456789abcdef''"

definition toHex :: "bytes \<Rightarrow> string" where
  "toHex bs = concat (map (\<lambda>b. [HEX ! (unat b div 16), HEX ! (unat b mod 16)]) bs)"

record open_options =
  oo_expectedSnapshotHash :: "string option"
  oo_expectedConfigHash :: "string option"

record binary_reader =
  br_geometry :: index_geometry
  br_snapshotHash :: string
  br_configHash :: string
  br_termCount :: nat

definition openContextIndex :: "bytes \<Rightarrow> open_options \<Rightarrow> binary_reader outcome" where
  "openContextIndex bs options =
     bind_outcome (readContextIndexHeader bs) (\<lambda>h.
     bind_outcome (readSectionTable bs h) (\<lambda>ds.
     bind_outcome (validateSectionLayout bs ds) (\<lambda>byKind.
     bind_outcome (validateContextIndexPayloads bs h byKind) (\<lambda>_.
       let snapshotHash = toHex (ih_snapshotHash h); configHash = toHex (ih_configHash h)
       in if oo_expectedSnapshotHash options \<noteq> None \<and> oo_expectedSnapshotHash options \<noteq> Some snapshotHash
          then Refuse context_index_stale
          else if oo_expectedConfigHash options \<noteq> None \<and> oo_expectedConfigHash options \<noteq> Some configHash
          then Refuse context_index_pointer_meta_divergent
          else bind_outcome (readContextIndexGeometry bs h byKind) (\<lambda>g.
                 Ok \<lparr>br_geometry = g, br_snapshotHash = snapshotHash, br_configHash = configHash,
                     br_termCount = ih_termCount h\<rparr>)))))"

subsection \<open>What each check proves\<close>

definition u32 :: "bytes \<Rightarrow> nat \<Rightarrow> nat" where
  "u32 bs pos = le_nat (sub_bytes pos 4 bs)"

lemma view_read:
  assumes "section_view bs d = Ok view" "getUint w view pos = Ok v"
  shows "sd_offset d + pos + w \<le> length bs" "v = le_nat (sub_bytes (sd_offset d + pos) w bs)"
  using assms sub_bytes_sub_bytes [of pos w "sd_length d" "sd_offset d" bs]
  by (auto simp: section_view_def)

lemma reference_range_facts:
  assumes "validateReferenceRange bs d stride field bound = Ok ()" "i < sd_count d"
  shows "sd_offset d + i * stride + field + 4 \<le> length bs"
    and "u32 bs (sd_offset d + i * stride + field) < bound"
proof -
  obtain view where v: "section_view bs d = Ok view"
    "\<forall>i < sd_count d. \<exists>x. getUint32 view (i * stride + field) = Ok x \<and> x < bound"
    using assms(1) unfolding validateReferenceRange_def by (auto simp: each_row_unit simp del: getUint_Ok)
  with assms(2) obtain x where x: "getUint32 view (i * stride + field) = Ok x" "x < bound" by blast
  show "sd_offset d + i * stride + field + 4 \<le> length bs"
    "u32 bs (sd_offset d + i * stride + field) < bound"
    using view_read [OF v(1) x(1)] x(2) by (simp_all add: u32_def add.assoc)
qed

text \<open>A scan that compares each value with the previous one leaves an ascending column.\<close>

lemma ascending_scan:
  fixes s s' :: "'a :: linorder"
  assumes "each_row f [0..<n] s = Ok s'" "\<And>i s s'. f i s = Ok s' \<Longrightarrow> i < n \<Longrightarrow> s \<le> s' \<and> s' = g i \<and> P i"
  shows "(\<forall>i < n. P i \<and> s \<le> g i) \<and> (\<forall>i j. i \<le> j \<longrightarrow> j < n \<longrightarrow> g i \<le> g j) \<and> s' = (if n = 0 then s else g (n - 1))"
  using assms
proof (induction n arbitrary: s')
  case (Suc n)
  then obtain m where m: "each_row f [0..<n] s = Ok m" "f n m = Ok s'"
    by (auto simp: each_row_append)
  have i: "(\<forall>i < n. P i \<and> s \<le> g i) \<and> (\<forall>i j. i \<le> j \<longrightarrow> j < n \<longrightarrow> g i \<le> g j) \<and> m = (if n = 0 then s else g (n - 1))"
    by (rule Suc.IH [OF m(1)]) (use Suc.prems(2) in auto)
  have step: "m \<le> s'" "s' = g n" "P n" using Suc.prems(2) [OF m(2)] by auto
  have "g i \<le> g n" if "i \<le> n" for i
  proof (cases "i = n")
    case False
    then have "g i \<le> g (n - 1)" using i that by auto
    also have "\<dots> = m" using i that False by auto
    also have "m \<le> g n" using step by simp
    finally show ?thesis .
  qed simp
  moreover have "s \<le> m" using i by (cases "n = 0") auto
  with step(1,2) have "s \<le> g n" by (metis order_trans)
  ultimately show ?case using i step by (auto simp: less_Suc_eq)
qed auto

lemma csr_facts:
  assumes "validateCsrOffsets bs offsets edges n = Ok ()"
  shows "i \<le> n \<Longrightarrow> sd_offset offsets + i * 4 + 4 \<le> length bs"
    and "i \<le> j \<Longrightarrow> j \<le> n \<Longrightarrow> u32 bs (sd_offset offsets + i * 4) \<le> u32 bs (sd_offset offsets + j * 4)"
    and "u32 bs (sd_offset offsets + n * 4) = sd_count edges"
proof -
  obtain view where v: "sd_count offsets = Suc n" "section_view bs offsets = Ok view"
    "each_row (csr_step view) [0..<Suc n] 0 = Ok (sd_count edges)"
    using assms by (auto simp: validateCsrOffsets_def simp del: upt_Suc)
  have s: "s \<le> s' \<and> s' = u32 bs (sd_offset offsets + i * 4) \<and> sd_offset offsets + i * 4 + 4 \<le> length bs"
    if "csr_step view i s = Ok s'" for i s s'
    using that view_read [OF v(2), of 4 "i * 4"] by (auto simp: csr_step_def u32_def simp del: getUint_Ok)
  note a = ascending_scan [OF v(3), of "\<lambda>i. u32 bs (sd_offset offsets + i * 4)"
      "\<lambda>i. sd_offset offsets + i * 4 + 4 \<le> length bs", OF s]
  show "i \<le> n \<Longrightarrow> sd_offset offsets + i * 4 + 4 \<le> length bs"
    "i \<le> j \<Longrightarrow> j \<le> n \<Longrightarrow> u32 bs (sd_offset offsets + i * 4) \<le> u32 bs (sd_offset offsets + j * 4)"
    "u32 bs (sd_offset offsets + n * 4) = sd_count edges"
    using a by (simp_all add: less_Suc_eq_le)
qed

lemma string_table_facts:
  assumes "validateStringTable bs d = Ok ()"
  shows "i < sd_count d \<Longrightarrow> sd_offset d + i * 4 + 4 \<le> length bs"
    and "i < sd_count d \<Longrightarrow> sd_count d * 4 + u32 bs (sd_offset d + i * 4) \<le> sd_length d"
    and "i \<le> j \<Longrightarrow> j < sd_count d \<Longrightarrow> u32 bs (sd_offset d + i * 4) \<le> u32 bs (sd_offset d + j * 4)"
proof -
  obtain view previous where v: "section_view bs d = Ok view"
    "each_row (string_offset_step view (sd_count d * 4) (sd_length d)) [0..<sd_count d] 0 = Ok previous"
    using assms by (auto simp: validateStringTable_def Let_def)
  have s: "s \<le> s' \<and> s' = u32 bs (sd_offset d + i * 4) \<and>
      (sd_offset d + i * 4 + 4 \<le> length bs \<and> sd_count d * 4 + u32 bs (sd_offset d + i * 4) \<le> sd_length d)"
    if "string_offset_step view (sd_count d * 4) (sd_length d) i s = Ok s'" for i s s'
    using that view_read [OF v(1), of 4 "i * 4"] by (auto simp: string_offset_step_def u32_def simp del: getUint_Ok)
  note a = ascending_scan [OF v(2), of "\<lambda>i. u32 bs (sd_offset d + i * 4)"
      "\<lambda>i. sd_offset d + i * 4 + 4 \<le> length bs \<and> sd_count d * 4 + u32 bs (sd_offset d + i * 4) \<le> sd_length d", OF s]
  show "i < sd_count d \<Longrightarrow> sd_offset d + i * 4 + 4 \<le> length bs"
    "i < sd_count d \<Longrightarrow> sd_count d * 4 + u32 bs (sd_offset d + i * 4) \<le> sd_length d"
    "i \<le> j \<Longrightarrow> j < sd_count d \<Longrightarrow> u32 bs (sd_offset d + i * 4) \<le> u32 bs (sd_offset d + j * 4)"
    using a by simp_all
qed

text \<open>The same for a column that must rise strictly, read through \<open>int\<close> from \<open>-1\<close>.\<close>

lemma rising_scan:
  fixes g :: "nat \<Rightarrow> nat"
  assumes "each_row f [0..<n] (- 1) = Ok s'"
    "\<And>i s s'. f i s = Ok s' \<Longrightarrow> i < n \<Longrightarrow> s < s' \<and> s' = int (g i) \<and> P i"
  shows "(\<forall>i < n. P i) \<and> (\<forall>i j. i < j \<longrightarrow> j < n \<longrightarrow> g i < g j) \<and> (0 < n \<longrightarrow> s' = int (g (n - 1)))"
  using assms
proof (induction n arbitrary: s')
  case (Suc n)
  then obtain m where m: "each_row f [0..<n] (- 1) = Ok m" "f n m = Ok s'"
    by (auto simp: each_row_append)
  have i: "(\<forall>i < n. P i) \<and> (\<forall>i j. i < j \<longrightarrow> j < n \<longrightarrow> g i < g j) \<and> (0 < n \<longrightarrow> m = int (g (n - 1)))"
    by (rule Suc.IH [OF m(1)]) (use Suc.prems(2) in auto)
  have step: "m < s'" "s' = int (g n)" "P n" using Suc.prems(2) [OF m(2)] by auto
  have "g i < g n" if "i < n" for i
  proof -
    have "g i \<le> g (n - 1)" using i that by (cases "i = n - 1") (auto simp: less_imp_le)
    also have "int (g (n - 1)) = m" using i that by auto
    then have "g (n - 1) < g n" using step by simp
    finally show ?thesis .
  qed
  then show ?case using i step by (auto simp: less_Suc_eq)
qed auto

lemma term_table_facts:
  assumes "validateTermTable bs t p stringCount nodeCount = Ok ()"
  shows "i < sd_count t \<Longrightarrow> sd_offset t + i * 12 + 12 \<le> length bs"
    and "i < sd_count t \<Longrightarrow> u32 bs (sd_offset t + i * 12) < stringCount"
    and "i < sd_count t \<Longrightarrow>
         u32 bs (sd_offset t + i * 12 + 4) + u32 bs (sd_offset t + i * 12 + 8) \<le> sd_count p"
    and "i < j \<Longrightarrow> j < sd_count t \<Longrightarrow> u32 bs (sd_offset t + i * 12) < u32 bs (sd_offset t + j * 12)"
    and "k < sd_count p \<Longrightarrow> sd_offset p + k * 4 + 4 \<le> length bs"
    and "k < sd_count p \<Longrightarrow> u32 bs (sd_offset p + k * 4) < nodeCount"
proof -
  obtain view last where v: "validateReferenceRange bs t 12 0 stringCount = Ok ()"
    "validateReferenceRange bs p 4 0 nodeCount = Ok ()" "section_view bs t = Ok view"
    "each_row (term_step view (sd_count p)) [0..<sd_count t] (- 1) = Ok last"
    using assms by (auto simp: validateTermTable_def row_bytes_defs row_field_defs)
  have s: "s < s' \<and> s' = int (u32 bs (sd_offset t + i * 12)) \<and>
      (sd_offset t + i * 12 + 12 \<le> length bs \<and>
       u32 bs (sd_offset t + i * 12 + 4) + u32 bs (sd_offset t + i * 12 + 8) \<le> sd_count p)"
    if "term_step view (sd_count p) i s = Ok s'" for i s s'
    using that view_read [OF v(3), of 4 "i * 12"] view_read [OF v(3), of 4 "i * 12 + 4"]
      view_read [OF v(3), of 4 "i * 12 + 8"]
    by (auto simp: term_step_def u32_def row_bytes_defs row_field_defs Let_def add.assoc simp del: getUint_Ok)
  note a = rising_scan [OF v(4), of "\<lambda>i. u32 bs (sd_offset t + i * 12)"
      "\<lambda>i. sd_offset t + i * 12 + 12 \<le> length bs \<and>
        u32 bs (sd_offset t + i * 12 + 4) + u32 bs (sd_offset t + i * 12 + 8) \<le> sd_count p", OF s]
  show "i < sd_count t \<Longrightarrow> sd_offset t + i * 12 + 12 \<le> length bs"
    "i < sd_count t \<Longrightarrow> u32 bs (sd_offset t + i * 12 + 4) + u32 bs (sd_offset t + i * 12 + 8) \<le> sd_count p"
    "i < j \<Longrightarrow> j < sd_count t \<Longrightarrow> u32 bs (sd_offset t + i * 12) < u32 bs (sd_offset t + j * 12)"
    using a by simp_all
  show "i < sd_count t \<Longrightarrow> u32 bs (sd_offset t + i * 12) < stringCount"
    using reference_range_facts(2) [OF v(1)] by simp
  show "k < sd_count p \<Longrightarrow> sd_offset p + k * 4 + 4 \<le> length bs"
    "k < sd_count p \<Longrightarrow> u32 bs (sd_offset p + k * 4) < nodeCount"
    using reference_range_facts [OF v(2)] by simp_all
qed

subsection \<open>An opened index\<close>

text \<open>The range facts every later read relies on, stated over the geometry.\<close>

definition csr_ok :: "index_geometry \<Rightarrow> nat \<Rightarrow> nat \<Rightarrow> bool" where
  "csr_ok g offsets slots \<longleftrightarrow>
     (\<forall>i \<le> ig_nodeCount g. offsets + i * 4 + 4 \<le> length (ig_bytes g)) \<and>
     (\<forall>i j. i \<le> j \<longrightarrow> j \<le> ig_nodeCount g \<longrightarrow>
        u32 (ig_bytes g) (offsets + i * 4) \<le> u32 (ig_bytes g) (offsets + j * 4)) \<and>
     u32 (ig_bytes g) (offsets + ig_nodeCount g * 4) = ig_edgeCount g \<and>
     (\<forall>k < ig_edgeCount g. slots + k * 4 + 4 \<le> length (ig_bytes g) \<and>
        u32 (ig_bytes g) (slots + k * 4) < ig_edgeCount g)"

definition edges_ok :: "index_geometry \<Rightarrow> bool" where
  "edges_ok g \<longleftrightarrow>
     (\<forall>e < ig_edgeCount g.
        ig_edgeBase g + e * 16 + 16 \<le> length (ig_bytes g) \<and>
        u32 (ig_bytes g) (ig_edgeBase g + e * 16) < ig_nodeCount g \<and>
        u32 (ig_bytes g) (ig_edgeBase g + e * 16 + 8) < ig_provenanceCount g \<and>
        le_nat (sub_bytes (ig_edgeBase g + e * 16 + 4) 1 (ig_bytes g)) < length CONTEXT_GRAPH_EDGE_TYPES \<and>
        le_nat (sub_bytes (ig_edgeBase g + e * 16 + 5) 1 (ig_bytes g)) < length CONFIDENCE_CODES)"

definition optional_string :: "index_geometry \<Rightarrow> nat \<Rightarrow> bool" where
  "optional_string g v \<longleftrightarrow> v = CONTEXT_INDEX_NO_VALUE \<or> v < ig_stringCount g"

definition nodes_ok :: "index_geometry \<Rightarrow> bool" where
  "nodes_ok g \<longleftrightarrow>
     (\<forall>n < ig_nodeCount g. let pos = ig_nodeBase g + n * 40; bs = ig_bytes g in
        pos + 40 \<le> length bs \<and> u32 bs (pos + 12) < ig_stringCount g \<and> u32 bs (pos + 36) < ig_stringCount g \<and>
        u32 bs (pos + 32) < ig_nodeCount g \<and>
        le_nat (sub_bytes pos 1 bs) < length CONTEXT_GRAPH_NODE_KINDS \<and>
        le_nat (sub_bytes (pos + 1) 1 bs) < length FRESHNESS_CODES \<and>
        le_nat (sub_bytes (pos + 2) 1 bs) < length RISK_CODES \<and>
        optional_string g (u32 bs (pos + 16)) \<and> optional_string g (u32 bs (pos + 28)))"

definition strings_ok :: "index_geometry \<Rightarrow> bool" where
  "strings_ok g \<longleftrightarrow>
     (\<forall>i < ig_stringCount g.
        ig_stringIndexBase g + i * 4 + 4 \<le> length (ig_bytes g) \<and>
        ig_stringBlobBase g + u32 (ig_bytes g) (ig_stringIndexBase g + i * 4) \<le> length (ig_bytes g)) \<and>
     (\<forall>i j. i \<le> j \<longrightarrow> j < ig_stringCount g \<longrightarrow>
        u32 (ig_bytes g) (ig_stringIndexBase g + i * 4) \<le> u32 (ig_bytes g) (ig_stringIndexBase g + j * 4))"

definition lane_ok :: "index_geometry \<Rightarrow> index_lane \<Rightarrow> bool" where
  "lane_ok g lane \<longleftrightarrow>
     (let bs = ig_bytes g; t = il_terms lane; p = il_postings lane in
        (\<forall>i < sd_count t. sd_offset t + i * 12 + 12 \<le> length bs \<and>
           u32 bs (sd_offset t + i * 12) < ig_stringCount g \<and>
           u32 bs (sd_offset t + i * 12 + 4) + u32 bs (sd_offset t + i * 12 + 8) \<le> sd_count p) \<and>
        (\<forall>i j. i < j \<longrightarrow> j < sd_count t \<longrightarrow> u32 bs (sd_offset t + i * 12) < u32 bs (sd_offset t + j * 12)) \<and>
        (\<forall>k < sd_count p. sd_offset p + k * 4 + 4 \<le> length bs \<and> u32 bs (sd_offset p + k * 4) < ig_nodeCount g))"

definition index_ok :: "index_geometry \<Rightarrow> bool" where
  "index_ok g \<longleftrightarrow>
     csr_ok g (ig_outOffsetBase g) (ig_outEdgeBase g) \<and> csr_ok g (ig_inOffsetBase g) (ig_inEdgeBase g) \<and>
     edges_ok g \<and> nodes_ok g \<and> strings_ok g \<and>
     lane_ok g (ig_exact g) \<and> lane_ok g (ig_basename g) \<and> lane_ok g (ig_lexicon g) \<and> lane_ok g (ig_coarse g)"

lemma ex_unit: "(\<exists>u :: unit. P u) \<longleftrightarrow> P ()"
  by (metis old.unit.exhaust)

lemma payloads_Ok:
  assumes "validateContextIndexPayloads bs h byKind = Ok ()"
  obtains strings nodes metadata edges outOffsets outEdges inOffsets inEdges provenance groups where
    "sectionOf byKind STRING_TABLE = Ok strings" "sectionOf byKind NODE_TABLE = Ok nodes"
    "sectionOf byKind NODE_METADATA = Ok metadata" "sectionOf byKind EDGE_TABLE = Ok edges"
    "sectionOf byKind OUT_CSR_OFFSETS = Ok outOffsets" "sectionOf byKind OUT_CSR_EDGES = Ok outEdges"
    "sectionOf byKind IN_CSR_OFFSETS = Ok inOffsets" "sectionOf byKind IN_CSR_EDGES = Ok inEdges"
    "sectionOf byKind PROVENANCE_TABLE = Ok provenance" "sectionOf byKind GROUP_TABLE = Ok groups"
    "sd_count nodes = ih_nodeCount h" "sd_count edges = ih_edgeCount h"
    "sd_count outEdges = ih_edgeCount h" "sd_count inEdges = ih_edgeCount h"
    "\<forall>x \<in> set CONTEXT_INDEX_FIXED_STRIDE_SECTIONS.
       (case x of (kind, stride) \<Rightarrow> bind_outcome (sectionOf byKind kind) (\<lambda>d. requireExactRows d stride)) = Ok ()"
    "validateStringTable bs strings = Ok ()"
    "validateCsrOffsets bs outOffsets outEdges (ih_nodeCount h) = Ok ()"
    "validateCsrOffsets bs inOffsets inEdges (ih_nodeCount h) = Ok ()"
    "\<forall>x \<in> set (reference_columns h (sd_count strings) (sd_count provenance)).
       (case x of (kind, stride, field, exclusiveMax) \<Rightarrow>
          bind_outcome (sectionOf byKind kind) (\<lambda>d. validateReferenceRange bs d stride field exclusiveMax)) = Ok ()"
    "validateMetadataRows bs metadata = Ok ()"
    "\<forall>x \<in> set TERM_TABLES.
       (case x of (table, postings) \<Rightarrow> bind_outcome (sectionOf byKind table) (\<lambda>t.
          bind_outcome (sectionOf byKind postings) (\<lambda>p.
            validateTermTable bs t p (sd_count strings) (ih_nodeCount h)))) = Ok ()"
    "validateEnums bs h nodes edges groups (sd_count strings) = Ok ()"
  using assms
  unfolding validateContextIndexPayloads_def bind_Ok requireCount_def require_Ok each_row_unit ex_unit
  by (elim exE conjE) (rule that; assumption)

lemma stride_section:
  assumes "\<forall>x \<in> set CONTEXT_INDEX_FIXED_STRIDE_SECTIONS.
       (case x of (kind, stride) \<Rightarrow> bind_outcome (sectionOf byKind kind) (\<lambda>d. requireExactRows d stride)) = Ok ()"
    "(kind, stride) \<in> set CONTEXT_INDEX_FIXED_STRIDE_SECTIONS" "sectionOf byKind kind = Ok d"
    "\<And>k d. byKind k = Some d \<Longrightarrow> section_end d \<le> n" "i < sd_count d"
  shows "sd_offset d + i * stride + stride \<le> n"
proof -
  have "sd_count d * stride = sd_length d"
    using assms(1-3) by (fastforce simp: requireExactRows_def)
  moreover have "section_end d \<le> n" using assms(3,4) by (auto simp: sectionOf_def split: option.splits)
  moreover have "Suc i * stride \<le> sd_count d * stride" using assms(5) by (intro mult_le_mono1) simp
  ultimately show ?thesis by (simp add: section_end_def)
qed

lemma reference_column:
  assumes "\<forall>x \<in> set columns. (case x of (kind, stride, field, exclusiveMax) \<Rightarrow>
          bind_outcome (sectionOf byKind kind) (\<lambda>d. validateReferenceRange bs d stride field exclusiveMax)) = Ok ()"
    "(kind, stride, field, bound) \<in> set columns" "sectionOf byKind kind = Ok d" "i < sd_count d"
  shows "u32 bs (sd_offset d + i * stride + field) < bound" "sd_offset d + i * stride + field + 4 \<le> length bs"
proof -
  have "validateReferenceRange bs d stride field bound = Ok ()" using assms(1-3) by fastforce
  from reference_range_facts [OF this assms(4)]
  show "u32 bs (sd_offset d + i * stride + field) < bound" "sd_offset d + i * stride + field + 4 \<le> length bs"
    by simp_all
qed

lemma open_Ok:
  assumes "openContextIndex bs options = Ok r"
  obtains h ds byKind where "readContextIndexHeader bs = Ok h" "validateSectionLayout bs ds = Ok byKind"
    "validateContextIndexPayloads bs h byKind = Ok ()"
    "readContextIndexGeometry bs h byKind = Ok (br_geometry r)"
  using assms unfolding openContextIndex_def Let_def bind_Ok ex_unit
  by (elim exE conjE) (rule that; (assumption | (auto split: if_splits)))

lemma geometry_Ok:
  assumes "readContextIndexGeometry bs h byKind = Ok g"
  shows "ig_bytes g = bs" "ig_nodeCount g = ih_nodeCount h" "ig_edgeCount g = ih_edgeCount h"
    "sectionOf byKind STRING_TABLE = Ok d \<Longrightarrow> ig_stringCount g = sd_count d \<and>
       ig_stringIndexBase g = sd_offset d \<and> ig_stringBlobBase g = sd_offset d + sd_count d * 4"
    "sectionOf byKind NODE_TABLE = Ok d \<Longrightarrow> ig_nodeBase g = sd_offset d"
    "sectionOf byKind EDGE_TABLE = Ok d \<Longrightarrow> ig_edgeBase g = sd_offset d"
    "sectionOf byKind OUT_CSR_OFFSETS = Ok d \<Longrightarrow> ig_outOffsetBase g = sd_offset d"
    "sectionOf byKind OUT_CSR_EDGES = Ok d \<Longrightarrow> ig_outEdgeBase g = sd_offset d"
    "sectionOf byKind IN_CSR_OFFSETS = Ok d \<Longrightarrow> ig_inOffsetBase g = sd_offset d"
    "sectionOf byKind IN_CSR_EDGES = Ok d \<Longrightarrow> ig_inEdgeBase g = sd_offset d"
    "sectionOf byKind PROVENANCE_TABLE = Ok d \<Longrightarrow> ig_provenanceBase g = sd_offset d \<and> ig_provenanceCount g = sd_count d"
    "sectionOf byKind EXACT_TERM_TABLE = Ok (il_terms (ig_exact g)) \<and>
     sectionOf byKind EXACT_POSTINGS = Ok (il_postings (ig_exact g))"
    "sectionOf byKind BASENAME_TABLE = Ok (il_terms (ig_basename g)) \<and>
     sectionOf byKind BASENAME_POSTINGS = Ok (il_postings (ig_basename g))"
    "sectionOf byKind LEXICON_TABLE = Ok (il_terms (ig_lexicon g)) \<and>
     sectionOf byKind LEXICON_POSTINGS = Ok (il_postings (ig_lexicon g))"
    "sectionOf byKind COARSE_TERM_TABLE = Ok (il_terms (ig_coarse g)) \<and>
     sectionOf byKind COARSE_POSTINGS = Ok (il_postings (ig_coarse g))"
  using assms unfolding readContextIndexGeometry_def laneSections_def by auto

lemma node_row_facts:
  assumes "check_node_row bs nodeBase groupBase stringCount n = Ok ()"
  shows "le_nat (sub_bytes (nodeBase + n * 40) 1 bs) < length CONTEXT_GRAPH_NODE_KINDS"
    "le_nat (sub_bytes (nodeBase + n * 40 + 1) 1 bs) < length FRESHNESS_CODES"
    "le_nat (sub_bytes (nodeBase + n * 40 + 2) 1 bs) < length RISK_CODES"
    "u32 bs (nodeBase + n * 40 + 16) = CONTEXT_INDEX_NO_VALUE \<or> u32 bs (nodeBase + n * 40 + 16) < stringCount"
    "u32 bs (nodeBase + n * 40 + 28) = CONTEXT_INDEX_NO_VALUE \<or> u32 bs (nodeBase + n * 40 + 28) < stringCount"
  using assms
  by (auto simp: check_node_row_def Let_def row_bytes_defs row_field_defs checkCode_def u32_def
      checkOptionalReference_def split: if_splits)

text \<open>Everything the payload checks prove about the geometry that is read after them.\<close>

lemma open_index_ok:
  assumes "openContextIndex bs options = Ok r"
  shows "index_ok (br_geometry r)"
proof -
  define g where "g = br_geometry r"
  obtain h ds byKind where o: "validateSectionLayout bs ds = Ok byKind"
    "validateContextIndexPayloads bs h byKind = Ok ()" "readContextIndexGeometry bs h byKind = Ok g"
    using assms unfolding g_def by (rule open_Ok)
  obtain strings nodes metadata edges outOffsets outEdges inOffsets inEdges provenance groups where p:
    "sectionOf byKind STRING_TABLE = Ok strings" "sectionOf byKind NODE_TABLE = Ok nodes"
    "sectionOf byKind NODE_METADATA = Ok metadata" "sectionOf byKind EDGE_TABLE = Ok edges"
    "sectionOf byKind OUT_CSR_OFFSETS = Ok outOffsets" "sectionOf byKind OUT_CSR_EDGES = Ok outEdges"
    "sectionOf byKind IN_CSR_OFFSETS = Ok inOffsets" "sectionOf byKind IN_CSR_EDGES = Ok inEdges"
    "sectionOf byKind PROVENANCE_TABLE = Ok provenance" "sectionOf byKind GROUP_TABLE = Ok groups"
    and n: "sd_count nodes = ih_nodeCount h" "sd_count edges = ih_edgeCount h"
    "sd_count outEdges = ih_edgeCount h" "sd_count inEdges = ih_edgeCount h"
    and stride: "\<forall>x \<in> set CONTEXT_INDEX_FIXED_STRIDE_SECTIONS.
       (case x of (kind, stride) \<Rightarrow> bind_outcome (sectionOf byKind kind) (\<lambda>d. requireExactRows d stride)) = Ok ()"
    and v: "validateStringTable bs strings = Ok ()"
    "validateCsrOffsets bs outOffsets outEdges (ih_nodeCount h) = Ok ()"
    "validateCsrOffsets bs inOffsets inEdges (ih_nodeCount h) = Ok ()"
    and refs: "\<forall>x \<in> set (reference_columns h (sd_count strings) (sd_count provenance)).
       (case x of (kind, stride, field, exclusiveMax) \<Rightarrow>
          bind_outcome (sectionOf byKind kind) (\<lambda>d. validateReferenceRange bs d stride field exclusiveMax)) = Ok ()"
    and tables: "\<forall>x \<in> set TERM_TABLES.
       (case x of (table, postings) \<Rightarrow> bind_outcome (sectionOf byKind table) (\<lambda>t.
          bind_outcome (sectionOf byKind postings) (\<lambda>p.
            validateTermTable bs t p (sd_count strings) (ih_nodeCount h)))) = Ok ()"
    and enums: "validateEnums bs h nodes edges groups (sd_count strings) = Ok ()"
    using o(2) by (rule payloads_Ok)
  note geo = geometry_Ok [OF o(3)]
  have g: "ig_stringCount g = sd_count strings" "ig_stringIndexBase g = sd_offset strings"
    "ig_stringBlobBase g = sd_offset strings + sd_count strings * 4" "ig_nodeBase g = sd_offset nodes"
    "ig_edgeBase g = sd_offset edges" "ig_outOffsetBase g = sd_offset outOffsets"
    "ig_outEdgeBase g = sd_offset outEdges" "ig_inOffsetBase g = sd_offset inOffsets"
    "ig_inEdgeBase g = sd_offset inEdges" "ig_provenanceCount g = sd_count provenance"
    using geo(4) [OF p(1)] geo(5) [OF p(2)] geo(6) [OF p(4)] geo(7) [OF p(5)] geo(8) [OF p(6)]
      geo(9) [OF p(7)] geo(10) [OF p(8)] geo(11) [OF p(9)] by simp_all
  have inside: "section_end d \<le> length bs" if "byKind k = Some d" for k d
  proof -
    have "d \<in> set ds" "list_all (section_in_bounds bs (descriptor_at (length ds))) ds"
      using o(1) that section_table_Some unfolding layout_Ok by blast+
    then show ?thesis by (auto simp: list_all_iff section_in_bounds_def)
  qed
  note row = stride_section [OF stride _ _ inside]
  note col = reference_column [OF refs]
  have str: "strings_ok g"
  proof -
    have "section_end strings \<le> length bs" using p(1) inside by (auto simp: sectionOf_def split: option.splits)
    then show ?thesis using string_table_facts [OF v(1)]
      by (fastforce simp: strings_ok_def g geo(1) section_end_def)
  qed
  have csr: "csr_ok g (sd_offset outOffsets) (sd_offset outEdges)" "csr_ok g (sd_offset inOffsets) (sd_offset inEdges)"
    using csr_facts [OF v(2)] csr_facts [OF v(3)] col [OF _ p(6), of 4 0] col [OF _ p(8), of 4 0]
    by (simp_all add: csr_ok_def geo n reference_columns_def)
  have lanes: "lane_ok g l" if "sectionOf byKind t = Ok (il_terms l) \<and> sectionOf byKind q = Ok (il_postings l)"
    "(t, q) \<in> set TERM_TABLES" for l t q
  proof -
    have "validateTermTable bs (il_terms l) (il_postings l) (sd_count strings) (ih_nodeCount h) = Ok ()"
      using tables that by fastforce
    from term_table_facts [OF this] show ?thesis by (simp add: lane_ok_def Let_def geo(1,2) g)
  qed
  have lane: "lane_ok g (ig_exact g)" "lane_ok g (ig_basename g)" "lane_ok g (ig_lexicon g)" "lane_ok g (ig_coarse g)"
    by (rule lanes [OF geo(12)] lanes [OF geo(13)] lanes [OF geo(14)] lanes [OF geo(15)], simp add: TERM_TABLES_def)+
  have edge: "edges_ok g"
    unfolding edges_ok_def geo(1-3) g
  proof (intro allI impI)
    fix e assume e: "e < ih_edgeCount h"
    have c: "check_edge_row bs (sd_offset edges) e = Ok ()"
      using enums e unfolding validateEnums_def by (auto simp: each_row_unit)
    show "sd_offset edges + e * 16 + 16 \<le> length bs \<and>
        u32 bs (sd_offset edges + e * 16) < ih_nodeCount h \<and>
        u32 bs (sd_offset edges + e * 16 + 8) < sd_count provenance \<and>
        le_nat (sub_bytes (sd_offset edges + e * 16 + 4) 1 bs) < length CONTEXT_GRAPH_EDGE_TYPES \<and>
        le_nat (sub_bytes (sd_offset edges + e * 16 + 5) 1 bs) < length CONFIDENCE_CODES"
      using row [where kind = EDGE_TABLE and stride = 16 and d = edges and i = e] col(1) [of EDGE_TABLE 16 0 _ edges e]
        col(1) [of EDGE_TABLE 16 8 _ edges e] c e p(4) n(2)
      by (auto simp: check_edge_row_def checkCode_def Let_def row_bytes_defs row_field_defs
          CONTEXT_INDEX_FIXED_STRIDE_SECTIONS_def reference_columns_def)
  qed
  have node: "nodes_ok g"
    unfolding nodes_ok_def geo(1-3) g Let_def optional_string_def
  proof (intro allI impI)
    fix k assume k: "k < ih_nodeCount h"
    let ?pos = "sd_offset nodes + k * 40"
    have c: "check_node_row bs (sd_offset nodes) (sd_offset groups) (sd_count strings) k = Ok ()"
      using enums k unfolding validateEnums_def by (auto simp: each_row_unit)
    have "?pos + 40 \<le> length bs"
      using row [where kind = NODE_TABLE and stride = 40 and d = nodes and i = k] k p(2) n(1)
      by (simp add: CONTEXT_INDEX_FIXED_STRIDE_SECTIONS_def row_bytes_defs)
    moreover have "u32 bs (?pos + 12) < sd_count strings" "u32 bs (?pos + 36) < sd_count strings"
      "u32 bs (?pos + 32) < max (ih_nodeCount h) 1"
      using k p(2) n(1) by (auto intro!: col(1) simp: reference_columns_def row_bytes_defs row_field_defs)
    ultimately show "?pos + 40 \<le> length bs \<and> u32 bs (?pos + 12) < sd_count strings \<and>
        u32 bs (?pos + 36) < sd_count strings \<and> u32 bs (?pos + 32) < ih_nodeCount h \<and>
        le_nat (sub_bytes ?pos 1 bs) < length CONTEXT_GRAPH_NODE_KINDS \<and>
        le_nat (sub_bytes (?pos + 1) 1 bs) < length FRESHNESS_CODES \<and>
        le_nat (sub_bytes (?pos + 2) 1 bs) < length RISK_CODES \<and>
        (u32 bs (?pos + 16) = CONTEXT_INDEX_NO_VALUE \<or> u32 bs (?pos + 16) < sd_count strings) \<and>
        (u32 bs (?pos + 28) = CONTEXT_INDEX_NO_VALUE \<or> u32 bs (?pos + 28) < sd_count strings)"
      using node_row_facts [OF c] k by (simp add: g)
  qed
  show ?thesis unfolding index_ok_def g_def [symmetric]
    using csr edge node str lane by (simp add: g)
qed

end
