(* ===== verification/Index_Strings.thy ===== *)
theory Index_Strings
  imports Index_Validate "HOL-Library.List_Lexorder"
begin

text \<open>
  Text in the index: the UTF-8 encoder of the platform, written out, with its round trip through the
  fatal decoder, and the string interner of \<open>runtime-index/writer-tables.ts\<close>.  A JavaScript string is
  the list of its UTF-16 code units.
\<close>

type_synonym units = "nat list"

subsection \<open>The encoder\<close>

definition high_surrogate :: "nat \<Rightarrow> bool" where "high_surrogate u \<longleftrightarrow> 0xD800 \<le> u \<and> u \<le> 0xDBFF"
definition low_surrogate :: "nat \<Rightarrow> bool" where "low_surrogate u \<longleftrightarrow> 0xDC00 \<le> u \<and> u \<le> 0xDFFF"

text \<open>A surrogate without its partner is encoded as the replacement character.\<close>

fun utf16_scalars :: "units \<Rightarrow> nat list" where
  "utf16_scalars [] = []"
| "utf16_scalars (u # us) =
     (if high_surrogate u then
        case us of
          v # vs \<Rightarrow>
            if low_surrogate v then (0x10000 + (u - 0xD800) * 0x400 + (v - 0xDC00)) # utf16_scalars vs
            else 0xFFFD # utf16_scalars us
        | [] \<Rightarrow> [0xFFFD]
      else if low_surrogate u then 0xFFFD # utf16_scalars us
      else u # utf16_scalars us)"

definition utf8_scalar :: "nat \<Rightarrow> nat list" where
  "utf8_scalar c =
     (if c < 0x80 then [c]
      else if c < 0x800 then [0xC0 + c div 0x40, 0x80 + c mod 0x40]
      else if c < 0x10000 then [0xE0 + c div 0x1000, 0x80 + c div 0x40 mod 0x40, 0x80 + c mod 0x40]
      else [0xF0 + c div 0x40000, 0x80 + c div 0x1000 mod 0x40, 0x80 + c div 0x40 mod 0x40, 0x80 + c mod 0x40])"

definition utf8_encode :: "units \<Rightarrow> bytes" where
  "utf8_encode us = map word_of_nat (concat (map utf8_scalar (utf16_scalars us)))"

definition scalar_value :: "nat \<Rightarrow> bool" where
  "scalar_value c \<longleftrightarrow> c < 0xD800 \<or> 0xE000 \<le> c \<and> c < 0x110000"

lemma digits64:
  obtains a b d :: nat where "c = (a * 64 + b) * 64 + d" "b < 64" "d < 64"
proof
  show "c = (c div 64 div 64 * 64 + c div 64 mod 64) * 64 + c mod 64" by simp
qed simp_all

lemma digits64_div:
  fixes a b d :: nat
  assumes "c = (a * 64 + b) * 64 + d" "b < 64" "d < 64"
  shows "c div 4096 = a" "c div 64 mod 64 = b" "c mod 64 = d"
proof -
  have h: "(x * 64 + r) div 64 = x \<and> (x * 64 + r) mod 64 = r" if "r < 64" for x r :: nat
    using that by (metis add.commute div_mult_self3 div_less mod_less mod_mult_self3 zero_neq_numeral add_0)
  note d = h [OF assms(3), of "a * 64 + b"] and b = h [OF assms(2), of a]
  show "c mod 64 = d" "c div 64 mod 64 = b" using d b by (simp_all only: assms(1))
  have "c div (64 * 64) = a" unfolding div_mult2_eq assms(1) using d b by (simp only:)
  then show "c div 4096 = a" by simp
qed

lemma utf8_scalars_step:
  assumes "scalar_value c"
  shows "utf8_scalars (utf8_scalar c @ bs) = map_option (Cons c) (utf8_scalars bs)"
proof -
  consider "c < 0x80" | "0x80 \<le> c" "c < 0x800" | "0x800 \<le> c" "c < 0x10000" | "0x10000 \<le> c" "c < 0x110000"
    using assms unfolding scalar_value_def by linarith
  then show ?thesis
  proof cases
    case 1
    then show ?thesis by (simp add: utf8_scalar_def)
  next
    case 2
    then have "2 \<le> c div 64" "c div 64 < 32" "c mod 64 \<le> 63" by (auto simp: less_Suc_eq_le [symmetric])
    with 2 show ?thesis by (simp add: utf8_scalar_def utf8_tail_def)
  next
    case 3
    obtain a b d where c: "c = (a * 64 + b) * 64 + d" "b < 64" "d < 64" by (rule digits64)
    have range: "a < 16" "a = 0 \<longrightarrow> 32 \<le> b" "a = 13 \<longrightarrow> b \<le> 31"
      using 3 c assms by (auto simp: scalar_value_def)
    have v: "a * 4096 + b * 64 + d = c" using c(1) by simp
    have "utf8_scalar c = [0xE0 + a, 0x80 + b, 0x80 + d]"
      using 3 by (simp add: utf8_scalar_def digits64_div [OF c])
    then show ?thesis using range c(2,3) v by (simp add: utf8_tail_def)
  next
    case 4
    obtain q b d where c: "c = (q * 64 + b) * 64 + d" "b < 64" "d < 64" by (rule digits64)
    obtain e a where q: "q = e * 64 + a" "a < 64" by (metis div_mult_mod_eq mod_less_divisor zero_less_numeral)
    have range: "e < 5" "e = 0 \<longrightarrow> 16 \<le> a" "e = 4 \<longrightarrow> a \<le> 15"
      using 4 c q by auto
    have v: "e * 262144 + a * 4096 + b * 64 + d = c" using c(1) q(1) by simp
    have "c div 262144 = e" "c div 4096 mod 64 = a"
      using div_mult2_eq [of c 4096 64] q by (simp_all add: digits64_div [OF c])
    then have "utf8_scalar c = [0xF0 + e, 0x80 + a, 0x80 + b, 0x80 + d]"
      using 4 by (simp add: utf8_scalar_def digits64_div [OF c])
    then show ?thesis using range c(2,3) q(2) v by (simp add: utf8_tail_def)
  qed
qed

lemma utf8_scalars_encoded:
  "\<forall>c \<in> set cs. scalar_value c \<Longrightarrow> utf8_scalars (concat (map utf8_scalar cs)) = Some cs"
  by (induction cs) (simp_all add: utf8_scalars_step)

subsection \<open>Well-formed strings\<close>

text \<open>Every surrogate has its partner, so that nothing is replaced.\<close>

fun well_formed :: "units \<Rightarrow> bool" where
  "well_formed [] \<longleftrightarrow> True"
| "well_formed (u # us) \<longleftrightarrow>
     (if high_surrogate u then (case us of v # vs \<Rightarrow> low_surrogate v \<and> well_formed vs | [] \<Rightarrow> False)
      else \<not> low_surrogate u \<and> u < 0x10000 \<and> well_formed us)"

lemma utf16_round_trip:
  "well_formed us \<Longrightarrow> concat (map utf16_units (utf16_scalars us)) = us"
proof (induction us rule: well_formed.induct)
  case (2 u us)
  show ?case
  proof (cases "high_surrogate u")
    case False
    with 2 show ?thesis by (simp add: utf16_units_def)
  next
    case True
    with 2(3) obtain v vs where us: "us = v # vs" "low_surrogate v" "well_formed vs" by (auto split: list.splits)
    let ?c = "0x10000 + (u - 0xD800) * 0x400 + (v - 0xDC00)"
    obtain k where k: "v = 0xDC00 + k" "k < 1024"
    proof (rule that)
      show "v = 0xDC00 + (v - 0xDC00)" "v - 0xDC00 < 1024" using us(2) unfolding low_surrogate_def by linarith+
    qed
    obtain j where j: "u = 0xD800 + j" using True unfolding high_surrogate_def by (metis le_Suc_ex)
    have "utf16_units ?c = [u, v]" using k by (simp add: utf16_units_def j)
    with True us 2(1) [OF True us(1)] show ?thesis by simp
  qed
qed simp

lemma scalar_values_of_units:
  "list_all (\<lambda>u. u < 0x10000) us \<Longrightarrow> \<forall>c \<in> set (utf16_scalars us). scalar_value c"
proof (induction us rule: utf16_scalars.induct)
  case (2 u us)
  show ?case
  proof (cases "high_surrogate u")
    case False
    with 2 show ?thesis by (auto simp: scalar_value_def low_surrogate_def high_surrogate_def)
  next
    case True
    show ?thesis
    proof (cases us)
      case Nil
      with True show ?thesis by (simp add: scalar_value_def)
    next
      case (Cons v vs)
      show ?thesis
      proof (cases "low_surrogate v")
        case lv: True
        with True 2 Cons show ?thesis by (auto simp: scalar_value_def high_surrogate_def low_surrogate_def)
      next
        case lv: False
        with True 2 Cons show ?thesis by (auto simp: scalar_value_def)
      qed
    qed
  qed
qed simp

lemma utf8_scalar_byte: "scalar_value c \<Longrightarrow> b \<in> set (utf8_scalar c) \<Longrightarrow> b < 256"
  by (auto simp: utf8_scalar_def scalar_value_def split: if_splits)

lemma encoded_bytes:
  assumes "\<forall>c \<in> set (utf16_scalars us). scalar_value c"
  shows "map unat (utf8_encode us) = concat (map utf8_scalar (utf16_scalars us))"
proof -
  have "map (\<lambda>b. unat (word_of_nat b :: 8 word)) bs = bs" if "\<forall>b \<in> set bs. b < 256" for bs
    using that by (induction bs) (simp_all add: unat_of_nat)
  moreover have "\<forall>b \<in> set (concat (map utf8_scalar (utf16_scalars us))). b < 256"
    using assms utf8_scalar_byte by fastforce
  ultimately show ?thesis by (simp add: utf8_encode_def o_def)
qed

text \<open>Only one character starts with the bytes of the byte order mark.\<close>

lemma byte_order_mark:
  assumes "scalar_value c" "take 3 (utf8_scalar c @ bs) = [0xEF, 0xBB, 0xBF]"
  shows "c = 0xFEFF"
proof -
  consider "c < 0x80" | "0x80 \<le> c" "c < 0x800" | "0x800 \<le> c" "c < 0x10000" | "0x10000 \<le> c" "c < 0x110000"
    using assms(1) unfolding scalar_value_def by linarith
  then show ?thesis
  proof cases
    case 1
    with assms(2) show ?thesis by (simp add: utf8_scalar_def)
  next
    case 2
    then have "c div 64 < 32" by auto
    with 2 assms(2) show ?thesis by (simp add: utf8_scalar_def)
  next
    case 3
    obtain a b d where c: "c = (a * 64 + b) * 64 + d" "b < 64" "d < 64" by (rule digits64)
    have "utf8_scalar c = [0xE0 + a, 0x80 + b, 0x80 + d]"
      using 3 by (simp add: utf8_scalar_def digits64_div [OF c])
    with assms(2) have "a = 15" "b = 59" "d = 63" by simp_all
    with c(1) show ?thesis by simp
  next
    case 4
    with assms(2) show ?thesis by (simp add: utf8_scalar_def)
  qed
qed

definition starts_with_mark :: "units \<Rightarrow> bool" where
  "starts_with_mark us \<longleftrightarrow> (case us of u # _ \<Rightarrow> u = 0xFEFF | [] \<Rightarrow> False)"

lemma well_formed_units: "well_formed us \<Longrightarrow> list_all (\<lambda>u. u < 0x10000) us"
proof (induction us rule: well_formed.induct)
  case (2 u us)
  show ?case
  proof (cases "high_surrogate u")
    case True
    with 2(3) obtain v vs where us: "us = v # vs" "low_surrogate v" "well_formed vs" by (auto split: list.splits)
    with 2(1) [OF True us(1)] True show ?thesis by (auto simp: high_surrogate_def low_surrogate_def)
  qed (use 2 in auto)
qed simp

lemma utf8_round_trip:
  assumes "well_formed us"
  shows "utf8_decode (utf8_encode us) = Ok (if starts_with_mark us then tl us else us)"
proof -
  have s: "\<forall>c \<in> set (utf16_scalars us). scalar_value c"
    using assms by (intro scalar_values_of_units well_formed_units)
  have decode: "utf8_scalars (map unat (utf8_encode us)) = Some (utf16_scalars us)"
    unfolding encoded_bytes [OF s] by (rule utf8_scalars_encoded [OF s])
  have mark: "take 3 (utf8_encode us) = [0xEF, 0xBB, 0xBF] \<longleftrightarrow>
      take 3 (concat (map utf8_scalar (utf16_scalars us))) = [0xEF, 0xBB, 0xBF]"
  proof -
    have "take 3 (utf8_encode us) = [0xEF, 0xBB, 0xBF] \<longleftrightarrow>
        map unat (take 3 (utf8_encode us)) = map unat [0xEF, 0xBB, 0xBF :: 8 word]"
      by (subst inj_map_eq_map) simp_all
    then show ?thesis by (simp add: take_map [symmetric] encoded_bytes [OF s])
  qed
  show ?thesis
  proof (cases "starts_with_mark us")
    case True
    then obtain rest where us: "us = 0xFEFF # rest" by (auto simp: starts_with_mark_def split: list.splits)
    have "well_formed rest" using assms us by (simp add: high_surrogate_def low_surrogate_def)
    have sc: "utf16_scalars us = 0xFEFF # utf16_scalars rest"
      by (simp add: us high_surrogate_def low_surrogate_def)
    have r: "drop 3 (map unat (utf8_encode us)) = concat (map utf8_scalar (utf16_scalars rest))"
      "take 3 (concat (map utf8_scalar (utf16_scalars us))) = [0xEF, 0xBB, 0xBF]"
      unfolding encoded_bytes [OF s] by (simp_all add: sc utf8_scalar_def)
    have "utf8_scalars (map unat (drop 3 (utf8_encode us))) = Some (utf16_scalars rest)"
      using r(1) s utf8_scalars_encoded [of "utf16_scalars rest"] by (simp add: drop_map sc)
    then show ?thesis
      using True us mark r(2) utf16_round_trip [OF \<open>well_formed rest\<close>] by (simp add: utf8_decode_def)
  next
    case False
    have "take 3 (concat (map utf8_scalar (utf16_scalars us))) \<noteq> [0xEF, 0xBB, 0xBF]"
    proof
      assume t: "take 3 (concat (map utf8_scalar (utf16_scalars us))) = [0xEF, 0xBB, 0xBF]"
      then obtain c cs where cs: "utf16_scalars us = c # cs" by (cases "utf16_scalars us") auto
      have "c = 0xFEFF" by (rule byte_order_mark) (use t cs s in auto)
      with cs have "hd us = 0xFEFF \<and> us \<noteq> []"
        by (cases us) (auto simp: high_surrogate_def split: if_splits list.splits)
      with False show False by (auto simp: starts_with_mark_def split: list.splits)
    qed
    then show ?thesis
      using False mark decode utf16_round_trip [OF assms] by (simp add: utf8_decode_def)
  qed
qed

end
