(* ===== verification/Index_Tables.thy ===== *)
theory Index_Tables
  imports Index_Strings "HOL-Library.AList"
begin

text \<open>
  The section builders of \<open>runtime-index/writer-tables.ts\<close>: the string interner and the tables of fixed
  width rows.  The source writes each row into a zeroed buffer column after column; here a row is the
  list of its bytes and a table the concatenation of its rows.
\<close>

subsection \<open>The string interner\<close>

text \<open>The set of values keeps its insertion order; the sealed table is sorted by code units.\<close>

record string_interner =
  si_values :: "units list"
  si_table :: "units list"
  si_sealed :: bool

definition new_interner :: string_interner where
  "new_interner = \<lparr>si_values = [], si_table = [], si_sealed = False\<rparr>"

definition intern_add :: "units \<Rightarrow> string_interner \<Rightarrow> string_interner outcome" where
  "intern_add v si =
     (if si_sealed si then Thrown PlainError
      else Ok (si\<lparr>si_values := if v \<in> set (si_values si) then si_values si else si_values si @ [v]\<rparr>))"

definition intern_seal :: "string_interner \<Rightarrow> string_interner" where
  "intern_seal si =
     (if si_sealed si then si else si\<lparr>si_table := sort (si_values si), si_sealed := True\<rparr>)"

definition intern_idOf :: "string_interner \<Rightarrow> units \<Rightarrow> nat outcome" where
  "intern_idOf si v =
     (if \<not> si_sealed si then Thrown PlainError
      else case index_of (si_table si) v of None \<Rightarrow> Thrown PlainError | Some i \<Rightarrow> Ok i)"

definition idOrSentinel :: "string_interner \<Rightarrow> units option \<Rightarrow> nat outcome" where
  "idOrSentinel si v =
     (case v of
        None \<Rightarrow> Ok CONTEXT_INDEX_NO_VALUE
      | Some s \<Rightarrow> if s = [] then Ok CONTEXT_INDEX_NO_VALUE else intern_idOf si s)"

definition interner_size :: "string_interner \<Rightarrow> nat" where
  "interner_size si = (if si_sealed si then length (si_table si) else length (si_values si))"

fun running_ends :: "nat \<Rightarrow> bytes list \<Rightarrow> nat list" where
  "running_ends running [] = []"
| "running_ends running (blob # blobs) = (running + length blob) # running_ends (running + length blob) blobs"

definition intern_encode :: "string_interner \<Rightarrow> bytes outcome" where
  "intern_encode si =
     (if \<not> si_sealed si then Thrown PlainError
      else let blobs = map utf8_encode (si_table si)
           in Ok (concat (map (le_bytes 4) (running_ends 0 blobs)) @ concat blobs))"

subsection \<open>Tables\<close>

definition u32Section :: "nat list \<Rightarrow> bytes" where
  "u32Section values = concat (map (le_bytes 4) values)"

definition count_bucket :: "nat \<Rightarrow> nat list \<Rightarrow> nat list" where
  "count_bucket b counts = counts[b := counts ! b + 1]"

fun prefix_sums :: "nat \<Rightarrow> nat list \<Rightarrow> nat list" where
  "prefix_sums running [] = [running]"
| "prefix_sums running (n # ns) = running # prefix_sums (running + n) ns"

definition csrOffsets :: "nat list \<Rightarrow> nat \<Rightarrow> nat list" where
  "csrOffsets buckets nodeCount = prefix_sums 0 (fold count_bucket buckets (replicate nodeCount 0))"

record term_table =
  tt_table :: bytes
  tt_postings :: bytes
  tt_termCount :: nat
  tt_postingCount :: nat

definition group_entry :: "nat \<times> nat \<Rightarrow> (nat \<times> nat list) list \<Rightarrow> (nat \<times> nat list) list" where
  "group_entry entry grouped =
     (case map_of grouped (fst entry) of
        Some nodes \<Rightarrow> AList.update (fst entry) (nodes @ [snd entry]) grouped
      | None \<Rightarrow> grouped @ [(fst entry, [snd entry])])"

definition term_row_bytes :: "nat \<Rightarrow> nat \<Rightarrow> nat \<Rightarrow> bytes" where
  "term_row_bytes termId start n = le_bytes 4 termId @ le_bytes 4 start @ le_bytes 4 n"

text \<open>The rows of a term table with the postings they address, in the order of the runs.\<close>

fun term_rows :: "nat \<Rightarrow> (nat \<times> nat list) list \<Rightarrow> bytes" where
  "term_rows start [] = []"
| "term_rows start ((termId, nodes) # runs) =
     term_row_bytes termId start (length nodes) @ term_rows (start + length nodes) runs"

definition runs_table :: "(nat \<times> nat list) list \<Rightarrow> term_table" where
  "runs_table runs =
     (let postings = concat (map snd runs)
      in \<lparr>tt_table = term_rows 0 runs, tt_postings = u32Section postings,
          tt_termCount = length runs, tt_postingCount = length postings\<rparr>)"

definition termTable :: "(nat \<times> nat) list \<Rightarrow> term_table" where
  "termTable entries =
     (let grouped = fold group_entry entries [];
          terms = sort (map fst grouped)
      in runs_table (map (\<lambda>termId. (termId, sort (the (map_of grouped termId)))) terms))"

record provenance_row =
  pr_pathId :: nat
  pr_line :: nat
  pr_hashId :: nat
  pr_extractorId :: nat

definition provenanceTable :: "provenance_row list \<Rightarrow> bytes" where
  "provenanceTable rows =
     concat (map (\<lambda>r. le_bytes 4 (pr_pathId r) @ le_bytes 4 (pr_line r) @ le_bytes 4 (pr_hashId r) @
                      le_bytes 4 (pr_extractorId r)) rows)"

record metadata_row =
  md_node :: nat
  md_key :: nat
  md_value :: nat
  md_type :: nat
  md_ordinal :: nat

definition metadataTable :: "metadata_row list \<Rightarrow> bytes" where
  "metadataTable rows =
     concat (map (\<lambda>r. le_bytes 4 (md_node r) @ le_bytes 4 (md_key r) @ le_bytes 4 (md_value r) @
                      le_bytes 2 (md_type r) @ le_bytes 2 (md_ordinal r)) rows)"

definition pairTable :: "(nat \<times> nat) list \<Rightarrow> bytes" where
  "pairTable rows = concat (map (\<lambda>r. le_bytes 4 (fst r) @ le_bytes 4 (snd r)) rows)"

text \<open>
  \<open>Number.parseInt(pair, 16)\<close> of two characters reads the longest hexadecimal prefix, after blanks and
  a sign, and is \<open>NaN\<close>, written 0, when there is none.  A hash is written in hexadecimal digits only;
  for the other two character texts the reading is spelt out.
\<close>

definition hex_digit :: "nat \<Rightarrow> nat option" where
  "hex_digit u =
     (if 48 \<le> u \<and> u \<le> 57 then Some (u - 48)
      else if 97 \<le> u \<and> u \<le> 102 then Some (u - 87)
      else if 65 \<le> u \<and> u \<le> 70 then Some (u - 55)
      else None)"

definition js_space :: "nat \<Rightarrow> bool" where
  "js_space u \<longleftrightarrow>
     9 \<le> u \<and> u \<le> 13 \<or> 0x2000 \<le> u \<and> u \<le> 0x200A \<or>
     u \<in> {0x20, 0xA0, 0x1680, 0x2028, 0x2029, 0x202F, 0x205F, 0x3000, 0xFEFF}"

definition hex_pair :: "nat \<Rightarrow> nat \<Rightarrow> 8 word" where
  "hex_pair a b =
     (let second = (case hex_digit b of Some y \<Rightarrow> int y | None \<Rightarrow> 0)
      in word_of_int
           (case hex_digit a of
              Some x \<Rightarrow> (case hex_digit b of Some y \<Rightarrow> int (x * 16 + y) | None \<Rightarrow> int x)
            | None \<Rightarrow> if js_space a \<or> a = 43 then second else if a = 45 then - second else 0))"

definition hexToBytes :: "units \<Rightarrow> nat \<Rightarrow> bytes" where
  "hexToBytes v len =
     (let usable = min (len * 2) (length v - length v mod 2)
      in map (\<lambda>i. if i * 2 < usable then hex_pair (v ! (i * 2)) (v ! (i * 2 + 1)) else 0) [0..<len])"

subsection \<open>Reading tables back\<close>

lemma concat_row:
  assumes "\<And>r. r \<in> set rows \<Longrightarrow> length (f r) = w" "i < length rows" "off + k \<le> w"
  shows "sub_bytes (i * w + off) k (concat (map f rows)) = sub_bytes off k (f (rows ! i))"
proof -
  have "length (f r) = w" if "r \<in> set (take i rows)" for r
    using that by (intro assms(1)) (rule in_set_takeD)
  from length_concat_same [of "take i rows" f w, OF this] assms(2)
  have "length (concat (take i (map f rows))) = i * w" by (simp add: take_map)
  then have row: "sub_bytes (i * w) w (concat (map f rows)) = f (rows ! i)"
    using sub_bytes_concat [of i "map f rows" "[]" "[]"] assms by simp
  show ?thesis using sub_bytes_sub_bytes [OF assms(3), of "i * w" "concat (map f rows)"] by (simp add: row)
qed

lemma length_concat_rows:
  "(\<And>r. r \<in> set rows \<Longrightarrow> length (f r) = w) \<Longrightarrow> length (concat (map f rows)) = length rows * w"
  by (rule length_concat_same)

lemma length_u32Section [simp]: "length (u32Section vs) = length vs * 4"
  by (simp add: u32Section_def length_concat_rows)

lemma u32Section_nth:
  "i < length vs \<Longrightarrow> vs ! i < 2 ^ 32 \<Longrightarrow> le_nat (sub_bytes (i * 4) 4 (u32Section vs)) = vs ! i"
  using concat_row [of vs "le_bytes 4" 4 i 0 4] by (simp add: u32Section_def sub_bytes_all le_nat_bytes)

text \<open>The offsets of a bucket sort count the smaller buckets.\<close>

lemma length_prefix_sums [simp]: "length (prefix_sums r ns) = length ns + 1"
  by (induction ns arbitrary: r) auto

lemma prefix_sums_nth: "i \<le> length ns \<Longrightarrow> prefix_sums r ns ! i = r + sum_list (take i ns)"
  by (induction ns arbitrary: r i) (auto simp: take_Cons' nth_Cons')

lemma fold_count_bucket:
  "\<forall>b \<in> set buckets. b < length counts \<Longrightarrow>
     fold count_bucket buckets counts = map (\<lambda>b. counts ! b + count_list buckets b) [0..<length counts]"
proof (induction buckets arbitrary: counts)
  case Nil
  then show ?case by (simp add: map_nth)
next
  case (Cons b buckets)
  let ?c = "count_bucket b counts"
  have len: "length ?c = length counts" by (simp add: count_bucket_def)
  have "fold count_bucket buckets ?c = map (\<lambda>x. ?c ! x + count_list buckets x) [0..<length counts]"
    using Cons.IH [of ?c] Cons.prems len by simp
  also have "\<dots> = map (\<lambda>x. counts ! x + count_list (b # buckets) x) [0..<length counts]"
    using Cons.prems by (intro map_cong) (auto simp: count_bucket_def nth_list_update)
  finally show ?case by simp
qed

lemma sum_counts: "sum_list (map (count_list bs) [0..<i]) = length (filter (\<lambda>b. b < i) bs)"
proof (induction i)
  case (Suc i)
  have "length (filter (\<lambda>b. b < Suc i) bs) = length (filter (\<lambda>b. b < i) bs) + count_list bs i"
    by (induction bs) auto
  with Suc show ?case by simp
qed simp

lemma csrOffsets_nth:
  assumes "\<forall>b \<in> set buckets. b < n" "i \<le> n"
  shows "csrOffsets buckets n ! i = length (filter (\<lambda>b. b < i) buckets)"
proof -
  have "fold count_bucket buckets (replicate n 0) = map (count_list buckets) [0..<n]"
    using fold_count_bucket [of buckets "replicate n 0"] assms(1) by simp
  then show ?thesis
    using assms(2) sum_counts [of buckets i] by (simp add: csrOffsets_def prefix_sums_nth take_map)
qed

lemma length_csrOffsets [simp]: "length (csrOffsets buckets n) = n + 1"
proof -
  have "length (fold count_bucket buckets counts) = length counts" for counts
    by (induction buckets arbitrary: counts) (simp_all add: count_bucket_def)
  then show ?thesis by (simp add: csrOffsets_def)
qed

lemma csrOffsets_facts:
  assumes "\<forall>b \<in> set buckets. b < n"
  shows "csrOffsets buckets n ! n = length buckets"
    "i \<le> j \<Longrightarrow> j \<le> n \<Longrightarrow> csrOffsets buckets n ! i \<le> csrOffsets buckets n ! j"
proof -
  show "csrOffsets buckets n ! n = length buckets"
    using assms by (simp add: csrOffsets_nth)
  show "csrOffsets buckets n ! i \<le> csrOffsets buckets n ! j" if "i \<le> j" "j \<le> n"
    using that assms by (simp add: csrOffsets_nth) (induction buckets; auto)
qed

text \<open>In a sorted column the rows of a bucket are exactly the slots between its two offsets.\<close>

lemma sorted_below:
  fixes xs :: "nat list"
  assumes "sorted xs" "k < length xs"
  shows "xs ! k < i \<longleftrightarrow> k < length (filter (\<lambda>b. b < i) xs)"
  using assms
proof (induction xs arbitrary: k)
  case (Cons x xs)
  show ?case
  proof (cases "x < i")
    case True
    with Cons show ?thesis by (cases k) auto
  next
    case False
    with Cons.prems have "\<forall>y \<in> set (x # xs). \<not> y < i" by auto
    then have "filter (\<lambda>b. b < i) (x # xs) = []" by (simp only: filter_empty_conv)
    then show ?thesis using \<open>\<forall>y \<in> set (x # xs). \<not> y < i\<close> Cons.prems(2) nth_mem by (metis length_0_conv not_less0)
  qed
qed simp

lemma filter_upt_range: "hi \<le> n \<Longrightarrow> filter (\<lambda>k. lo \<le> k \<and> k < hi) [0..<n] = [lo..<hi]"
  by (rule sorted_distinct_set_unique) (auto simp: sorted_wrt_filter)

lemma sorted_bucket:
  assumes "sorted buckets" "\<forall>b \<in> set buckets. b < n" "i < n"
  shows "filter (\<lambda>k. buckets ! k = i) [0..<length buckets] = [csrOffsets buckets n ! i..<csrOffsets buckets n ! (i + 1)]"
proof -
  let ?lo = "length (filter (\<lambda>b. b < i) buckets)" and ?hi = "length (filter (\<lambda>b. b < i + 1) buckets)"
  have "filter (\<lambda>k. buckets ! k = i) [0..<length buckets] = filter (\<lambda>k. ?lo \<le> k \<and> k < ?hi) [0..<length buckets]"
  proof (intro filter_cong refl)
    fix k assume "k \<in> set [0..<length buckets]"
    then have "buckets ! k < i \<longleftrightarrow> k < ?lo" "buckets ! k < i + 1 \<longleftrightarrow> k < ?hi"
      using sorted_below [OF assms(1)] by simp_all
    then show "buckets ! k = i \<longleftrightarrow> ?lo \<le> k \<and> k < ?hi" by linarith
  qed
  also have "\<dots> = [?lo..<?hi]" by (rule filter_upt_range) simp
  finally show ?thesis using assms by (simp add: csrOffsets_nth)
qed

subsection \<open>Term tables\<close>

lemma grouped_spec:
  fixes entries :: "(nat \<times> nat) list"
  defines "G \<equiv> fold group_entry entries []"
  shows "distinct (map fst G) \<and> set (map fst G) = fst ` set entries \<and>
    (\<forall>t. map_of G t = (if t \<in> fst ` set entries then Some (map snd (filter (\<lambda>e. fst e = t) entries)) else None))"
  unfolding G_def
proof (induction entries rule: rev_induct)
  case (snoc e entries)
  let ?G = "fold group_entry entries []"
  have m: "map_of ?G t = (if t \<in> fst ` set entries then Some (map snd (filter (\<lambda>e. fst e = t) entries)) else None)" for t
    using snoc by blast
  show ?case
  proof (cases "fst e \<in> fst ` set entries")
    case True
    let ?ns = "map snd (filter (\<lambda>x. fst x = fst e) entries)"
    have g: "fold group_entry (entries @ [e]) [] = AList.update (fst e) (?ns @ [snd e]) ?G"
      using True m [of "fst e"] by (simp add: group_entry_def)
    show ?thesis unfolding g
      using snoc True by (auto simp: distinct_update dom_update update_conv m)
  next
    case False
    then have g: "fold group_entry (entries @ [e]) [] = ?G @ [(fst e, [snd e])]"
      using m [of "fst e"] by (simp add: group_entry_def)
    have none: "filter (\<lambda>x. fst x = fst e) entries = []" unfolding filter_empty_conv using False by (metis image_eqI)
    show ?thesis unfolding g
      using snoc False m [of "fst e"] none by (auto simp: m map_add_def split: option.splits)
  qed
qed simp

definition term_runs :: "(nat \<times> nat) list \<Rightarrow> (nat \<times> nat list) list" where
  "term_runs entries =
     map (\<lambda>t. (t, sort (map snd (filter (\<lambda>e. fst e = t) entries)))) (sorted_list_of_set (fst ` set entries))"

lemma termTable_runs: "termTable entries = runs_table (term_runs entries)"
proof -
  note G = grouped_spec [of entries]
  have keys: "sort (map fst (fold group_entry entries [])) = sorted_list_of_set (fst ` set entries)"
    using G by (metis distinct_sort set_sort sorted_list_of_set_sort_remdups distinct_remdups_id)
  show ?thesis unfolding termTable_def term_runs_def Let_def keys
    using G by (intro arg_cong [where f = runs_table] map_cong) auto
qed

lemma length_term_row [simp]: "length (term_row_bytes t s n) = 12"
  by (simp add: term_row_bytes_def)

lemma term_rows_concat:
  "term_rows s runs = concat (map (\<lambda>i. term_row_bytes (fst (runs ! i))
     (s + length (concat (map snd (take i runs)))) (length (snd (runs ! i)))) [0..<length runs])"
proof (induction s runs rule: term_rows.induct)
  case (2 s t nodes runs)
  show ?case unfolding term_rows.simps 2
    by (simp add: upt_conv_Cons map_Suc_upt [symmetric] o_def add.assoc del: upt_Suc)
qed simp

lemma term_row_read:
  assumes "i < length runs"
  shows "sub_bytes (i * 12) 4 (term_rows s runs) = le_bytes 4 (fst (runs ! i))"
    "sub_bytes (i * 12 + 4) 4 (term_rows s runs) = le_bytes 4 (s + length (concat (map snd (take i runs))))"
    "sub_bytes (i * 12 + 8) 4 (term_rows s runs) = le_bytes 4 (length (snd (runs ! i)))"
proof -
  let ?f = "\<lambda>i. term_row_bytes (fst (runs ! i)) (s + length (concat (map snd (take i runs)))) (length (snd (runs ! i)))"
  have c: "sub_bytes (i * 12 + off) 4 (term_rows s runs) = sub_bytes off 4 (?f i)" if "off + 4 \<le> 12" for off
    using concat_row [of "[0..<length runs]" ?f 12 i off 4] assms that by (simp add: term_rows_concat)
  from c [of 0] c [of 4] c [of 8]
  show "sub_bytes (i * 12) 4 (term_rows s runs) = le_bytes 4 (fst (runs ! i))"
    "sub_bytes (i * 12 + 4) 4 (term_rows s runs) = le_bytes 4 (s + length (concat (map snd (take i runs))))"
    "sub_bytes (i * 12 + 8) 4 (term_rows s runs) = le_bytes 4 (length (snd (runs ! i)))"
    by (simp_all add: term_row_bytes_def sub_bytes_def)
qed

lemma length_term_rows [simp]: "length (term_rows s runs) = length runs * 12"
  unfolding term_rows_concat by (subst length_concat_rows [where w = 12]) simp_all

subsection \<open>The string section\<close>

definition string_section :: "units list \<Rightarrow> bytes" where
  "string_section table =
     concat (map (le_bytes 4) (running_ends 0 (map utf8_encode table))) @ concat (map utf8_encode table)"

lemma length_running_ends [simp]: "length (running_ends r blobs) = length blobs"
  by (induction r blobs rule: running_ends.induct) auto

lemma running_ends_nth:
  "i < length blobs \<Longrightarrow> running_ends r blobs ! i = r + length (concat (take (Suc i) blobs))"
  by (induction r blobs arbitrary: i rule: running_ends.induct) (auto simp: nth_Cons' take_Cons')

lemma string_section_end:
  assumes "i < length table"
  shows "sub_bytes (i * 4) 4 (string_section table) = le_bytes 4 (length (concat (map utf8_encode (take (Suc i) table))))"
proof -
  let ?ends = "running_ends 0 (map utf8_encode table)"
  have "sub_bytes (i * 4 + 0) 4 (concat (map (le_bytes 4) ?ends)) = sub_bytes 0 4 (le_bytes 4 (?ends ! i))"
    by (rule concat_row) (use assms in simp_all)
  moreover have "length (concat (map (le_bytes 4) ?ends)) = length table * 4"
    using length_concat_rows [of ?ends "le_bytes 4" 4] by simp
  ultimately show ?thesis
    using assms sub_bytes_append_left [of "i * 4" 4 "concat (map (le_bytes 4) ?ends)"]
    by (simp add: string_section_def running_ends_nth sub_bytes_all take_map)
qed

lemma length_string_section:
  "length (string_section table) = length table * 4 + length (concat (map utf8_encode table))"
  using length_concat_rows [of "running_ends 0 (map utf8_encode table)" "le_bytes 4" 4]
  by (simp add: string_section_def)

lemma string_section_blob:
  assumes "i < length table"
  shows "sub_bytes (length table * 4 + length (concat (map utf8_encode (take i table)))) (length (utf8_encode (table ! i)))
    (string_section table) = utf8_encode (table ! i)"
  using sub_bytes_concat [of i "map utf8_encode table" "concat (map (le_bytes 4) (running_ends 0 (map utf8_encode table)))" "[]"]
    length_concat_rows [of "running_ends 0 (map utf8_encode table)" "le_bytes 4" 4] assms
  by (simp add: string_section_def take_map)

end
