(* ===== verification/Index_Writer.thy ===== *)
theory Index_Writer
  imports Index_Tables Kernel_Types "HOL-Library.Product_Lexorder"
begin

text \<open>
  The index writer, \<open>encodeContextIndex\<close> of \<open>runtime-index/writer.ts\<close>, with the snapshot it reads
  (\<open>contracts.ts\<close>), the row contract of \<open>writer-contract.ts\<close> and the lane encoder of
  \<open>writer-lexical.ts\<close>.  The lexicon builder is an argument: what it returns is checked by the lane
  encoder, so nothing is assumed of it.
\<close>

subsection \<open>Snapshots\<close>

text \<open>
  A number in the metadata of a node is represented by the text \<open>String\<close> gives it.  A value of an enum
  is \<open>None\<close> when the snapshot holds a string outside the enum.
\<close>

datatype metadata_value =
    MV_string units | MV_boolean bool | MV_number units | MV_null | MV_array "units list"

record graph_node =
  gn_id :: units
  gn_kind :: "node_kind option"
  gn_label :: units
  gn_path :: "units option"
  gn_line :: "nat option"
  gn_column :: "nat option"
  gn_contentHash :: "units option"
  gn_trust :: js_number
  gn_freshness :: "freshness option"
  gn_risk :: "risk option"
  gn_tokenCost :: rat
  gn_metadata :: "(units \<times> metadata_value) list"

record graph_provenance =
  gp_path :: units
  gp_line :: "nat option"
  gp_hash :: units
  gp_extractor :: units

record graph_edge =
  ge_id :: units
  ge_from :: units
  ge_to :: units
  ge_type :: "edge_type option"
  ge_confidence :: "edge_confidence option"
  ge_provenance :: graph_provenance

record graph_snapshot =
  gs_snapshotHash :: units
  gs_nodes :: "graph_node list"
  gs_edges :: "graph_edge list"
  gs_cycles :: "units list list"

definition code_of :: "'a list \<Rightarrow> 'a option \<Rightarrow> nat option" where
  "code_of codes v = (case v of None \<Rightarrow> None | Some x \<Rightarrow> index_of codes x)"

subsection \<open>The row contract\<close>

record metadata_cell =
  mc_type :: nat
  mc_text :: units
  mc_ordinal :: nat

definition metadata_cell_of :: "nat \<Rightarrow> units \<Rightarrow> nat \<Rightarrow> metadata_cell" where
  "metadata_cell_of type text ordinal = \<lparr>mc_type = type, mc_text = text, mc_ordinal = ordinal\<rparr>"

definition units_of :: "string \<Rightarrow> units" where
  "units_of s = map of_char s"

definition CONTEXT_INDEX_METADATA_MAX_ARRAY_LENGTH :: nat where
  "CONTEXT_INDEX_METADATA_MAX_ARRAY_LENGTH = 0x10000"

fun contextIndexMetadataCells :: "metadata_value \<Rightarrow> metadata_cell list outcome" where
  "contextIndexMetadataCells (MV_array entries) =
     (if entries = [] then Ok [metadata_cell_of 5 [] 0]
      else if CONTEXT_INDEX_METADATA_MAX_ARRAY_LENGTH < length entries then Refuse (writer_refuses count_limit)
      else Ok (map (\<lambda>(ordinal, entry). metadata_cell_of METADATA_ARRAY_ELEMENT entry ordinal) (enumerate 0 entries)))"
| "contextIndexMetadataCells MV_null = Ok [metadata_cell_of 3 (units_of ''null'') 0]"
| "contextIndexMetadataCells (MV_boolean b) =
     Ok [metadata_cell_of 1 (if b then units_of ''true'' else units_of ''false'') 0]"
| "contextIndexMetadataCells (MV_number text) = Ok [metadata_cell_of 2 text 0]"
| "contextIndexMetadataCells (MV_string text) = Ok [metadata_cell_of 0 text 0]"

text \<open>\<open>value.split('/')\<close>.\<close>

fun split_units :: "nat \<Rightarrow> units \<Rightarrow> units list" where
  "split_units c [] = [[]]"
| "split_units c (u # us) =
     (if u = c then [] # split_units c us
      else case split_units c us of [] \<Rightarrow> [[u]] | p # ps \<Rightarrow> (u # p) # ps)"

definition letter_unit :: "nat \<Rightarrow> bool" where
  "letter_unit u \<longleftrightarrow> 65 \<le> u \<and> u \<le> 90 \<or> 97 \<le> u \<and> u \<le> 122"

definition writerRelativePath :: "units \<Rightarrow> bool" where
  "writerRelativePath v =
     (if v = [] then False
      else if hd v = 47 \<or> hd v = 126 then False
      else if 3 \<le> length v \<and> letter_unit (v ! 0) \<and> v ! 1 = 58 \<and> (v ! 2 = 92 \<or> v ! 2 = 47) then False
      else if 92 \<in> set v then False
      else if [46, 46] \<in> set (split_units 47 v) then False
      else True)"

definition EVIDENCE_KINDS :: "node_kind list" where
  "EVIDENCE_KINDS = [K_proof, K_source, K_wiki_claim]"

definition TEST_OR_GATE_KINDS :: "node_kind list" where
  "TEST_OR_GATE_KINDS = [K_test, K_gate]"

definition flag_if :: "bool \<Rightarrow> 32 word \<Rightarrow> 32 word" where
  "flag_if b flag = (if b then flag else 0)"

definition nodeFlags :: "graph_node \<Rightarrow> units list \<Rightarrow> units list \<Rightarrow> 32 word" where
  "nodeFlags node protectedIds invalidatedIds =
     flag_if (gn_id node \<notin> set invalidatedIds \<and> gn_freshness node = Some F_fresh) NODE_GROUNDABLE OR
     flag_if (gn_id node \<in> set invalidatedIds) NODE_INVALIDATED OR
     flag_if (gn_id node \<in> set protectedIds \<or> gn_risk node = Some R_protected) NODE_PROTECTED OR
     flag_if (gn_kind node \<in> Some ` set EVIDENCE_KINDS) NODE_IS_EVIDENCE OR
     flag_if (gn_kind node \<in> Some ` set TEST_OR_GATE_KINDS) NODE_IS_TEST_OR_GATE OR
     flag_if (gn_path node \<noteq> None) NODE_HAS_PATH OR
     flag_if (gn_contentHash node \<noteq> None) NODE_HAS_CONTENT_HASH"

subsection \<open>The dictionary lanes\<close>

text \<open>What the lexicon builder returns, as far as the lane encoder reads it.\<close>

record lexicon_term =
  lt_term :: units
  lt_postingOffset :: nat
  lt_postingCount :: nat

record lexicon_result =
  lx_terms :: "lexicon_term list"
  lx_postings :: "int list"

record lexical_build =
  lb_lexical :: lexicon_result
  lb_coarse :: lexicon_result
  lb_terms :: "units list"

definition refuse_if :: "bool \<Rightarrow> writer_error \<Rightarrow> unit outcome" where
  "refuse_if b e = (if b then Refuse (writer_refuses e) else Ok ())"

fun map_outcome :: "('a \<Rightarrow> 'b outcome) \<Rightarrow> 'a list \<Rightarrow> 'b list outcome" where
  "map_outcome f [] = Ok []"
| "map_outcome f (x # xs) = bind_outcome (f x) (\<lambda>y. bind_outcome (map_outcome f xs) (\<lambda>ys. Ok (y # ys)))"

definition lane_posting_node :: "int list \<Rightarrow> nat \<Rightarrow> nat \<Rightarrow> nat outcome" where
  "lane_posting_node postings nodeCount k =
     (if length postings \<le> k then Refuse (writer_refuses lexicon_invariant)
      else if postings ! k < 0 \<or> int nodeCount \<le> postings ! k then Refuse (writer_refuses lexicon_invariant)
      else Ok (nat (postings ! k)))"

text \<open>A row of the lane; the runs written so far end with the previous term.\<close>

definition lane_row_step ::
  "(units \<Rightarrow> nat outcome) \<Rightarrow> int list \<Rightarrow> nat \<Rightarrow> lexicon_term \<Rightarrow> (nat \<times> nat list) list \<Rightarrow>
   (nat \<times> nat list) list outcome" where
  "lane_row_step termIdOf postings nodeCount lrow runs =
     bind_outcome (termIdOf (lt_term lrow)) (\<lambda>termId.
     bind_outcome (refuse_if (runs \<noteq> [] \<and> termId \<le> fst (last runs)) lexicon_invariant) (\<lambda>_.
     bind_outcome (map_outcome (lane_posting_node postings nodeCount)
         [lt_postingOffset lrow..<lt_postingOffset lrow + lt_postingCount lrow]) (\<lambda>nodes.
       Ok (runs @ [(termId, nodes)]))))"

definition encodeContextIndexLane ::
  "lexicon_result \<Rightarrow> (units \<Rightarrow> nat outcome) \<Rightarrow> nat \<Rightarrow> term_table outcome" where
  "encodeContextIndexLane built termIdOf nodeCount =
     bind_outcome (each_row (lane_row_step termIdOf (lx_postings built) nodeCount) (lx_terms built) []) (\<lambda>runs.
       Ok (runs_table runs))"

definition EMPTY_CONTEXT_INDEX_LANE :: term_table where
  "EMPTY_CONTEXT_INDEX_LANE = \<lparr>tt_table = [], tt_postings = [], tt_termCount = 0, tt_postingCount = 0\<rparr>"

subsection \<open>The writer\<close>

record write_input =
  wi_snapshot :: graph_snapshot
  wi_configHash :: bytes
  wi_schemaRevision :: nat
  wi_lintErrors :: nat
  wi_protectedNodeIds :: "units list"
  wi_invalidatedNodeIds :: "units list"
  wi_lexicon :: "(graph_node list \<Rightarrow> lexical_build) option"

definition unique_id :: "graph_node \<Rightarrow> units list \<Rightarrow> units list outcome" where
  "unique_id node seen =
     bind_outcome (refuse_if (gn_id node \<in> set seen) duplicate_node) (\<lambda>_. Ok (seen @ [gn_id node]))"

definition intern_option :: "units option \<Rightarrow> string_interner \<Rightarrow> string_interner outcome" where
  "intern_option v si = (case v of None \<Rightarrow> Ok si | Some s \<Rightarrow> intern_add s si)"

definition intern_entry :: "units \<times> metadata_value \<Rightarrow> string_interner \<Rightarrow> string_interner outcome" where
  "intern_entry entry si =
     bind_outcome (intern_add (fst entry) si) (\<lambda>si.
     bind_outcome (contextIndexMetadataCells (snd entry)) (\<lambda>cells.
       each_row (\<lambda>cell. intern_add (mc_text cell)) cells si))"

definition intern_node :: "graph_node \<Rightarrow> string_interner \<Rightarrow> string_interner outcome" where
  "intern_node node si =
     bind_outcome (refuse_if (code_of CONTEXT_GRAPH_NODE_KINDS (gn_kind node) = None) unknown_enum) (\<lambda>_.
     bind_outcome (refuse_if (code_of FRESHNESS_CODES (gn_freshness node) = None \<or>
                              code_of RISK_CODES (gn_risk node) = None) unknown_enum) (\<lambda>_.
     bind_outcome (intern_add (gn_id node) si) (\<lambda>si.
     bind_outcome (intern_add (gn_label node) si) (\<lambda>si.
     bind_outcome (refuse_if (case gn_path node of None \<Rightarrow> False | Some p \<Rightarrow> \<not> writerRelativePath p) absolute_path) (\<lambda>_.
     bind_outcome (intern_option (gn_path node) si) (\<lambda>si.
     bind_outcome (intern_option (gn_contentHash node) si) (\<lambda>si.
       each_row intern_entry (gn_metadata node) si)))))))"

definition intern_edge :: "units list \<Rightarrow> graph_edge \<Rightarrow> string_interner \<Rightarrow> string_interner outcome" where
  "intern_edge ids edge si =
     bind_outcome (refuse_if (code_of CONTEXT_GRAPH_EDGE_TYPES (ge_type edge) = None) unknown_enum) (\<lambda>_.
     bind_outcome (refuse_if (code_of CONFIDENCE_CODES (ge_confidence edge) = None) unknown_enum) (\<lambda>_.
     bind_outcome (refuse_if (index_of ids (ge_from edge) = None \<or> index_of ids (ge_to edge) = None) dangling_edge) (\<lambda>_.
     bind_outcome (refuse_if (\<not> writerRelativePath (gp_path (ge_provenance edge))) absolute_path) (\<lambda>_.
     bind_outcome (intern_add (gp_path (ge_provenance edge)) si) (\<lambda>si.
     bind_outcome (intern_add (gp_hash (ge_provenance edge)) si) (\<lambda>si.
       intern_add (gp_extractor (ge_provenance edge)) si))))))"

text \<open>\<open>nodeIndex.get(id)\<close> and the code lookups, once their presence has been checked.\<close>

definition index_in :: "'a list \<Rightarrow> 'a \<Rightarrow> nat" where
  "index_in xs x = the (index_of xs x)"

definition ordered_edges :: "units list \<Rightarrow> graph_edge list \<Rightarrow> graph_edge list" where
  "ordered_edges ids edges =
     sort_key (\<lambda>e. (index_in ids (ge_from e), index_in ids (ge_to e),
                     the (code_of CONTEXT_GRAPH_EDGE_TYPES (ge_type e)), ge_id e)) edges"

definition or_no_value :: "nat option \<Rightarrow> nat" where
  "or_no_value v = (case v of None \<Rightarrow> CONTEXT_INDEX_NO_VALUE | Some n \<Rightarrow> n)"

definition provenance_row_of :: "string_interner \<Rightarrow> graph_provenance \<Rightarrow> provenance_row outcome" where
  "provenance_row_of si p =
     bind_outcome (intern_idOf si (gp_path p)) (\<lambda>path.
     bind_outcome (intern_idOf si (gp_hash p)) (\<lambda>hash.
     bind_outcome (intern_idOf si (gp_extractor p)) (\<lambda>extractor.
       Ok \<lparr>pr_pathId = path, pr_line = or_no_value (gp_line p), pr_hashId = hash, pr_extractorId = extractor\<rparr>)))"

definition provenanceIdFor :: "provenance_row \<Rightarrow> provenance_row list \<Rightarrow> nat \<times> provenance_row list" where
  "provenanceIdFor r rows =
     (case index_of rows r of Some i \<Rightarrow> (i, rows) | None \<Rightarrow> (length rows, rows @ [r]))"

definition CONTEXT_INDEX_PROFILE_MASK_RESERVED :: nat where
  "CONTEXT_INDEX_PROFILE_MASK_RESERVED = 0xffff"

definition edge_row_bytes :: "nat \<Rightarrow> nat \<Rightarrow> nat \<Rightarrow> nat \<Rightarrow> bytes" where
  "edge_row_bytes target type confidence provenance =
     le_bytes 4 target @ le_bytes 1 type @ le_bytes 1 confidence @ le_bytes 2 0 @ le_bytes 4 provenance @
     le_bytes 2 CONTEXT_INDEX_PROFILE_MASK_RESERVED @ le_bytes 2 0"

definition edge_step ::
  "string_interner \<Rightarrow> units list \<Rightarrow> graph_edge \<Rightarrow> bytes list \<times> provenance_row list \<Rightarrow>
   (bytes list \<times> provenance_row list) outcome" where
  "edge_step si ids e acc =
     bind_outcome (provenance_row_of si (ge_provenance e)) (\<lambda>r.
       let (provenance, provenanceRows) = provenanceIdFor r (snd acc)
       in Ok (fst acc @ [edge_row_bytes (index_in ids (ge_to e)) (the (code_of CONTEXT_GRAPH_EDGE_TYPES (ge_type e)))
                           (the (code_of CONFIDENCE_CODES (ge_confidence e))) provenance], provenanceRows))"

definition metadata_entry_rows ::
  "string_interner \<Rightarrow> nat \<Rightarrow> units \<times> metadata_value \<Rightarrow> metadata_row list \<Rightarrow> metadata_row list outcome" where
  "metadata_entry_rows si position entry rows =
     bind_outcome (intern_idOf si (fst entry)) (\<lambda>key.
     bind_outcome (contextIndexMetadataCells (snd entry)) (\<lambda>cells.
     each_row (\<lambda>cell acc. bind_outcome (intern_idOf si (mc_text cell)) (\<lambda>v.
         Ok (acc @ [\<lparr>md_node = position, md_key = key, md_value = v, md_type = mc_type cell,
                     md_ordinal = mc_ordinal cell\<rparr>])))
       cells rows))"

definition token_cost_cell :: "rat \<Rightarrow> nat" where
  "token_cost_cell cost = nat (max 0 (min 0xffffffff (math_round cost)))"

definition node_row_bytes ::
  "write_input \<Rightarrow> graph_node \<Rightarrow> nat \<Rightarrow> nat \<Rightarrow> nat \<Rightarrow> nat \<Rightarrow> nat \<Rightarrow> bytes" where
  "node_row_bytes input node position label path contentHash nodeId =
     le_bytes 1 (the (code_of CONTEXT_GRAPH_NODE_KINDS (gn_kind node))) @
     le_bytes 1 (the (code_of FRESHNESS_CODES (gn_freshness node))) @
     le_bytes 1 (the (code_of RISK_CODES (gn_risk node))) @
     le_bytes 1 (unat (nodeFlags node (wi_protectedNodeIds input) (wi_invalidatedNodeIds input))) @
     le_bytes 2 (nat (quantizeTrust (gn_trust node))) @ le_bytes 2 0 @
     le_bytes 4 (token_cost_cell (gn_tokenCost node)) @ le_bytes 4 label @ le_bytes 4 path @
     le_bytes 4 (or_no_value (gn_line node)) @ le_bytes 4 (or_no_value (gn_column node)) @
     le_bytes 4 contentHash @ le_bytes 4 position @ le_bytes 4 nodeId"

definition node_step ::
  "write_input \<Rightarrow> string_interner \<Rightarrow> nat \<times> graph_node \<Rightarrow> bytes list \<times> metadata_row list \<Rightarrow>
   (bytes list \<times> metadata_row list) outcome" where
  "node_step input si entry acc =
     (let position = fst entry; node = snd entry
      in bind_outcome (intern_idOf si (gn_label node)) (\<lambda>label.
         bind_outcome (idOrSentinel si (gn_path node)) (\<lambda>path.
         bind_outcome (idOrSentinel si (gn_contentHash node)) (\<lambda>contentHash.
         bind_outcome (intern_idOf si (gn_id node)) (\<lambda>nodeId.
         bind_outcome (each_row (metadata_entry_rows si position) (gn_metadata node) (snd acc)) (\<lambda>rows.
           Ok (fst acc @ [node_row_bytes input node position label path contentHash nodeId], rows)))))))"

text \<open>A number in decimal, as a template literal prints it.\<close>

fun decimal :: "nat \<Rightarrow> units" where
  "decimal n = (if n < 10 then [48 + n] else decimal (n div 10) @ [48 + n mod 10])"

declare decimal.simps [simp del]

definition pair_key :: "nat \<times> nat \<Rightarrow> units" where
  "pair_key p = decimal (fst p) @ [58] @ decimal (snd p)"

definition optional_pair ::
  "string_interner \<Rightarrow> (graph_node \<Rightarrow> units option) \<Rightarrow> (graph_node \<Rightarrow> units option) \<Rightarrow> graph_node \<Rightarrow>
   (nat \<times> nat) list outcome" where
  "optional_pair si first second node =
     (case (first node, second node) of
        (Some a, Some b) \<Rightarrow>
          bind_outcome (intern_idOf si a) (\<lambda>i. bind_outcome (intern_idOf si b) (\<lambda>j. Ok [(i, j)]))
      | _ \<Rightarrow> Ok [])"

definition path_entry :: "string_interner \<Rightarrow> units list \<Rightarrow> graph_node \<Rightarrow> (nat \<times> nat) list outcome" where
  "path_entry si ids node =
     (case gn_path node of
        None \<Rightarrow> Ok []
      | Some p \<Rightarrow> bind_outcome (intern_idOf si p) (\<lambda>i. Ok [(i, index_in ids (gn_id node))]))"

definition metadata_order :: "metadata_row \<Rightarrow> nat \<times> nat \<times> nat \<times> nat \<times> nat" where
  "metadata_order r = (md_node r, md_key r, md_ordinal r, md_type r, md_value r)"

text \<open>Everything the sections are built from, once the strings are sealed.\<close>

record index_parts =
  ix_strings :: string_interner
  ix_nodeRows :: "bytes list"
  ix_metadata :: "metadata_row list"
  ix_edgeRows :: "bytes list"
  ix_sources :: "nat list"
  ix_targets :: "nat list"
  ix_exact :: term_table
  ix_basename :: term_table
  ix_lexicon :: term_table
  ix_coarse :: term_table
  ix_provenance :: "provenance_row list"
  ix_cycles :: "nat list"
  ix_sourceHashes :: "(nat \<times> nat) list"

definition in_order :: "nat list \<Rightarrow> nat list" where
  "in_order targets = sort_key (\<lambda>k. (targets ! k, k)) [0..<length targets]"

fun section_payload :: "index_parts \<Rightarrow> bytes \<Rightarrow> section_kind \<Rightarrow> bytes \<times> nat" where
  "section_payload ix strings STRING_TABLE = (strings, interner_size (ix_strings ix))"
| "section_payload ix strings NODE_TABLE = (concat (ix_nodeRows ix), length (ix_nodeRows ix))"
| "section_payload ix strings NODE_METADATA = (metadataTable (ix_metadata ix), length (ix_metadata ix))"
| "section_payload ix strings EDGE_TABLE = (concat (ix_edgeRows ix), length (ix_edgeRows ix))"
| "section_payload ix strings OUT_CSR_OFFSETS =
     (let offsets = csrOffsets (ix_sources ix) (length (ix_nodeRows ix)) in (u32Section offsets, length offsets))"
| "section_payload ix strings OUT_CSR_EDGES =
     (u32Section [0..<length (ix_edgeRows ix)], length (ix_edgeRows ix))"
| "section_payload ix strings IN_CSR_OFFSETS =
     (let order = in_order (ix_targets ix);
          offsets = csrOffsets (map (\<lambda>k. ix_targets ix ! k) order) (length (ix_nodeRows ix))
      in (u32Section offsets, length offsets))"
| "section_payload ix strings IN_CSR_EDGES =
     (u32Section (in_order (ix_targets ix)), length (in_order (ix_targets ix)))"
| "section_payload ix strings EXACT_TERM_TABLE = (tt_table (ix_exact ix), tt_termCount (ix_exact ix))"
| "section_payload ix strings EXACT_POSTINGS = (tt_postings (ix_exact ix), tt_postingCount (ix_exact ix))"
| "section_payload ix strings BASENAME_TABLE = (tt_table (ix_basename ix), tt_termCount (ix_basename ix))"
| "section_payload ix strings BASENAME_POSTINGS = (tt_postings (ix_basename ix), tt_postingCount (ix_basename ix))"
| "section_payload ix strings LEXICON_TABLE = (tt_table (ix_lexicon ix), tt_termCount (ix_lexicon ix))"
| "section_payload ix strings LEXICON_POSTINGS = (tt_postings (ix_lexicon ix), tt_postingCount (ix_lexicon ix))"
| "section_payload ix strings COARSE_TERM_TABLE = (tt_table (ix_coarse ix), tt_termCount (ix_coarse ix))"
| "section_payload ix strings COARSE_POSTINGS = (tt_postings (ix_coarse ix), tt_postingCount (ix_coarse ix))"
| "section_payload ix strings PROVENANCE_TABLE = (provenanceTable (ix_provenance ix), length (ix_provenance ix))"
| "section_payload ix strings GROUP_TABLE =
     (u32Section [0..<length (ix_nodeRows ix)], length (ix_nodeRows ix))"
| "section_payload ix strings CYCLE_TABLE = (u32Section (ix_cycles ix), length (ix_cycles ix))"
| "section_payload ix strings SOURCE_HASH_TABLE = (pairTable (ix_sourceHashes ix), length (ix_sourceHashes ix))"

definition SECTION_ORDER :: "section_kind list" where
  "SECTION_ORDER =
     [STRING_TABLE, NODE_TABLE, NODE_METADATA, EDGE_TABLE, OUT_CSR_OFFSETS, OUT_CSR_EDGES, IN_CSR_OFFSETS,
      IN_CSR_EDGES, EXACT_TERM_TABLE, EXACT_POSTINGS, BASENAME_TABLE, BASENAME_POSTINGS, LEXICON_TABLE,
      LEXICON_POSTINGS, COARSE_TERM_TABLE, COARSE_POSTINGS, PROVENANCE_TABLE, GROUP_TABLE, CYCLE_TABLE,
      SOURCE_HASH_TABLE]"

definition payload_map :: "index_parts \<Rightarrow> bytes \<Rightarrow> section_payloads" where
  "payload_map ix strings =
     map_of (map (\<lambda>kind. (CONTEXT_INDEX_SECTION kind, section_payload ix strings kind)) SECTION_ORDER)"

definition sealed_strings :: "write_input \<Rightarrow> graph_node list \<Rightarrow> lexical_build option \<Rightarrow> string_interner outcome" where
  "sealed_strings input nodes lexical =
     bind_outcome (each_row intern_node nodes new_interner) (\<lambda>si.
     bind_outcome (each_row (intern_edge (map gn_id nodes)) (gs_edges (wi_snapshot input)) si) (\<lambda>si.
     bind_outcome (each_row intern_add (case lexical of None \<Rightarrow> [] | Some l \<Rightarrow> lb_terms l) si) (\<lambda>si.
       Ok (intern_seal si))))"

definition lane_table ::
  "string_interner \<Rightarrow> nat \<Rightarrow> (lexical_build \<Rightarrow> lexicon_result) \<Rightarrow> lexical_build option \<Rightarrow> term_table outcome" where
  "lane_table si nodeCount which lexical =
     (case lexical of
        None \<Rightarrow> Ok EMPTY_CONTEXT_INDEX_LANE
      | Some l \<Rightarrow> encodeContextIndexLane (which l) (intern_idOf si) nodeCount)"

definition collect_parts ::
  "write_input \<Rightarrow> graph_node list \<Rightarrow> lexical_build option \<Rightarrow> string_interner \<Rightarrow> index_parts outcome" where
  "collect_parts input nodes lexical si =
     (let ids = map gn_id nodes; edges = ordered_edges ids (gs_edges (wi_snapshot input))
      in bind_outcome (each_row (edge_step si ids) edges ([], [])) (\<lambda>(edgeRows, provenanceRows).
         bind_outcome (each_row (node_step input si) (enumerate 0 nodes) ([], [])) (\<lambda>(nodeRows, metadataRows).
         bind_outcome (map_outcome (\<lambda>entry. bind_outcome (intern_idOf si (gn_id (snd entry))) (\<lambda>i. Ok (i, fst entry)))
             (enumerate 0 nodes)) (\<lambda>exactEntries.
         bind_outcome (map_outcome (path_entry si ids) nodes) (\<lambda>pathEntries.
         bind_outcome (map_outcome (optional_pair si gn_path gn_contentHash) nodes) (\<lambda>hashPairs.
         bind_outcome (lane_table si (length nodes) lb_lexical lexical) (\<lambda>lexiconLane.
         bind_outcome (lane_table si (length nodes) lb_coarse lexical) (\<lambda>coarseLane.
           Ok \<lparr>ix_strings = si, ix_nodeRows = nodeRows, ix_metadata = sort_key metadata_order metadataRows,
               ix_edgeRows = edgeRows, ix_sources = map (\<lambda>e. index_in ids (ge_from e)) edges,
               ix_targets = map (\<lambda>e. index_in ids (ge_to e)) edges,
               ix_exact = termTable exactEntries, ix_basename = termTable (concat pathEntries),
               ix_lexicon = lexiconLane, ix_coarse = coarseLane, ix_provenance = provenanceRows,
               ix_cycles = sort (concat (map (List.map_filter (index_of ids)) (gs_cycles (wi_snapshot input)))),
               ix_sourceHashes = sort_key pair_key (remdups (concat hashPairs))\<rparr>))))))))"

definition parts_counts :: "write_input \<Rightarrow> index_parts \<Rightarrow> assembled_counts" where
  "parts_counts input ix =
     \<lparr>ac_schemaRevision = wi_schemaRevision input,
      ac_snapshotHash = hexToBytes (gs_snapshotHash (wi_snapshot input)) 32,
      ac_configHash = wi_configHash input, ac_nodeCount = length (ix_nodeRows ix),
      ac_edgeCount = length (ix_edgeRows ix), ac_termCount = tt_termCount (ix_exact ix),
      ac_provenanceCount = length (ix_provenance ix)\<rparr>"

definition index_parts_of :: "write_input \<Rightarrow> index_parts outcome" where
  "index_parts_of input =
     (let snapshot = wi_snapshot input
      in bind_outcome (refuse_if (0 < wi_lintErrors input) lint_error) (\<lambda>_.
         bind_outcome (refuse_if (maxNodeCount < length (gs_nodes snapshot)) count_limit) (\<lambda>_.
         bind_outcome (refuse_if (maxEdgeCount < length (gs_edges snapshot)) count_limit) (\<lambda>_.
           let nodes = sort_key gn_id (gs_nodes snapshot);
               lexical = map_option (\<lambda>build. build nodes) (wi_lexicon input)
           in bind_outcome (each_row unique_id nodes []) (\<lambda>_.
              bind_outcome (sealed_strings input nodes lexical) (\<lambda>si.
                collect_parts input nodes lexical si))))))"

definition encodeContextIndex :: "write_input \<Rightarrow> bytes outcome" where
  "encodeContextIndex input =
     bind_outcome (index_parts_of input) (\<lambda>ix.
     bind_outcome (intern_encode (ix_strings ix)) (\<lambda>strings.
       assemble (payload_map ix strings) (parts_counts input ix)))"

end
