(* ===== verification/Index_Accept.thy ===== *)
theory Index_Accept
  imports Index_Writer
begin

text \<open>
  The payload checks of the reader against the section builders of the writer: a section that holds
  what its builder wrote passes the check of that section.
\<close>

definition section_at :: "bytes \<Rightarrow> section_descriptor \<Rightarrow> bytes \<Rightarrow> nat \<Rightarrow> bool" where
  "section_at bs d payload n \<longleftrightarrow>
     sd_count d = n \<and> sd_length d = length payload \<and> sd_offset d + length payload \<le> length bs \<and>
     sub_bytes (sd_offset d) (length payload) bs = payload"

lemma section_at_view: "section_at bs d payload n \<Longrightarrow> section_view bs d = Ok payload"
  by (simp add: section_at_def section_view_def)

lemma section_at_read:
  "section_at bs d payload n \<Longrightarrow> pos + w \<le> length payload \<Longrightarrow>
     sd_offset d + pos + w \<le> length bs \<and> sub_bytes (sd_offset d + pos) w bs = sub_bytes pos w payload"
  using sub_bytes_sub_bytes [of pos w "length payload" "sd_offset d" bs] by (simp add: section_at_def)

lemma each_row_Ok: "(\<And>x. x \<in> set xs \<Longrightarrow> f x = Ok ()) \<Longrightarrow> each_row (\<lambda>x u. f x) xs () = Ok ()"
  by (simp add: each_row_unit)

lemma reference_range_accepts:
  assumes "section_at bs d payload n" "length payload = n * stride" "field + 4 \<le> stride"
    "\<And>i. i < n \<Longrightarrow> le_nat (sub_bytes (i * stride + field) 4 payload) < bound"
  shows "validateReferenceRange bs d stride field bound = Ok ()"
proof -
  have "i * stride + field + 4 \<le> length payload" if "i < n" for i
  proof -
    have "i * stride + stride \<le> n * stride" using that by (metis Suc_leI add.commute mult_Suc mult_le_mono1)
    then show ?thesis using assms(2,3) by simp
  qed
  then show ?thesis
    using assms section_at_view [OF assms(1)]
    by (auto simp: validateReferenceRange_def section_at_def each_row_unit)
qed

text \<open>A scan whose every step accepts ends with the last value.\<close>

lemma scan_accepts:
  assumes "\<And>i. i < n \<Longrightarrow> f i (if i = 0 then s else g (i - 1)) = Ok (g i)"
  shows "each_row f [0..<n] s = Ok (if n = 0 then s else g (n - 1))"
  using assms
proof (induction n)
  case (Suc n)
  from Suc.IH Suc.prems have "each_row f [0..<n] s = Ok (if n = 0 then s else g (n - 1))" by simp
  with Suc.prems [of n] show ?case by (simp add: each_row_append)
qed simp

lemma csr_accepts:
  assumes "section_at bs d (u32Section offs) (n + 1)" "length offs = n + 1" "sd_count edges = m" "m < 2 ^ 32"
    "\<And>i j. i \<le> j \<Longrightarrow> j \<le> n \<Longrightarrow> offs ! i \<le> offs ! j" "offs ! n = m"
  shows "validateCsrOffsets bs d edges n = Ok ()"
proof -
  have small: "offs ! i < 2 ^ 32" if "i \<le> n" for i using assms(5) [OF that] assms(4,6) by simp
  have read: "getUint32 (u32Section offs) (i * 4) = Ok (offs ! i)" if "i \<le> n" for i
    using u32Section_nth [of i offs] small [OF that] that assms(2) by simp
  have step: "csr_step (u32Section offs) i (if i = 0 then 0 else offs ! (i - 1)) = Ok (offs ! i)" if "i < n + 1" for i
    using read [of i] that assms(5) [of "i - 1" i] by (auto simp: csr_step_def simp del: getUint_Ok)
  have "each_row (csr_step (u32Section offs)) [0..<n + 1] 0 = Ok (offs ! n)"
    using scan_accepts [of "n + 1" "csr_step (u32Section offs)" 0 "(!) offs"] step by simp
  then show ?thesis
    using assms section_at_view [OF assms(1)]
    by (simp add: validateCsrOffsets_def section_at_def del: upt_Suc)
qed

lemma term_table_accepts:
  assumes "section_at bs t (tt_table (runs_table runs)) (length runs)"
    "section_at bs p (tt_postings (runs_table runs)) (length (concat (map snd runs)))"
    "sorted_wrt (<) (map fst runs)" "\<forall>r \<in> set runs. fst r < stringCount \<and> (\<forall>x \<in> set (snd r). x < nodeCount)"
    "stringCount \<le> 2 ^ 32" "nodeCount \<le> 2 ^ 32" "length (concat (map snd runs)) < 2 ^ 32"
  shows "validateTermTable bs t p stringCount nodeCount = Ok ()"
proof -
  let ?tab = "term_rows 0 runs" and ?ps = "concat (map snd runs)"
  have tab: "tt_table (runs_table runs) = ?tab" "tt_postings (runs_table runs) = u32Section ?ps"
    by (simp_all add: runs_table_def Let_def)
  have start: "length (concat (map snd (take i runs))) + length (snd (runs ! i)) \<le> length ?ps" if "i < length runs" for i
  proof -
    have "length (concat (take (Suc i) (map snd runs))) \<le> length ?ps" by (rule length_concat_take)
    then show ?thesis using that by (simp add: take_map take_Suc_conv_app_nth)
  qed
  have ids: "fst (runs ! i) < 2 ^ 32" if "i < length runs" for i
    using assms(4,5) nth_mem [OF that] by fastforce
  have read: "getUint32 ?tab (i * 12) = Ok (fst (runs ! i))"
    "getUint32 ?tab (i * 12 + 4) = Ok (length (concat (map snd (take i runs))))"
    "getUint32 ?tab (i * 12 + 8) = Ok (length (snd (runs ! i)))" if "i < length runs" for i
    using that ids [OF that] start [OF that] assms(7) by (simp_all add: term_row_read le_nat_bytes)
  have r1: "validateReferenceRange bs t 12 0 stringCount = Ok ()"
  proof (rule reference_range_accepts [OF assms(1)])
    fix i assume i: "i < length runs"
    then have "fst (runs ! i) < stringCount" using assms(4) nth_mem by blast
    then show "le_nat (sub_bytes (i * 12 + 0) 4 (tt_table (runs_table runs))) < stringCount"
      using read(1) [OF i] by (simp add: tab)
  qed (simp_all add: tab)
  have r2: "validateReferenceRange bs p 4 0 nodeCount = Ok ()"
  proof (rule reference_range_accepts [OF assms(2)])
    fix i assume i: "i < length ?ps"
    then have "?ps ! i \<in> set ?ps" by (rule nth_mem)
    then have "?ps ! i < nodeCount" using assms(4) by auto
    then show "le_nat (sub_bytes (i * 4 + 0) 4 (tt_postings (runs_table runs))) < nodeCount"
      using u32Section_nth [OF i] assms(6) by (simp add: tab)
  qed (simp_all add: tab)
  have step: "term_step ?tab (length ?ps) i (if i = 0 then - 1 else int (fst (runs ! (i - 1)))) = Ok (int (fst (runs ! i)))"
    if "i < length runs" for i
  proof -
    have "fst (runs ! (i - 1)) < fst (runs ! i)" if "0 < i"
      using assms(3) \<open>i < length runs\<close> that sorted_wrt_nth_less [of "(<)" "map fst runs" "i - 1" i] by simp
    then show ?thesis using read [OF that] start [OF that]
      by (auto simp: term_step_def Let_def row_bytes_defs row_field_defs simp del: getUint_Ok)
  qed
  have "each_row (term_step ?tab (length ?ps)) [0..<length runs] (- 1) =
      Ok (if length runs = 0 then - 1 else int (fst (runs ! (length runs - 1))))"
    by (rule scan_accepts) (rule step)
  then show ?thesis
    using r1 r2 assms(1,2) section_at_view [OF assms(1)]
    by (simp add: validateTermTable_def row_bytes_defs row_field_defs section_at_def tab)
qed

text \<open>The string table: offsets rise to the length of the blob, and the blob decodes.\<close>

definition valid_units :: "units \<Rightarrow> bool" where
  "valid_units us \<longleftrightarrow> list_all (\<lambda>u. u < 0x10000) us"

lemma encoded_concat:
  assumes "list_all valid_units table"
  shows "map unat (concat (map utf8_encode table)) = concat (map utf8_scalar (concat (map utf16_scalars table)))"
    "\<forall>c \<in> set (concat (map utf16_scalars table)). scalar_value c"
proof -
  have s: "\<forall>c \<in> set (utf16_scalars us). scalar_value c" if "us \<in> set table" for us
    using assms that by (intro scalar_values_of_units) (auto simp: list_all_iff valid_units_def)
  then show "\<forall>c \<in> set (concat (map utf16_scalars table)). scalar_value c" by auto
  from s show "map unat (concat (map utf8_encode table)) = concat (map utf8_scalar (concat (map utf16_scalars table)))"
  proof (induction table)
    case (Cons us table)
    have "map unat (utf8_encode us) = concat (map utf8_scalar (utf16_scalars us))"
      by (intro encoded_bytes Cons.prems) simp
    moreover have "map unat (concat (map utf8_encode table)) = concat (map utf8_scalar (concat (map utf16_scalars table)))"
      by (intro Cons.IH Cons.prems) simp
    ultimately show ?case by simp
  qed simp
qed

lemma encoded_blob_decodes:
  assumes "list_all valid_units table"
  shows "\<exists>us. utf8_decode (concat (map utf8_encode table)) = Ok us"
proof -
  let ?cs = "concat (map utf16_scalars table)" and ?bs = "concat (map utf8_encode table)"
  note e = encoded_concat [OF assms]
  show ?thesis
  proof (cases "take 3 ?bs = [0xEF, 0xBB, 0xBF]")
    case False
    then show ?thesis using e utf8_scalars_encoded [of ?cs] by (simp add: utf8_decode_def)
  next
    case True
    then have t: "take 3 (concat (map utf8_scalar ?cs)) = [0xEF, 0xBB, 0xBF]"
      using arg_cong [OF True, of "map unat"] by (simp add: e(1) [symmetric] take_map)
    then obtain c cs where cs: "?cs = c # cs" by (cases ?cs) auto
    have "c = 0xFEFF" by (rule byte_order_mark) (use t cs e(2) in auto)
    then have "drop 3 (map unat ?bs) = concat (map utf8_scalar cs)"
      using e(1) cs by (simp add: utf8_scalar_def)
    moreover have "\<forall>c \<in> set cs. scalar_value c" using e(2) cs by auto
    ultimately show ?thesis using True utf8_scalars_encoded [of cs] by (simp add: utf8_decode_def drop_map)
  qed
qed

lemma string_table_accepts:
  assumes "section_at bs d (string_section table) (length table)" "list_all valid_units table"
    "length (string_section table) \<le> 2 ^ 32"
  shows "validateStringTable bs d = Ok ()"
proof -
  let ?n = "length table" and ?sec = "string_section table" and ?blob = "concat (map utf8_encode table)"
  define ends where "ends i = length (concat (map utf8_encode (take (Suc i) table)))" for i
  have d: "sd_count d = ?n" "sd_length d = length ?sec" "section_view bs d = Ok ?sec"
    using assms(1) section_at_view [OF assms(1)] by (simp_all add: section_at_def)
  have le: "ends i \<le> length ?blob" for i
    using length_concat_take [of "Suc i" "map utf8_encode table"] by (simp add: ends_def take_map)
  have step: "string_offset_step ?sec (?n * 4) (length ?sec) i (if i = 0 then 0 else ends (i - 1)) = Ok (ends i)"
    if i: "i < ?n" for i
  proof -
    have "ends i + 4 \<le> 2 ^ 32" using le [of i] assms(3) i by (simp add: length_string_section)
    then have "getUint32 ?sec (i * 4) = Ok (ends i)"
      using string_section_end [OF i] i by (simp add: length_string_section ends_def le_nat_bytes)
    moreover have "(if i = 0 then 0 else ends (i - 1)) \<le> ends i"
      using i by (cases i) (simp_all add: ends_def take_Suc_conv_app_nth)
    ultimately show ?thesis using le [of i]
      by (simp add: string_offset_step_def length_string_section del: getUint_Ok)
  qed
  have scan: "each_row (string_offset_step ?sec (?n * 4) (length ?sec)) [0..<?n] 0 = Ok (if ?n = 0 then 0 else ends (?n - 1))"
    by (rule scan_accepts) (rule step)
  have last: "(if ?n = 0 then 0 else ends (?n - 1)) = length ?blob" by (simp add: ends_def)
  have "sub_bytes (sd_offset d + ?n * 4) (length ?blob) bs = ?blob"
  proof -
    have "sub_bytes (?n * 4) (length ?blob) ?sec = ?blob"
      using length_concat_rows [of "running_ends 0 (map utf8_encode table)" "le_bytes 4" 4]
      by (simp add: string_section_def sub_bytes_def)
    then show ?thesis
      using section_at_read [OF assms(1), of "?n * 4" "length ?blob"] by (simp add: length_string_section)
  qed
  with scan last encoded_blob_decodes [OF assms(2)] show ?thesis
    by (auto simp: validateStringTable_def Let_def d length_string_section)
qed

subsection \<open>Rows\<close>

definition cell :: "bytes \<Rightarrow> nat \<Rightarrow> nat \<Rightarrow> nat" where
  "cell row off w = le_nat (sub_bytes off w row)"

text \<open>What the writer must have respected in a row for the reader to accept it.\<close>

definition optional_ref :: "nat \<Rightarrow> nat \<Rightarrow> bool" where
  "optional_ref stringCount v \<longleftrightarrow> v = CONTEXT_INDEX_NO_VALUE \<or> v < stringCount"

definition node_row_ok :: "nat \<Rightarrow> nat \<Rightarrow> nat \<Rightarrow> bytes \<Rightarrow> bool" where
  "node_row_ok stringCount nodeCount i r \<longleftrightarrow>
     length r = 40 \<and> cell r 0 1 < length CONTEXT_GRAPH_NODE_KINDS \<and> cell r 1 1 < length FRESHNESS_CODES \<and>
     cell r 2 1 < length RISK_CODES \<and> cell r 12 4 < stringCount \<and> optional_ref stringCount (cell r 16 4) \<and>
     optional_ref stringCount (cell r 28 4) \<and> cell r 32 4 = i \<and> cell r 36 4 < stringCount"

definition edge_row_ok :: "nat \<Rightarrow> nat \<Rightarrow> bytes \<Rightarrow> bool" where
  "edge_row_ok nodeCount provenanceCount r \<longleftrightarrow>
     length r = 16 \<and> cell r 0 4 < nodeCount \<and> cell r 4 1 < length CONTEXT_GRAPH_EDGE_TYPES \<and>
     cell r 5 1 < length CONFIDENCE_CODES \<and> cell r 8 4 < provenanceCount"

lemma row_cell:
  assumes "section_at bs d (concat rows) n" "\<forall>r \<in> set rows. length r = w" "i < length rows" "off + k \<le> w"
  shows "sd_offset d + i * w + off + k \<le> length bs"
    "le_nat (sub_bytes (sd_offset d + i * w + off) k bs) = cell (rows ! i) off k"
proof -
  have len: "length (concat rows) = length rows * w"
    using length_concat_rows [of rows id w] assms(2) by simp
  have "i * w + w \<le> length rows * w" using assms(3) by (metis Suc_leI add.commute mult_Suc mult_le_mono1)
  then have "i * w + off + k \<le> length (concat rows)" using assms(4) len by simp
  from section_at_read [OF assms(1) this]
  have r: "sd_offset d + (i * w + off) + k \<le> length bs"
    "sub_bytes (sd_offset d + (i * w + off)) k bs = sub_bytes (i * w + off) k (concat rows)" by auto
  have "sub_bytes (i * w + off) k (concat (map id rows)) = sub_bytes off k (id (rows ! i))"
    by (rule concat_row) (use assms in auto)
  with r show "sd_offset d + i * w + off + k \<le> length bs"
    "le_nat (sub_bytes (sd_offset d + i * w + off) k bs) = cell (rows ! i) off k"
    by (simp_all add: cell_def add.assoc)
qed

lemma enums_accept:
  assumes nodes: "section_at bs nd (concat nodeRows) n" "\<forall>i < length nodeRows. node_row_ok stringCount n i (nodeRows ! i)"
    and edges: "section_at bs ed (concat edgeRows) m" "\<forall>r \<in> set edgeRows. edge_row_ok n p r"
    and groups: "section_at bs gd (u32Section [0..<n]) n"
    and counts: "length nodeRows = n" "length edgeRows = m" "ih_nodeCount h = n" "ih_edgeCount h = m" "n \<le> 2 ^ 32"
  shows "validateEnums bs h nd ed gd stringCount = Ok ()"
proof -
  have w: "\<forall>r \<in> set nodeRows. length r = 40" "\<forall>r \<in> set edgeRows. length r = 16"
    using nodes(2) edges(2) by (auto simp: in_set_conv_nth node_row_ok_def edge_row_ok_def)
  have node: "check_node_row bs (sd_offset nd) (sd_offset gd) stringCount i = Ok ()" if i: "i < n" for i
  proof -
    have ok: "node_row_ok stringCount n i (nodeRows ! i)" using nodes(2) counts(1) i by simp
    note c = row_cell [OF nodes(1) w(1), of i]
    have g: "sd_offset gd + i * 4 + 4 \<le> length bs" "le_nat (sub_bytes (sd_offset gd + i * 4) 4 bs) = i"
      using section_at_read [OF groups, of "i * 4" 4] u32Section_nth [of i "[0..<n]"] i counts(5) by simp_all
    show ?thesis
      using c [of 0 1] c [of 1 1] c [of 2 1] c [of 16 4] c [of 28 4] c [of 32 4] g ok i counts(1)
      by (auto simp: check_node_row_def Let_def checkCode_def checkOptionalReference_def node_row_ok_def optional_ref_def
          row_bytes_defs row_field_defs)
  qed
  have edge: "check_edge_row bs (sd_offset ed) i = Ok ()" if i: "i < m" for i
  proof -
    have ok: "edge_row_ok n p (edgeRows ! i)" using edges(2) counts(2) i by simp
    note c = row_cell [OF edges(1) w(2), of i]
    show ?thesis
      using c [of 4 1] c [of 5 1] ok i counts(2)
      by (auto simp: check_edge_row_def Let_def checkCode_def edge_row_ok_def row_bytes_defs row_field_defs)
  qed
  show ?thesis
    by (simp add: validateEnums_def each_row_unit counts node edge)
qed

text \<open>Metadata rows: ascending, tagged, and the elements of an array next to each other from 0 on.\<close>

definition metadata_follows :: "metadata_row \<Rightarrow> metadata_row \<Rightarrow> bool" where
  "metadata_follows p r \<longleftrightarrow>
     (if md_node r = md_node p \<and> md_key r = md_key p
      then md_type p = METADATA_ARRAY_ELEMENT \<and> md_type r = METADATA_ARRAY_ELEMENT \<and>
           md_ordinal r = md_ordinal p + 1
      else (md_node p < md_node r \<or> md_node p = md_node r \<and> md_key p < md_key r) \<and> md_ordinal r = 0)"

definition metadata_row_ok :: "nat \<Rightarrow> nat \<Rightarrow> metadata_row \<Rightarrow> bool" where
  "metadata_row_ok stringCount nodeCount r \<longleftrightarrow>
     md_node r < nodeCount \<and> md_key r < stringCount \<and> md_value r < stringCount \<and>
     md_type r < CONTEXT_INDEX_METADATA_TYPE_COUNT \<and> md_ordinal r < 0x10000"

definition metadata_rows_ok :: "nat \<Rightarrow> nat \<Rightarrow> metadata_row list \<Rightarrow> bool" where
  "metadata_rows_ok stringCount nodeCount rows \<longleftrightarrow>
     list_all (metadata_row_ok stringCount nodeCount) rows \<and>
     (rows \<noteq> [] \<longrightarrow> md_ordinal (hd rows) = 0) \<and> (\<forall>i. Suc i < length rows \<longrightarrow> metadata_follows (rows ! i) (rows ! Suc i))"

lemma metadata_cells:
  assumes "i < length rows" "metadata_row_ok S n (rows ! i)" "S \<le> 2 ^ 32" "n \<le> 2 ^ 32"
  shows "sub_bytes (i * 16) 4 (metadataTable rows) = le_bytes 4 (md_node (rows ! i))"
    "sub_bytes (i * 16 + 4) 4 (metadataTable rows) = le_bytes 4 (md_key (rows ! i))"
    "sub_bytes (i * 16 + 8) 4 (metadataTable rows) = le_bytes 4 (md_value (rows ! i))"
    "sub_bytes (i * 16 + 12) 2 (metadataTable rows) = le_bytes 2 (md_type (rows ! i))"
    "sub_bytes (i * 16 + 14) 2 (metadataTable rows) = le_bytes 2 (md_ordinal (rows ! i))"
    "length (metadataTable rows) = length rows * 16"
proof -
  let ?f = "\<lambda>r. le_bytes 4 (md_node r) @ le_bytes 4 (md_key r) @ le_bytes 4 (md_value r) @
     le_bytes 2 (md_type r) @ le_bytes 2 (md_ordinal r)"
  have c: "sub_bytes (i * 16 + off) k (metadataTable rows) = sub_bytes off k (?f (rows ! i))" if "off + k \<le> 16" for off k
    unfolding metadataTable_def by (rule concat_row) (use assms(1) that in simp_all)
  from c [of 0 4] c [of 4 4] c [of 8 4] c [of 12 2] c [of 14 2]
  show "sub_bytes (i * 16) 4 (metadataTable rows) = le_bytes 4 (md_node (rows ! i))"
    "sub_bytes (i * 16 + 4) 4 (metadataTable rows) = le_bytes 4 (md_key (rows ! i))"
    "sub_bytes (i * 16 + 8) 4 (metadataTable rows) = le_bytes 4 (md_value (rows ! i))"
    "sub_bytes (i * 16 + 12) 2 (metadataTable rows) = le_bytes 2 (md_type (rows ! i))"
    "sub_bytes (i * 16 + 14) 2 (metadataTable rows) = le_bytes 2 (md_ordinal (rows ! i))"
    by (simp_all add: sub_bytes_def)
  show "length (metadataTable rows) = length rows * 16"
    unfolding metadataTable_def by (rule length_concat_rows) simp
qed

lemma length_metadataTable [simp]: "length (metadataTable rows) = length rows * 16"
  unfolding metadataTable_def by (rule length_concat_rows) simp

lemma metadata_accepts:
  assumes "section_at bs d (metadataTable rows) (length rows)" "metadata_rows_ok S n rows" "S \<le> 2 ^ 32" "n \<le> 2 ^ 32"
  shows "validateMetadataRows bs d = Ok ()"
proof (cases rows)
  case Nil
  then show ?thesis using assms(1) by (simp add: validateMetadataRows_def section_at_def)
next
  case (Cons first rest)
  let ?t = "metadataTable rows"
  define scan where "scan i = \<lparr>ms_node = int (md_node (rows ! i)), ms_key = int (md_key (rows ! i)),
    ms_ordinal = int (md_ordinal (rows ! i)), ms_type = int (md_type (rows ! i))\<rparr>" for i
  let ?start = "\<lparr>ms_node = - 1, ms_key = - 1, ms_ordinal = - 1, ms_type = - 1\<rparr>"
  have step: "metadata_step ?t i (if i = 0 then ?start else scan (i - 1)) = Ok (scan i)" if i: "i < length rows" for i
  proof -
    have ok: "metadata_row_ok S n (rows ! i)" using assms(2) i by (simp add: metadata_rows_ok_def list_all_length)
    note c = metadata_cells [OF i ok assms(3,4)]
    have read: "getUint32 ?t (i * 16) = Ok (md_node (rows ! i))" "getUint32 ?t (i * 16 + 4) = Ok (md_key (rows ! i))"
      "getUint16 ?t (i * 16 + 12) = Ok (md_type (rows ! i))" "getUint16 ?t (i * 16 + 14) = Ok (md_ordinal (rows ! i))"
      using i ok assms(3,4)
      by (simp_all add: c le_nat_bytes metadata_row_ok_def CONTEXT_INDEX_METADATA_TYPE_COUNT_def)
    have "md_type (rows ! i) < CONTEXT_INDEX_METADATA_TYPE_COUNT" using ok by (simp add: metadata_row_ok_def)
    moreover have "md_ordinal (rows ! 0) = 0" using assms(2) Cons by (simp add: metadata_rows_ok_def)
    moreover have "metadata_follows (rows ! (i - 1)) (rows ! i)" if "0 < i"
      using assms(2) i that by (cases i) (simp_all add: metadata_rows_ok_def)
    ultimately show ?thesis
      by (auto simp: metadata_step_def Let_def row_bytes_defs row_field_defs read scan_def metadata_follows_def
          require_def simp del: getUint_Ok split: if_splits)
  qed
  have "each_row (metadata_step ?t) [0..<length rows] ?start =
      Ok (if length rows = 0 then ?start else scan (length rows - 1))"
    by (rule scan_accepts) (rule step)
  then show ?thesis
    using assms(1) section_at_view [OF assms(1)] by (simp add: validateMetadataRows_def section_at_def)
qed

subsection \<open>Sections of an assembled file\<close>

lemma payload_map_at: "payload_map ix strings (CONTEXT_INDEX_SECTION kind) = Some (section_payload ix strings kind)"
  by (cases kind) (simp_all add: payload_map_def SECTION_ORDER_def)

lemma section_number: "CONTEXT_INDEX_REQUIRED_SECTIONS ! (CONTEXT_INDEX_SECTION kind - Suc 0) = CONTEXT_INDEX_SECTION kind"
  "CONTEXT_INDEX_SECTION kind - Suc 0 < 20"
  by (cases kind; simp add: CONTEXT_INDEX_REQUIRED_SECTIONS_def nth_upt)+

lemma assembled_section:
  assumes fits: "payloads_fit (payload_map ix strings)" "header_fits (assembled_header ac)"
    and bs: "assemble (payload_map ix strings) ac = Ok bs"
  shows "\<exists>d. sectionOf (section_table_of (assembled_descriptors (payload_map ix strings))) kind = Ok d \<and>
    section_at bs d (fst (section_payload ix strings kind)) (snd (section_payload ix strings kind))"
proof -
  let ?P = "payload_map ix strings" and ?i = "CONTEXT_INDEX_SECTION kind - Suc 0"
  let ?ds = "assembled_descriptors ?P"
  have a: "validateSectionLayout bs ?ds = Ok (section_table_of ?ds)"
    "map (\<lambda>d. sub_bytes (sd_offset d) (sd_length d) bs) ?ds = map (payload_of ?P) CONTEXT_INDEX_REQUIRED_SECTIONS"
    using assemble_accepted [OF fits] bs by auto
  have len: "length ?ds = 20" by (simp add: assembled_descriptors_def)
  let ?d = "?ds ! ?i"
  have i: "?i < 20" "?i < length ?ds" using section_number(2) len by simp_all
  have d: "?d = laid_out ?P 744 ?i" using i by (simp add: assembled_descriptors_def)
  have kind: "sd_kind ?d = CONTEXT_INDEX_SECTION kind"
    by (simp add: d laid_out_def Let_def section_number)
  have fields: "sd_length ?d = length (fst (section_payload ix strings kind))"
    "sd_count ?d = snd (section_payload ix strings kind)"
    by (simp_all add: d laid_out_def Let_def section_number payload_map_at payload_of_def split: prod.splits)
  have "distinct (map sd_kind ?ds)" "list_all (section_in_bounds bs (descriptor_at (length ?ds))) ?ds"
    using a(1) by (simp_all add: layout_Ok)
  then have found: "section_table_of ?ds (CONTEXT_INDEX_SECTION kind) = Some ?d"
    and inside: "sd_offset ?d + sd_length ?d \<le> length bs"
    using kind i nth_mem [OF i(2)]
    by (auto simp: section_table_of_def o_def map_of_eq_Some_iff list_all_iff section_in_bounds_def section_end_def image_iff)
  have "sub_bytes (sd_offset ?d) (sd_length ?d) bs = fst (section_payload ix strings kind)"
    using arg_cong [OF a(2), of "\<lambda>xs. xs ! ?i"] i section_count
    by (simp add: section_number payload_map_at payload_of_def split: prod.splits)
  with found inside fields show ?thesis by (auto simp: sectionOf_def section_at_def)
qed

end
