(* ===== verification/Index_Round.thy ===== *)
theory Index_Round
  imports Index_Accept
begin

text \<open>
  What the writer produces is an index the reader opens: the parts the writer collects are well formed,
  and a file assembled from well-formed parts passes every check of \<open>openContextIndex\<close>.
\<close>

subsection \<open>Well-formed parts\<close>

definition runs_ok :: "nat \<Rightarrow> nat \<Rightarrow> (nat \<times> nat list) list \<Rightarrow> bool" where
  "runs_ok stringCount nodeCount runs \<longleftrightarrow>
     sorted_wrt (<) (map fst runs) \<and> list_all (\<lambda>r. fst r < stringCount \<and> list_all (\<lambda>x. x < nodeCount) (snd r)) runs"

definition lane_from_runs :: "nat \<Rightarrow> nat \<Rightarrow> term_table \<Rightarrow> bool" where
  "lane_from_runs stringCount nodeCount lane \<longleftrightarrow> (\<exists>runs. lane = runs_table runs \<and> runs_ok stringCount nodeCount runs)"

definition provenance_row_ok :: "nat \<Rightarrow> provenance_row \<Rightarrow> bool" where
  "provenance_row_ok stringCount r \<longleftrightarrow>
     pr_pathId r < stringCount \<and> pr_hashId r < stringCount \<and> pr_extractorId r < stringCount"

definition parts_ok :: "index_parts \<Rightarrow> bool" where
  "parts_ok ix \<longleftrightarrow>
     (let S = length (si_table (ix_strings ix)); n = length (ix_nodeRows ix); m = length (ix_edgeRows ix);
          P = length (ix_provenance ix)
      in si_sealed (ix_strings ix) \<and> n \<le> maxNodeCount \<and> m \<le> maxEdgeCount \<and> P \<le> m \<and>
         (\<forall>i < n. node_row_ok S n i (ix_nodeRows ix ! i)) \<and>
         list_all (edge_row_ok n P) (ix_edgeRows ix) \<and> metadata_rows_ok S n (ix_metadata ix) \<and>
         length (ix_sources ix) = m \<and> sorted (ix_sources ix) \<and> list_all (\<lambda>x. x < n) (ix_sources ix) \<and>
         length (ix_targets ix) = m \<and> list_all (\<lambda>x. x < n) (ix_targets ix) \<and>
         lane_from_runs S n (ix_exact ix) \<and> tt_termCount (ix_exact ix) \<le> n \<and>
         lane_from_runs S n (ix_basename ix) \<and> lane_from_runs S n (ix_lexicon ix) \<and>
         lane_from_runs S n (ix_coarse ix) \<and> list_all (provenance_row_ok S) (ix_provenance ix) \<and>
         list_all (\<lambda>x. x < n) (ix_cycles ix) \<and>
         list_all (\<lambda>p. fst p < S \<and> snd p < S) (ix_sourceHashes ix))"

lemma in_order_perm: "mset (in_order ts) = mset [0..<length ts]" "set (in_order ts) = {0..<length ts}"
  "length (in_order ts) = length ts"
  by (simp_all add: in_order_def)

lemma in_order_sorted: "sorted (map (\<lambda>k. ts ! k) (in_order ts))"
proof -
  have "sorted (map (\<lambda>k. (ts ! k, k)) (in_order ts))" by (simp add: in_order_def)
  then show ?thesis
    by (simp add: sorted_map sorted_wrt_map) (erule sorted_wrt_mono_rel [rotated], auto simp: less_eq_prod_def)
qed

lemma in_order_bound: "list_all (\<lambda>x. x < n) ts \<Longrightarrow> \<forall>b \<in> set (map (\<lambda>k. ts ! k) (in_order ts)). b < n"
  by (auto simp: in_order_perm(2) list_all_length)

subsection \<open>Accepting the sections\<close>

lemma table_column:
  assumes "section_at bs d (concat (map f rows)) n" "length rows = n" "\<And>r. r \<in> set rows \<Longrightarrow> length (f r) = w"
    "field + 4 \<le> w" "\<And>i. i < n \<Longrightarrow> le_nat (sub_bytes field 4 (f (rows ! i))) < bound"
  shows "validateReferenceRange bs d w field bound = Ok ()"
proof (rule reference_range_accepts [OF assms(1)])
  show "length (concat (map f rows)) = n * w" using length_concat_rows [of rows f w] assms(2,3) by simp
  show "le_nat (sub_bytes (i * w + field) 4 (concat (map f rows))) < bound" if "i < n" for i
    using concat_row [of rows f w i field 4] assms that by simp
qed (rule assms(4))

lemma u32_column:
  assumes "section_at bs d (u32Section vs) n" "length vs = n" "list_all (\<lambda>x. x < bound) vs" "bound \<le> 2 ^ 32"
  shows "validateReferenceRange bs d 4 0 bound = Ok ()"
proof (rule reference_range_accepts [OF assms(1)])
  show "le_nat (sub_bytes (i * 4 + 0) 4 (u32Section vs)) < bound" if "i < n" for i
  proof -
    have "vs ! i < bound" using assms(2,3) that by (simp add: list_all_length)
    then show ?thesis using u32Section_nth [of i vs] assms(2,4) that by simp
  qed
qed (use assms(2) in simp_all)

lemma lane_accepts:
  assumes "lane_from_runs S n lane" "section_at bs t (tt_table lane) (tt_termCount lane)"
    "section_at bs p (tt_postings lane) (tt_postingCount lane)" "S \<le> 2 ^ 32" "n \<le> 2 ^ 32" "tt_postingCount lane < 2 ^ 32"
  shows "validateTermTable bs t p S n = Ok ()"
    "sd_count t * 12 = sd_length t" "sd_count p * 4 = sd_length p"
proof -
  obtain runs where r: "lane = runs_table runs" "runs_ok S n runs" using assms(1) by (auto simp: lane_from_runs_def)
  have c: "tt_termCount lane = length runs" "tt_postingCount lane = length (concat (map snd runs))"
    by (simp_all add: r(1) runs_table_def Let_def)
  show "validateTermTable bs t p S n = Ok ()"
    by (rule term_table_accepts [of bs t runs p])
      (use assms r c in \<open>auto simp: runs_ok_def list_all_iff\<close>)
  show "sd_count t * 12 = sd_length t" "sd_count p * 4 = sd_length p"
    using assms(2,3) c by (simp_all add: section_at_def r(1) runs_table_def Let_def)
qed

lemma lane_lengths:
  "lane_from_runs S n lane \<Longrightarrow>
     length (tt_table lane) = tt_termCount lane * 12 \<and> length (tt_postings lane) = tt_postingCount lane * 4"
  by (auto simp: lane_from_runs_def runs_table_def Let_def)

lemma concat_rows_length: "\<forall>r \<in> set rows. length r = w \<Longrightarrow> length (concat rows) = length rows * w"
  using length_concat_rows [of rows id w] by simp

lemma length_provenanceTable [simp]: "length (provenanceTable rows) = length rows * 16"
  unfolding provenanceTable_def by (rule length_concat_rows) simp

lemma length_pairTable [simp]: "length (pairTable rows) = length rows * 8"
  unfolding pairTable_def by (rule length_concat_rows) simp

text \<open>Every section of fixed width rows is as long as its count says.\<close>

lemma parts_strides:
  assumes "parts_ok ix" "(kind, stride) \<in> set CONTEXT_INDEX_FIXED_STRIDE_SECTIONS"
  shows "snd (section_payload ix strings kind) * stride = length (fst (section_payload ix strings kind))"
proof -
  note parts = assms(1) [unfolded parts_ok_def Let_def]
  have rows: "\<forall>r \<in> set (ix_nodeRows ix). length r = 40" "\<forall>r \<in> set (ix_edgeRows ix). length r = 16"
    using parts by (auto simp: in_set_conv_nth list_all_iff node_row_ok_def edge_row_ok_def)
  note len = concat_rows_length [OF rows(1)] concat_rows_length [OF rows(2)]
  have "lane_from_runs (length (si_table (ix_strings ix))) (length (ix_nodeRows ix)) (ix_exact ix)"
    "lane_from_runs (length (si_table (ix_strings ix))) (length (ix_nodeRows ix)) (ix_basename ix)"
    "lane_from_runs (length (si_table (ix_strings ix))) (length (ix_nodeRows ix)) (ix_lexicon ix)"
    "lane_from_runs (length (si_table (ix_strings ix))) (length (ix_nodeRows ix)) (ix_coarse ix)"
    using parts by blast+
  note lanes = this [THEN lane_lengths]
  show ?thesis using assms(2)
    by (cases kind) (simp_all add: CONTEXT_INDEX_FIXED_STRIDE_SECTIONS_def row_bytes_defs Let_def in_order_perm(3) len lanes)
qed

lemma parts_columns:
  assumes "parts_ok ix" "(kind, stride, field, bound) \<in> set (reference_columns h (length (si_table (ix_strings ix))) (length (ix_provenance ix)))"
    and at: "section_at bs d (fst (section_payload ix strings kind)) (snd (section_payload ix strings kind))"
    and S: "length (si_table (ix_strings ix)) \<le> 2 ^ 32" and h: "ih_nodeCount h = length (ix_nodeRows ix)" "ih_edgeCount h = length (ix_edgeRows ix)"
  shows "validateReferenceRange bs d stride field bound = Ok ()"
proof -
  let ?S = "length (si_table (ix_strings ix))" and ?n = "length (ix_nodeRows ix)" and ?m = "length (ix_edgeRows ix)"
    and ?P = "length (ix_provenance ix)"
  note parts = assms(1) [unfolded parts_ok_def Let_def]
  have n: "?n \<le> 2 ^ 24" "?m \<le> 2 ^ 26" using parts by (simp_all add: maxNodeCount_def maxEdgeCount_def)
  note defs = reference_columns_def row_bytes_defs row_field_defs h
  consider "kind = NODE_TABLE" | "kind = NODE_METADATA" | "kind = EDGE_TABLE" | "kind = OUT_CSR_EDGES"
    | "kind = IN_CSR_EDGES" | "kind = PROVENANCE_TABLE" | "kind = GROUP_TABLE" | "kind = CYCLE_TABLE"
    | "kind = SOURCE_HASH_TABLE"
    using assms(2) by (auto simp: reference_columns_def)
  then show ?thesis
  proof cases
    case 1
    have rows: "node_row_ok ?S ?n i (ix_nodeRows ix ! i)" if "i < ?n" for i using parts that by blast
    have "\<And>r. r \<in> set (ix_nodeRows ix) \<Longrightarrow> length r = 40"
      using rows by (auto simp: in_set_conv_nth node_row_ok_def)
    note col = table_column [of bs d id "ix_nodeRows ix" ?n 40 field bound, simplified, OF _ this]
    have cells: "cell (ix_nodeRows ix ! i) 12 4 < ?S" "cell (ix_nodeRows ix ! i) 36 4 < ?S"
      "cell (ix_nodeRows ix ! i) 32 4 < max ?n 1" if "i < ?n" for i
      using rows [OF that] that by (auto simp: node_row_ok_def)
    show ?thesis using 1 assms(2) at col cells by (auto simp: defs cell_def)
  next
    case 2
    have rows: "metadata_row_ok ?S ?n (ix_metadata ix ! i)" if "i < length (ix_metadata ix)" for i
      using parts that by (simp add: metadata_rows_ok_def list_all_length)
    note c = metadata_cells [OF _ rows S, of i for i]
    show ?thesis
    proof (rule reference_range_accepts)
      show "section_at bs d (metadataTable (ix_metadata ix)) (length (ix_metadata ix))" using at 2 by simp
      show "length (metadataTable (ix_metadata ix)) = length (ix_metadata ix) * stride" "field + 4 \<le> stride"
        using assms(2) 2 by (auto simp: defs)
      fix i assume i: "i < length (ix_metadata ix)"
      show "le_nat (sub_bytes (i * stride + field) 4 (metadataTable (ix_metadata ix))) < bound"
        using metadata_cells [OF i rows [OF i] S] rows [OF i] S n assms(2) 2
        by (auto simp: defs le_nat_bytes metadata_row_ok_def)
    qed
  next
    case 3
    have rows: "edge_row_ok ?n ?P (ix_edgeRows ix ! i)" if "i < ?m" for i using parts that by (simp add: list_all_length)
    have "\<And>r. r \<in> set (ix_edgeRows ix) \<Longrightarrow> length r = 16"
      using rows by (auto simp: in_set_conv_nth edge_row_ok_def)
    note col = table_column [of bs d id "ix_edgeRows ix" ?m 16 field bound, simplified, OF _ this]
    show ?thesis using 3 assms(2) at col rows by (auto simp: defs cell_def edge_row_ok_def)
  next
    case 4
    then show ?thesis using assms(2) at n u32_column [of bs d "[0..<?m]" ?m ?m] by (auto simp: defs list_all_iff)
  next
    case 5
    then show ?thesis
      using assms(2) at n parts u32_column [of bs d "in_order (ix_targets ix)" ?m ?m]
      by (auto simp: defs list_all_iff in_order_perm)
  next
    case 6
    have rows: "provenance_row_ok ?S (ix_provenance ix ! i)" if "i < ?P" for i using parts that by (simp add: list_all_length)
    let ?f = "\<lambda>r. le_bytes 4 (pr_pathId r) @ le_bytes 4 (pr_line r) @ le_bytes 4 (pr_hashId r) @ le_bytes 4 (pr_extractorId r)"
    have cells: "le_nat (sub_bytes 0 4 (?f r)) \<le> pr_pathId r" "le_nat (sub_bytes 8 4 (?f r)) \<le> pr_hashId r"
      "le_nat (sub_bytes 12 4 (?f r)) \<le> pr_extractorId r" for r by (simp_all add: sub_bytes_def le_nat_bytes)
    have "le_nat (sub_bytes field 4 (?f (ix_provenance ix ! i))) < bound" if "i < ?P" for i
      using 6 assms(2) cells [of "ix_provenance ix ! i"] rows [OF that] by (auto simp: defs provenance_row_ok_def)
    with table_column [of bs d ?f "ix_provenance ix" ?P 16 field bound]
    show ?thesis using 6 assms(2) at by (auto simp: defs provenanceTable_def)
  next
    case 7
    then show ?thesis using assms(2) at n u32_column [of bs d "[0..<?n]" ?n "max ?n 1"] by (auto simp: defs list_all_iff)
  next
    case 8
    then show ?thesis using assms(2) at n parts u32_column [of bs d "ix_cycles ix" "length (ix_cycles ix)" ?n]
      by (auto simp: defs)
  next
    case 9
    have rows: "fst (ix_sourceHashes ix ! i) < ?S" "snd (ix_sourceHashes ix ! i) < ?S" if "i < length (ix_sourceHashes ix)" for i
      using parts that by (simp_all add: list_all_length)
    let ?f = "\<lambda>r. le_bytes 4 (fst r) @ le_bytes 4 (snd r)"
    have cells: "le_nat (sub_bytes 0 4 (?f r)) \<le> fst r" "le_nat (sub_bytes 4 4 (?f r)) \<le> snd r" for r :: "nat \<times> nat"
      by (simp_all add: sub_bytes_def le_nat_bytes)
    have "le_nat (sub_bytes field 4 (?f (ix_sourceHashes ix ! i))) < bound" if "i < length (ix_sourceHashes ix)" for i
      using 9 assms(2) cells [of "ix_sourceHashes ix ! i"] rows [OF that] by (auto simp: defs)
    with table_column [of bs d ?f "ix_sourceHashes ix" "length (ix_sourceHashes ix)" 8 field bound]
    show ?thesis using 9 assms(2) at by (auto simp: defs pairTable_def)
  qed
qed

lemma payloads_accept:
  assumes ok: "parts_ok ix" "list_all valid_units (si_table (ix_strings ix))"
    and strings: "strings = string_section (si_table (ix_strings ix))"
    and D: "\<And>kind. sectionOf byKind kind = Ok (D kind)"
      "\<And>kind. section_at bs (D kind) (fst (section_payload ix strings kind)) (snd (section_payload ix strings kind))"
    and limits: "\<And>kind. length (fst (section_payload ix strings kind)) \<le> 2 ^ 32"
      "\<And>kind. snd (section_payload ix strings kind) \<le> 2 ^ 27"
    and h: "ih_nodeCount h = length (ix_nodeRows ix)" "ih_edgeCount h = length (ix_edgeRows ix)"
      "ih_termCount h = tt_termCount (ix_exact ix)" "ih_provenanceCount h = length (ix_provenance ix)"
  shows "validateContextIndexPayloads bs h byKind = Ok ()"
proof -
  let ?S = "length (si_table (ix_strings ix))" and ?n = "length (ix_nodeRows ix)" and ?m = "length (ix_edgeRows ix)"
    and ?P = "length (ix_provenance ix)"
  note parts = ok(1) [unfolded parts_ok_def Let_def]
  have n: "?n \<le> 2 ^ 24" "?m \<le> 2 ^ 26" using parts by (simp_all add: maxNodeCount_def maxEdgeCount_def)
  have sealed: "interner_size (ix_strings ix) = ?S" using parts by (simp add: interner_size_def)
  have S: "?S \<le> 2 ^ 27" using limits(2) [of STRING_TABLE] by (simp add: sealed)
  have strides: "requireExactRows (D kind) stride = Ok ()"
    if "(kind, stride) \<in> set CONTEXT_INDEX_FIXED_STRIDE_SECTIONS" for kind stride
    using parts_strides [OF ok(1) that, of strings] D(2) [of kind]
    by (simp add: requireExactRows_def section_at_def)
  have string_table: "validateStringTable bs (D STRING_TABLE) = Ok ()"
    using string_table_accepts [OF _ ok(2)] D(2) [of STRING_TABLE] limits(1) [of STRING_TABLE]
    by (simp add: sealed strings)
  have out: "validateCsrOffsets bs (D OUT_CSR_OFFSETS) (D OUT_CSR_EDGES) ?n = Ok ()"
  proof (rule csr_accepts)
    let ?offs = "csrOffsets (ix_sources ix) ?n"
    have b: "\<forall>b \<in> set (ix_sources ix). b < ?n" using parts by (auto simp: list_all_iff)
    show "section_at bs (D OUT_CSR_OFFSETS) (u32Section ?offs) (?n + 1)"
      using D(2) [of OUT_CSR_OFFSETS] by (simp add: Let_def)
    show "sd_count (D OUT_CSR_EDGES) = ?m" using D(2) [of OUT_CSR_EDGES] by (simp add: section_at_def)
    show "?offs ! ?n = ?m" using csrOffsets_facts(1) [OF b] parts by simp
    show "?offs ! i \<le> ?offs ! j" if "i \<le> j" "j \<le> ?n" for i j using csrOffsets_facts(2) [OF b that] .
  qed (use n in simp_all)
  have inn: "validateCsrOffsets bs (D IN_CSR_OFFSETS) (D IN_CSR_EDGES) ?n = Ok ()"
  proof (rule csr_accepts)
    let ?bs = "map (\<lambda>k. ix_targets ix ! k) (in_order (ix_targets ix))"
    let ?offs = "csrOffsets ?bs ?n"
    have b: "\<forall>b \<in> set ?bs. b < ?n" by (rule in_order_bound) (use parts in blast)
    show "section_at bs (D IN_CSR_OFFSETS) (u32Section ?offs) (?n + 1)"
      using D(2) [of IN_CSR_OFFSETS] by (simp add: Let_def)
    show "sd_count (D IN_CSR_EDGES) = ?m" using D(2) [of IN_CSR_EDGES] parts by (simp add: section_at_def in_order_perm(3))
    show "?offs ! ?n = ?m" using csrOffsets_facts(1) [OF b] parts by (simp add: in_order_perm(3))
    show "?offs ! i \<le> ?offs ! j" if "i \<le> j" "j \<le> ?n" for i j using csrOffsets_facts(2) [OF b that] .
  qed (use n in simp_all)
  have columns: "validateReferenceRange bs (D kind) stride field bound = Ok ()"
    if "(kind, stride, field, bound) \<in> set (reference_columns h ?S ?P)" for kind stride field bound
    by (rule parts_columns [OF ok(1) that D(2)]) (use S h in simp_all)
  have metadata: "validateMetadataRows bs (D NODE_METADATA) = Ok ()"
    using metadata_accepts [of bs "D NODE_METADATA" "ix_metadata ix" ?S ?n] D(2) [of NODE_METADATA] parts S n by simp
  have terms: "validateTermTable bs (D table) (D postings) ?S ?n = Ok ()"
    if mem: "(table, postings) \<in> set TERM_TABLES" for table postings
  proof -
    obtain lane where l: "lane_from_runs ?S ?n lane" "section_at bs (D table) (tt_table lane) (tt_termCount lane)"
      "section_at bs (D postings) (tt_postings lane) (tt_postingCount lane)" "tt_postingCount lane \<le> 2 ^ 27"
    proof -
      consider "table = EXACT_TERM_TABLE \<and> postings = EXACT_POSTINGS" | "table = BASENAME_TABLE \<and> postings = BASENAME_POSTINGS"
        | "table = LEXICON_TABLE \<and> postings = LEXICON_POSTINGS" | "table = COARSE_TERM_TABLE \<and> postings = COARSE_POSTINGS"
        using mem by (auto simp: TERM_TABLES_def)
      then show thesis
      proof cases
        case 1
        then show thesis using that [of "ix_exact ix"] parts D(2) [of EXACT_TERM_TABLE] D(2) [of EXACT_POSTINGS] limits(2) [of EXACT_POSTINGS] by simp
      next
        case 2
        then show thesis using that [of "ix_basename ix"] parts D(2) [of BASENAME_TABLE] D(2) [of BASENAME_POSTINGS] limits(2) [of BASENAME_POSTINGS] by simp
      next
        case 3
        then show thesis using that [of "ix_lexicon ix"] parts D(2) [of LEXICON_TABLE] D(2) [of LEXICON_POSTINGS] limits(2) [of LEXICON_POSTINGS] by simp
      next
        case 4
        then show thesis using that [of "ix_coarse ix"] parts D(2) [of COARSE_TERM_TABLE] D(2) [of COARSE_POSTINGS] limits(2) [of COARSE_POSTINGS] by simp
      qed
    qed
    show ?thesis by (rule lane_accepts(1) [OF l(1-3)]) (use S n l(4) in simp_all)
  qed
  have enums: "validateEnums bs h (D NODE_TABLE) (D EDGE_TABLE) (D GROUP_TABLE) ?S = Ok ()"
    by (rule enums_accept [of bs _ "ix_nodeRows ix" ?n ?S _ "ix_edgeRows ix" ?m ?P])
      (use D(2) [of NODE_TABLE] D(2) [of EDGE_TABLE] D(2) [of GROUP_TABLE] parts n h in \<open>auto simp: list_all_iff\<close>)
  have counts: "sd_count (D STRING_TABLE) = ?S" "sd_count (D NODE_TABLE) = ?n" "sd_count (D EDGE_TABLE) = ?m"
    "sd_count (D PROVENANCE_TABLE) = ?P" "sd_count (D GROUP_TABLE) = ?n" "sd_count (D OUT_CSR_EDGES) = ?m"
    "sd_count (D IN_CSR_EDGES) = ?m" "sd_count (D EXACT_TERM_TABLE) = tt_termCount (ix_exact ix)"
    using D(2) [of STRING_TABLE] D(2) [of NODE_TABLE] D(2) [of EDGE_TABLE] D(2) [of PROVENANCE_TABLE]
      D(2) [of GROUP_TABLE] D(2) [of OUT_CSR_EDGES] D(2) [of IN_CSR_EDGES] D(2) [of EXACT_TERM_TABLE] parts
    by (simp_all add: section_at_def sealed in_order_perm(3))
  have "each_row (\<lambda>x u. case x of (kind, stride) \<Rightarrow> bind_outcome (sectionOf byKind kind) (\<lambda>d. requireExactRows d stride))
      CONTEXT_INDEX_FIXED_STRIDE_SECTIONS () = Ok ()"
    by (rule each_row_Ok) (auto simp: D(1) strides)
  moreover have "each_row (\<lambda>x u. case x of (kind, stride, field, exclusiveMax) \<Rightarrow>
      bind_outcome (sectionOf byKind kind) (\<lambda>d. validateReferenceRange bs d stride field exclusiveMax))
      (reference_columns h ?S ?P) () = Ok ()"
    by (rule each_row_Ok) (auto simp: D(1) columns)
  moreover have "each_row (\<lambda>x u. case x of (table, postings) \<Rightarrow> bind_outcome (sectionOf byKind table) (\<lambda>t.
      bind_outcome (sectionOf byKind postings) (\<lambda>p. validateTermTable bs t p ?S ?n))) TERM_TABLES () = Ok ()"
    by (rule each_row_Ok) (auto simp: D(1) terms)
  ultimately show ?thesis
    unfolding validateContextIndexPayloads_def
    by (simp only: D(1) bind_outcome.simps counts requireCount_def require_def h simp_thms if_True
        string_table out inn metadata enums)
qed

end
