(* ===== verification/Index_Collect.thy ===== *)
theory Index_Collect
  imports Index_Round
begin

text \<open>
  The parts the writer collects, written without their failures: when the writer succeeds, each part is
  the plain function of the sorted nodes and edges stated here, and the parts are well formed.
\<close>

subsection \<open>Successful loops\<close>

lemma each_row_pure:
  assumes "each_row f xs s = Ok s'" "\<And>x s s'. x \<in> set xs \<Longrightarrow> f x s = Ok s' \<Longrightarrow> s' = h x s"
  shows "s' = fold h xs s"
  using assms
proof (induction xs arbitrary: s)
  case (Cons x xs)
  then obtain s1 where s1: "f x s = Ok s1" "each_row f xs s1 = Ok s'" by auto
  have "s1 = h x s" using Cons.prems(2) [of x s s1] s1(1) by simp
  moreover have "s' = fold h xs s1" by (rule Cons.IH [OF s1(2)]) (use Cons.prems(2) in auto)
  ultimately show ?case by simp
qed simp

lemma each_row_step:
  assumes "each_row f xs s = Ok s'" "x \<in> set xs"
  obtains s1 s2 where "f x s1 = Ok s2"
proof -
  from assms have "\<exists>s1 s2. f x s1 = Ok s2"
    by (induction xs arbitrary: s) auto
  with that show thesis by blast
qed

lemma map_outcome_Ok: "map_outcome f xs = Ok ys \<longleftrightarrow> list_all2 (\<lambda>x y. f x = Ok y) xs ys"
  by (induction xs arbitrary: ys) (auto simp: list_all2_Cons1)

lemma map_outcome_pure:
  assumes "map_outcome f xs = Ok ys" "\<And>x y. x \<in> set xs \<Longrightarrow> f x = Ok y \<Longrightarrow> y = h x"
  shows "ys = map h xs"
  using assms(1) unfolding map_outcome_Ok list_all2_conv_all_nth
  by (intro nth_equalityI) (auto intro: assms(2))

subsection \<open>String ids\<close>

definition sid :: "string_interner \<Rightarrow> units \<Rightarrow> nat" where
  "sid si v = index_in (si_table si) v"

definition optional_sid :: "string_interner \<Rightarrow> units option \<Rightarrow> nat" where
  "optional_sid si v =
     (case v of None \<Rightarrow> CONTEXT_INDEX_NO_VALUE | Some s \<Rightarrow> if s = [] then CONTEXT_INDEX_NO_VALUE else sid si s)"

definition known :: "string_interner \<Rightarrow> units \<Rightarrow> bool" where
  "known si v \<longleftrightarrow> si_sealed si \<and> v \<in> set (si_table si)"

lemma index_of_None: "index_of xs x = None \<longleftrightarrow> x \<notin> set xs"
  by (induction xs) auto

lemma idOf_known: "intern_idOf si v = (if known si v then Ok (sid si v) else Thrown PlainError)"
  by (auto simp: intern_idOf_def known_def sid_def index_in_def index_of_None split: option.splits)
    (metis index_of_None option.distinct(1))

lemma index_in_nth: "x \<in> set xs \<Longrightarrow> index_in xs x < length xs \<and> xs ! index_in xs x = x"
  using index_of_Some [of xs x] by (cases "index_of xs x") (auto simp: index_in_def index_of_None)

lemma sid_nth: "known si v \<Longrightarrow> sid si v < length (si_table si) \<and> si_table si ! sid si v = v"
  using index_in_nth [of v "si_table si"] by (simp add: known_def sid_def)

lemma sid_inj: "known si v \<Longrightarrow> known si w \<Longrightarrow> sid si v = sid si w \<Longrightarrow> v = w"
  using sid_nth by metis

lemma idOrSentinel_known:
  "idOrSentinel si v = Ok i \<longleftrightarrow> (case v of None \<Rightarrow> True | Some s \<Rightarrow> s = [] \<or> known si s) \<and> i = optional_sid si v"
  by (auto simp: idOrSentinel_def optional_sid_def idOf_known split: option.splits if_splits)

lemma optional_sid_ref:
  "(case v of None \<Rightarrow> True | Some s \<Rightarrow> s = [] \<or> known si s) \<Longrightarrow> optional_ref (length (si_table si)) (optional_sid si v)"
  using sid_nth [of si] by (auto simp: optional_ref_def optional_sid_def split: option.splits)

subsection \<open>Rows\<close>

definition cells_of :: "metadata_value \<Rightarrow> metadata_cell list" where
  "cells_of v = (case contextIndexMetadataCells v of Ok cells \<Rightarrow> cells | _ \<Rightarrow> [])"

definition entry_rows :: "string_interner \<Rightarrow> nat \<Rightarrow> units \<times> metadata_value \<Rightarrow> metadata_row list" where
  "entry_rows si position entry =
     map (\<lambda>c. \<lparr>md_node = position, md_key = sid si (fst entry), md_value = sid si (mc_text c),
                md_type = mc_type c, md_ordinal = mc_ordinal c\<rparr>) (cells_of (snd entry))"

definition node_metadata :: "string_interner \<Rightarrow> nat \<times> graph_node \<Rightarrow> metadata_row list" where
  "node_metadata si entry = concat (map (entry_rows si (fst entry)) (gn_metadata (snd entry)))"

definition node_row :: "write_input \<Rightarrow> string_interner \<Rightarrow> nat \<times> graph_node \<Rightarrow> bytes" where
  "node_row input si entry =
     (let node = snd entry
      in node_row_bytes input node (fst entry) (sid si (gn_label node)) (optional_sid si (gn_path node))
           (optional_sid si (gn_contentHash node)) (sid si (gn_id node)))"

definition provenance_of :: "string_interner \<Rightarrow> graph_provenance \<Rightarrow> provenance_row" where
  "provenance_of si p =
     \<lparr>pr_pathId = sid si (gp_path p), pr_line = or_no_value (gp_line p), pr_hashId = sid si (gp_hash p),
      pr_extractorId = sid si (gp_extractor p)\<rparr>"

lemma fold_append: "fold (\<lambda>x acc. acc @ g x) xs acc = acc @ concat (map g xs)"
  by (induction xs arbitrary: acc) simp_all

lemma metadata_entry_pure:
  assumes "metadata_entry_rows si position entry rows = Ok rows'"
  shows "rows' = rows @ entry_rows si position entry"
    "known si (fst entry)" "\<forall>c \<in> set (cells_of (snd entry)). known si (mc_text c)"
    "contextIndexMetadataCells (snd entry) = Ok (cells_of (snd entry))"
proof -
  let ?step = "\<lambda>cell acc. bind_outcome (intern_idOf si (mc_text cell)) (\<lambda>v.
         Ok (acc @ [\<lparr>md_node = position, md_key = sid si (fst entry), md_value = v, md_type = mc_type cell,
                     md_ordinal = mc_ordinal cell\<rparr>]))"
  from assms show k: "known si (fst entry)" by (auto simp: metadata_entry_rows_def idOf_known split: if_splits)
  with assms obtain cells where c: "contextIndexMetadataCells (snd entry) = Ok cells" "each_row ?step cells rows = Ok rows'"
    by (auto simp: metadata_entry_rows_def idOf_known)
  then show cells: "contextIndexMetadataCells (snd entry) = Ok (cells_of (snd entry))" by (simp add: cells_of_def)
  with c have run: "each_row ?step (cells_of (snd entry)) rows = Ok rows'" by simp
  show "\<forall>c \<in> set (cells_of (snd entry)). known si (mc_text c)"
  proof
    fix c assume "c \<in> set (cells_of (snd entry))"
    then obtain s1 s2 where "?step c s1 = Ok s2" by (rule each_row_step [OF run])
    then show "known si (mc_text c)" by (simp add: idOf_known split: if_splits)
  qed
  have "rows' = fold (\<lambda>c acc. acc @ [\<lparr>md_node = position, md_key = sid si (fst entry), md_value = sid si (mc_text c),
      md_type = mc_type c, md_ordinal = mc_ordinal c\<rparr>]) (cells_of (snd entry)) rows"
    by (rule each_row_pure [OF run]) (auto simp: idOf_known split: if_splits)
  then show "rows' = rows @ entry_rows si position entry" by (simp add: fold_append entry_rows_def)
qed

lemma node_step_pure:
  assumes "node_step input si entry acc = Ok acc'"
  shows "acc' = (fst acc @ [node_row input si entry], snd acc @ node_metadata si entry)"
    "known si (gn_label (snd entry))" "known si (gn_id (snd entry))"
    "optional_ref (length (si_table si)) (optional_sid si (gn_path (snd entry)))"
    "optional_ref (length (si_table si)) (optional_sid si (gn_contentHash (snd entry)))"
    "\<forall>e \<in> set (gn_metadata (snd entry)). known si (fst e) \<and> (\<forall>c \<in> set (cells_of (snd e)). known si (mc_text c)) \<and>
       contextIndexMetadataCells (snd e) = Ok (cells_of (snd e))"
proof -
  let ?node = "snd entry"
  obtain rows where r: "known si (gn_label ?node)" "known si (gn_id ?node)"
    "case gn_path ?node of None \<Rightarrow> True | Some s \<Rightarrow> s = [] \<or> known si s"
    "case gn_contentHash ?node of None \<Rightarrow> True | Some s \<Rightarrow> s = [] \<or> known si s"
    "each_row (metadata_entry_rows si (fst entry)) (gn_metadata ?node) (snd acc) = Ok rows"
    "acc' = (fst acc @ [node_row input si entry], rows)"
    using assms by (auto simp: node_step_def Let_def idOf_known idOrSentinel_known node_row_def split: if_splits)
  then show "known si (gn_label ?node)" "known si (gn_id ?node)"
    "optional_ref (length (si_table si)) (optional_sid si (gn_path ?node))"
    "optional_ref (length (si_table si)) (optional_sid si (gn_contentHash ?node))"
    using optional_sid_ref by blast+
  have "rows = fold (\<lambda>e acc. acc @ entry_rows si (fst entry) e) (gn_metadata ?node) (snd acc)"
    by (rule each_row_pure [OF r(5)]) (rule metadata_entry_pure(1))
  then show "acc' = (fst acc @ [node_row input si entry], snd acc @ node_metadata si entry)"
    by (simp add: r(6) fold_append node_metadata_def)
  show "\<forall>e \<in> set (gn_metadata ?node). known si (fst e) \<and> (\<forall>c \<in> set (cells_of (snd e)). known si (mc_text c)) \<and>
      contextIndexMetadataCells (snd e) = Ok (cells_of (snd e))"
  proof
    fix e assume "e \<in> set (gn_metadata ?node)"
    then obtain s1 s2 where step: "metadata_entry_rows si (fst entry) e s1 = Ok s2" by (rule each_row_step [OF r(5)])
    then show "known si (fst e) \<and> (\<forall>c \<in> set (cells_of (snd e)). known si (mc_text c)) \<and>
      contextIndexMetadataCells (snd e) = Ok (cells_of (snd e))"
      using metadata_entry_pure(2-4) [OF step] by blast
  qed
qed

end
