(* ===== verification/Index_Parts.thy ===== *)
theory Index_Parts
  imports Index_Collect
begin

text \<open>
  When the writer succeeds, the parts it has collected are well formed: every id is the position of an
  interned string, every edge and lane entry names a node, and the sorted metadata rows of a value lie
  next to each other in the order of its elements.
\<close>

subsection \<open>Loops over what has been done\<close>

lemma each_row_prefix:
  assumes "each_row f xs s = Ok s'" "P [] s"
    "\<And>done x s s'. x \<in> set xs \<Longrightarrow> P done s \<Longrightarrow> f x s = Ok s' \<Longrightarrow> P (done @ [x]) s'"
  shows "P xs s'"
proof -
  have "each_row f ys s = Ok t \<Longrightarrow> P done s \<Longrightarrow> set ys \<subseteq> set xs \<Longrightarrow> P (done @ ys) t" for ys s t "done"
  proof (induction ys arbitrary: s "done")
    case (Cons y ys)
    then obtain u where u: "f y s = Ok u" "each_row f ys u = Ok t" by auto
    have "P ((done @ [y]) @ ys) t"
      by (rule Cons.IH [OF u(2)]) (use assms(3) [OF _ Cons.prems(2) u(1)] Cons.prems(3) in auto)
    then show ?case by simp
  qed simp
  from this [OF assms(1,2)] show ?thesis by simp
qed

lemma distinct_map_concat:
  assumes "distinct (map h xs)" "\<And>x. x \<in> set xs \<Longrightarrow> distinct (map f (g x))"
    "\<And>x r. x \<in> set xs \<Longrightarrow> r \<in> set (g x) \<Longrightarrow> c (f r) = h x"
  shows "distinct (map f (concat (map g xs)))"
  using assms
proof (induction xs)
  case (Cons x xs)
  have "distinct (map f (concat (map g xs)))" by (rule Cons.IH) (use Cons.prems in auto)
  moreover have "f r \<noteq> f q" if "r \<in> set (g x)" "y \<in> set xs" "q \<in> set (g y)" for r y q
  proof -
    have "c (f r) = h x" "c (f q) = h y" using Cons.prems(3) that by auto
    moreover have "h x \<noteq> h y" using Cons.prems(1) that(2) by auto
    ultimately show ?thesis by metis
  qed
  ultimately show ?case using Cons.prems(2) [of x] by (auto simp: distinct_append)
qed simp

subsection \<open>Metadata\<close>

lemma metadata_cells_facts:
  assumes "contextIndexMetadataCells v = Ok cells"
  shows "map mc_ordinal cells = [0..<length cells]"
    "\<forall>c \<in> set cells. mc_type c < CONTEXT_INDEX_METADATA_TYPE_COUNT \<and> mc_ordinal c < 0x10000"
    "1 < length cells \<Longrightarrow> \<forall>c \<in> set cells. mc_type c = METADATA_ARRAY_ELEMENT"
proof -
  show "map mc_ordinal cells = [0..<length cells]"
    using assms by (cases v) (auto simp: metadata_cell_of_def o_def case_prod_unfold split: if_splits
        intro!: nth_equalityI)
  show "\<forall>c \<in> set cells. mc_type c < CONTEXT_INDEX_METADATA_TYPE_COUNT \<and> mc_ordinal c < 0x10000"
    using assms by (cases v) (auto simp: metadata_cell_of_def CONTEXT_INDEX_METADATA_TYPE_COUNT_def METADATA_ARRAY_ELEMENT_def
        CONTEXT_INDEX_METADATA_MAX_ARRAY_LENGTH_def in_set_enumerate_eq split: if_splits)
  show "\<forall>c \<in> set cells. mc_type c = METADATA_ARRAY_ELEMENT" if "1 < length cells"
    using assms that by (cases v) (auto simp: metadata_cell_of_def split: if_splits)
qed

definition metadata_place :: "metadata_row \<Rightarrow> nat \<times> nat \<times> nat" where
  "metadata_place r = (md_node r, md_key r, md_ordinal r)"

text \<open>Rows with distinct places, in which an element of a later position has its predecessor.\<close>

definition metadata_complete :: "metadata_row list \<Rightarrow> bool" where
  "metadata_complete rows \<longleftrightarrow>
     distinct (map metadata_place rows) \<and>
     (\<forall>r \<in> set rows. \<forall>k. md_ordinal r = Suc k \<longrightarrow> md_type r = METADATA_ARRAY_ELEMENT \<and>
        (\<exists>p \<in> set rows. metadata_place p = (md_node r, md_key r, k) \<and> md_type p = METADATA_ARRAY_ELEMENT))"

lemma metadata_sorted_strict:
  assumes "distinct (map metadata_place rows)"
  shows "sorted_wrt (\<lambda>p r. metadata_place p < metadata_place r) (sort_key metadata_order rows)"
proof -
  let ?R = "sort_key metadata_order rows"
  have d: "distinct (map metadata_place ?R)"
    using assms by (metis mset_map mset_sort mset_eq_imp_distinct_iff)
  have "sorted_wrt (\<lambda>p r. metadata_order p \<le> metadata_order r) ?R"
    using sorted_sort_key [of metadata_order rows] by (simp add: sorted_map)
  moreover have "sorted_wrt (\<lambda>p r. metadata_place p \<noteq> metadata_place r) ?R"
    using d by (simp add: sorted_wrt_iff_nth_less distinct_conv_nth)
  ultimately have "sorted_wrt (\<lambda>p r. metadata_order p \<le> metadata_order r \<and> metadata_place p \<noteq> metadata_place r) ?R"
    by (simp add: sorted_wrt_iff_nth_less)
  then show ?thesis
    by (rule sorted_wrt_mono_rel [rotated])
      (auto simp: metadata_order_def metadata_place_def less_eq_prod_def less_prod_def)
qed

lemma metadata_rows_sorted_ok:
  assumes "metadata_complete rows" "list_all (metadata_row_ok S n) rows"
  shows "metadata_rows_ok S n (sort_key metadata_order rows)"
proof -
  let ?R = "sort_key metadata_order rows"
  have strict: "metadata_place (?R ! i) < metadata_place (?R ! j)" if "i < j" "j < length ?R" for i j
    using metadata_sorted_strict [of rows] assms(1) that
    unfolding metadata_complete_def sorted_wrt_iff_nth_less by blast
  have before: "\<exists>j < i. metadata_place (?R ! j) = (md_node r, md_key r, k) \<and> md_type (?R ! j) = METADATA_ARRAY_ELEMENT \<and>
      md_type r = METADATA_ARRAY_ELEMENT"
    if i: "i < length ?R" and r: "r = ?R ! i" and k: "md_ordinal r = Suc k" for i r k
  proof -
    have "r \<in> set rows" using i r nth_mem [of i ?R] by simp
    with assms(1) k obtain p where p: "p \<in> set ?R" "metadata_place p = (md_node r, md_key r, k)"
      "md_type p = METADATA_ARRAY_ELEMENT" "md_type r = METADATA_ARRAY_ELEMENT"
      unfolding metadata_complete_def by auto
    then obtain j where j: "j < length ?R" "?R ! j = p" by (metis in_set_conv_nth)
    have "metadata_place p < metadata_place r" using p(2) k by (simp add: metadata_place_def less_prod_def)
    then have "\<not> i \<le> j" using strict [of i j] j r by (auto simp: le_less dest: order.asym)
    then show ?thesis using p j by (intro exI [of _ j]) auto
  qed
  have first: "md_ordinal (hd ?R) = 0" if "?R \<noteq> []"
  proof (cases "md_ordinal (hd ?R)")
    case (Suc k)
    moreover have "0 < length ?R" "hd ?R = ?R ! 0" using that by (auto simp: hd_conv_nth)
    ultimately show ?thesis using before [of 0 "hd ?R" k] by blast
  qed
  have follows: "metadata_follows (?R ! i) (?R ! Suc i)" if i: "Suc i < length ?R" for i
  proof -
    let ?p = "?R ! i" and ?r = "?R ! Suc i"
    have lt: "metadata_place ?p < metadata_place ?r" using strict [of i "Suc i"] i by simp
    show ?thesis
    proof (cases "md_ordinal ?r")
      case 0
      then show ?thesis using lt by (auto simp: metadata_follows_def metadata_place_def less_prod_def)
    next
      case (Suc k)
      from before [OF i refl Suc] obtain j where j: "j < Suc i" "metadata_place (?R ! j) = (md_node ?r, md_key ?r, k)"
        "md_type (?R ! j) = METADATA_ARRAY_ELEMENT" "md_type ?r = METADATA_ARRAY_ELEMENT" by blast
      have "j = i"
      proof (rule ccontr)
        assume "j \<noteq> i"
        then have "metadata_place (?R ! j) < metadata_place ?p" using strict [of j i] j(1) i by simp
        with lt j(2) Suc show False by (auto simp: metadata_place_def less_prod_def)
      qed
      then show ?thesis using j Suc by (auto simp: metadata_follows_def metadata_place_def)
    qed
  qed
  have "list_all (metadata_row_ok S n) ?R" using assms(2) by (simp add: list_all_iff)
  then show ?thesis using first follows by (auto simp: metadata_rows_ok_def)
qed

subsection \<open>Nodes\<close>

definition optional_known :: "string_interner \<Rightarrow> units option \<Rightarrow> bool" where
  "optional_known si v \<longleftrightarrow> (case v of None \<Rightarrow> True | Some s \<Rightarrow> s = [] \<or> known si s)"

definition node_interned :: "string_interner \<Rightarrow> graph_node \<Rightarrow> bool" where
  "node_interned si node \<longleftrightarrow>
     known si (gn_label node) \<and> known si (gn_id node) \<and>
     optional_ref (length (si_table si)) (optional_sid si (gn_path node)) \<and>
     optional_ref (length (si_table si)) (optional_sid si (gn_contentHash node)) \<and>
     list_all (\<lambda>e. known si (fst e) \<and> list_all (\<lambda>c. known si (mc_text c)) (cells_of (snd e)) \<and>
       contextIndexMetadataCells (snd e) = Ok (cells_of (snd e))) (gn_metadata node)"

lemma node_rows_pure:
  assumes "each_row (node_step input si) entries ([], []) = Ok acc"
  shows "acc = (map (node_row input si) entries, concat (map (node_metadata si) entries))"
    "list_all (node_interned si) (map snd entries)"
proof -
  show "acc = (map (node_row input si) entries, concat (map (node_metadata si) entries))"
    by (rule each_row_prefix [OF assms]) (auto dest: node_step_pure(1))
  have "node_interned si (snd e)" if "e \<in> set entries" for e
  proof -
    from that obtain s1 s2 where "node_step input si e s1 = Ok s2" by (rule each_row_step [OF assms])
    from node_step_pure(2-) [OF this] show ?thesis by (simp add: node_interned_def list_all_iff)
  qed
  then show "list_all (node_interned si) (map snd entries)" by (auto simp: list_all_iff)
qed

definition node_coded :: "graph_node \<Rightarrow> bool" where
  "node_coded node \<longleftrightarrow>
     code_of CONTEXT_GRAPH_NODE_KINDS (gn_kind node) \<noteq> None \<and> code_of FRESHNESS_CODES (gn_freshness node) \<noteq> None \<and>
     code_of RISK_CODES (gn_risk node) \<noteq> None"

lemma code_of_bound: "code_of codes v \<noteq> None \<Longrightarrow> the (code_of codes v) < length codes"
  by (auto simp: code_of_def dest: index_of_Some split: option.splits)

lemma le_nat_bytes_small: "v < 256 ^ n \<Longrightarrow> le_nat (le_bytes n v) = v"
  by (simp add: le_nat_bytes)

lemma code_list_lengths:
  "length CONTEXT_GRAPH_NODE_KINDS \<le> 256" "length FRESHNESS_CODES \<le> 256" "length RISK_CODES \<le> 256"
  "length CONTEXT_GRAPH_EDGE_TYPES \<le> 256" "length CONFIDENCE_CODES \<le> 256"
  by (simp_all add: CONTEXT_GRAPH_NODE_KINDS_def FRESHNESS_CODES_def RISK_CODES_def CONTEXT_GRAPH_EDGE_TYPES_def
      CONFIDENCE_CODES_def)

text \<open>The columns of a node row.\<close>

lemma node_row_cells:
  "cell (node_row_bytes input node position label path contentHash nodeId) 0 1 =
     the (code_of CONTEXT_GRAPH_NODE_KINDS (gn_kind node)) mod 256"
  "cell (node_row_bytes input node position label path contentHash nodeId) 1 1 =
     the (code_of FRESHNESS_CODES (gn_freshness node)) mod 256"
  "cell (node_row_bytes input node position label path contentHash nodeId) 2 1 =
     the (code_of RISK_CODES (gn_risk node)) mod 256"
  "cell (node_row_bytes input node position label path contentHash nodeId) 3 1 =
     unat (nodeFlags node (wi_protectedNodeIds input) (wi_invalidatedNodeIds input)) mod 256"
  "cell (node_row_bytes input node position label path contentHash nodeId) 4 2 =
     nat (quantizeTrust (gn_trust node)) mod 2 ^ 16"
  "cell (node_row_bytes input node position label path contentHash nodeId) 8 4 =
     token_cost_cell (gn_tokenCost node) mod 2 ^ 32"
  "cell (node_row_bytes input node position label path contentHash nodeId) 12 4 = label mod 2 ^ 32"
  "cell (node_row_bytes input node position label path contentHash nodeId) 16 4 = path mod 2 ^ 32"
  "cell (node_row_bytes input node position label path contentHash nodeId) 20 4 = or_no_value (gn_line node) mod 2 ^ 32"
  "cell (node_row_bytes input node position label path contentHash nodeId) 24 4 = or_no_value (gn_column node) mod 2 ^ 32"
  "cell (node_row_bytes input node position label path contentHash nodeId) 28 4 = contentHash mod 2 ^ 32"
  "cell (node_row_bytes input node position label path contentHash nodeId) 32 4 = position mod 2 ^ 32"
  "cell (node_row_bytes input node position label path contentHash nodeId) 36 4 = nodeId mod 2 ^ 32"
  "length (node_row_bytes input node position label path contentHash nodeId) = 40"
  by (simp_all add: cell_def node_row_bytes_def sub_bytes_def le_nat_bytes del: One_nat_def le_bytes.simps)

lemma written_node_row:
  assumes "node_interned si node" "node_coded node" "length (si_table si) < 2 ^ 32" "i < 2 ^ 32"
  shows "node_row_ok (length (si_table si)) n i (node_row input si (i, node))"
proof -
  let ?S = "length (si_table si)"
  have ids: "sid si (gn_label node) < ?S" "sid si (gn_id node) < ?S"
    using assms(1) sid_nth [of si] by (auto simp: node_interned_def)
  have refs: "optional_ref ?S (optional_sid si (gn_path node) mod 2 ^ 32)"
    "optional_ref ?S (optional_sid si (gn_contentHash node) mod 2 ^ 32)"
    using assms(1,3) by (auto simp: node_interned_def optional_ref_def CONTEXT_INDEX_NO_VALUE_def)
  have codes: "the (code_of CONTEXT_GRAPH_NODE_KINDS (gn_kind node)) < length CONTEXT_GRAPH_NODE_KINDS"
    "the (code_of FRESHNESS_CODES (gn_freshness node)) < length FRESHNESS_CODES"
    "the (code_of RISK_CODES (gn_risk node)) < length RISK_CODES"
    using assms(2) code_of_bound unfolding node_coded_def by blast+
  show ?thesis
    using ids refs codes code_list_lengths assms(3,4)
    by (simp add: node_row_def Let_def node_row_ok_def node_row_cells del: One_nat_def)
qed

subsection \<open>Node metadata\<close>

lemma node_metadata_complete:
  assumes "list_all (node_interned si) nodes" "list_all (\<lambda>node. distinct (map fst (gn_metadata node))) nodes"
  shows "metadata_complete (concat (map (node_metadata si) (enumerate 0 nodes)))"
    "list_all (metadata_row_ok (length (si_table si)) (length nodes))
       (concat (map (node_metadata si) (enumerate 0 nodes)))"
proof -
  let ?E = "enumerate 0 nodes" and ?M = "concat (map (node_metadata si) (enumerate 0 nodes))"
  have enumerated: "snd x \<in> set nodes" if "x \<in> set ?E" for x
    using that by (auto simp: in_set_enumerate_eq) (metis nth_mem)
  have entry: "known si (fst e)" "\<forall>c \<in> set (cells_of (snd e)). known si (mc_text c)"
    "contextIndexMetadataCells (snd e) = Ok (cells_of (snd e))"
    if "x \<in> set ?E" "e \<in> set (gn_metadata (snd x))" for x e
  proof -
    have "snd x \<in> set nodes" using that(1) enumerated by blast
    then have "node_interned si (snd x)" using assms(1) by (simp add: list_all_iff)
    then show "known si (fst e)" "\<forall>c \<in> set (cells_of (snd e)). known si (mc_text c)"
      "contextIndexMetadataCells (snd e) = Ok (cells_of (snd e))"
      using that(2) by (auto simp: node_interned_def list_all_iff)
  qed
  have row: "\<exists>x e c. x \<in> set ?E \<and> e \<in> set (gn_metadata (snd x)) \<and> c \<in> set (cells_of (snd e)) \<and>
      r = \<lparr>md_node = fst x, md_key = sid si (fst e), md_value = sid si (mc_text c), md_type = mc_type c,
           md_ordinal = mc_ordinal c\<rparr>" if "r \<in> set ?M" for r
    using that by (fastforce simp: node_metadata_def entry_rows_def)
  have places: "distinct (map metadata_place ?M)"
  proof (rule distinct_map_concat [where h = fst and c = fst])
    show "distinct (map fst ?E)" by simp
    fix x assume x: "x \<in> set ?E"
    show "distinct (map metadata_place (node_metadata si x))" unfolding node_metadata_def
    proof (rule distinct_map_concat [where h = "\<lambda>e. sid si (fst e)" and c = "\<lambda>p. fst (snd p)"])
      have "snd x \<in> set nodes" using x enumerated by blast
      then have "distinct (map fst (gn_metadata (snd x)))" using assms(2) by (simp add: list_all_iff)
      moreover have "inj_on (sid si) (fst ` set (gn_metadata (snd x)))"
        by (rule inj_onI) (use entry(1) [OF x] in \<open>auto dest!: sid_inj [rotated -1]\<close>)
      ultimately have "distinct (map (sid si) (map fst (gn_metadata (snd x))))"
        by (simp only: distinct_map list.set_map simp_thms)
      then show "distinct (map (\<lambda>e. sid si (fst e)) (gn_metadata (snd x)))" by (simp add: o_def)
      fix e assume "e \<in> set (gn_metadata (snd x))"
      from metadata_cells_facts(1) [OF entry(3) [OF x this]]
      have "distinct (map mc_ordinal (cells_of (snd e)))" by simp
      then show "distinct (map metadata_place (entry_rows si (fst x) e))"
        by (auto simp: entry_rows_def metadata_place_def o_def distinct_map inj_on_def)
    qed (auto simp: entry_rows_def metadata_place_def)
  qed (auto simp: node_metadata_def entry_rows_def metadata_place_def)
  have chain: "md_type r = METADATA_ARRAY_ELEMENT \<and>
      (\<exists>p \<in> set ?M. metadata_place p = (md_node r, md_key r, k) \<and> md_type p = METADATA_ARRAY_ELEMENT)"
    if r: "r \<in> set ?M" and k: "md_ordinal r = Suc k" for r k
  proof -
    from row [OF r] obtain x e c where c: "x \<in> set ?E" "e \<in> set (gn_metadata (snd x))" "c \<in> set (cells_of (snd e))"
      "r = \<lparr>md_node = fst x, md_key = sid si (fst e), md_value = sid si (mc_text c), md_type = mc_type c,
           md_ordinal = mc_ordinal c\<rparr>" by blast
    note f = metadata_cells_facts [OF entry(3) [OF c(1,2)]]
    from c(3) obtain i where i: "i < length (cells_of (snd e))" "cells_of (snd e) ! i = c" by (metis in_set_conv_nth)
    have ord: "mc_ordinal (cells_of (snd e) ! j) = j" if "j < length (cells_of (snd e))" for j
      using arg_cong [OF f(1), of "\<lambda>xs. xs ! j"] that by simp
    have ik: "i = Suc k" using ord [OF i(1)] i(2) c(4) k by simp
    let ?d = "cells_of (snd e) ! k"
    have d: "?d \<in> set (cells_of (snd e))" "mc_ordinal ?d = k" using ord [of k] i(1) ik by auto
    have all: "\<forall>c \<in> set (cells_of (snd e)). mc_type c = METADATA_ARRAY_ELEMENT" by (rule f(3)) (use i(1) ik in simp)
    let ?p = "\<lparr>md_node = fst x, md_key = sid si (fst e), md_value = sid si (mc_text ?d), md_type = mc_type ?d,
           md_ordinal = mc_ordinal ?d\<rparr>"
    have "?p \<in> set (entry_rows si (fst x) e)" using d(1) by (auto simp: entry_rows_def)
    then have "?p \<in> set ?M" using c(1,2) by (auto simp: node_metadata_def)
    moreover have "metadata_place ?p = (md_node r, md_key r, k)" "md_type ?p = METADATA_ARRAY_ELEMENT"
      using d all c(4) by (simp_all add: metadata_place_def)
    moreover have "md_type r = METADATA_ARRAY_ELEMENT" using all c(3,4) by simp
    ultimately show ?thesis by blast
  qed
  show "metadata_complete ?M" unfolding metadata_complete_def using places chain by blast
  show "list_all (metadata_row_ok (length (si_table si)) (length nodes)) ?M" unfolding list_all_iff
  proof
    fix r assume "r \<in> set ?M"
    from row [OF this] obtain x e c where c: "x \<in> set ?E" "e \<in> set (gn_metadata (snd x))" "c \<in> set (cells_of (snd e))"
      "r = \<lparr>md_node = fst x, md_key = sid si (fst e), md_value = sid si (mc_text c), md_type = mc_type c,
           md_ordinal = mc_ordinal c\<rparr>" by blast
    then show "metadata_row_ok (length (si_table si)) (length nodes) r"
      using entry [OF c(1,2)] metadata_cells_facts(2) [OF entry(3) [OF c(1,2)]] sid_nth [of si]
      by (auto simp: metadata_row_ok_def in_set_enumerate_eq)
  qed
qed

subsection \<open>Edges\<close>

definition edge_coded :: "units list \<Rightarrow> graph_edge \<Rightarrow> bool" where
  "edge_coded ids e \<longleftrightarrow>
     code_of CONTEXT_GRAPH_EDGE_TYPES (ge_type e) \<noteq> None \<and> code_of CONFIDENCE_CODES (ge_confidence e) \<noteq> None \<and>
     ge_from e \<in> set ids \<and> ge_to e \<in> set ids"

text \<open>What the loop over the edges has written: a row per edge, whose provenance is interned.\<close>

definition edge_written ::
  "string_interner \<Rightarrow> units list \<Rightarrow> provenance_row list \<Rightarrow> graph_edge \<Rightarrow> bytes \<Rightarrow> bool" where
  "edge_written si ids rows e r \<longleftrightarrow>
     (\<exists>p < length rows. rows ! p = provenance_of si (ge_provenance e) \<and>
        r = edge_row_bytes (index_in ids (ge_to e)) (the (code_of CONTEXT_GRAPH_EDGE_TYPES (ge_type e)))
              (the (code_of CONFIDENCE_CODES (ge_confidence e))) p)"

definition provenance_known :: "string_interner \<Rightarrow> graph_provenance \<Rightarrow> bool" where
  "provenance_known si p \<longleftrightarrow> known si (gp_path p) \<and> known si (gp_hash p) \<and> known si (gp_extractor p)"

lemma provenance_row_Ok:
  "provenance_row_of si p = Ok r \<longleftrightarrow> provenance_known si p \<and> r = provenance_of si p"
  by (auto simp: provenance_row_of_def provenance_known_def idOf_known provenance_of_def split: if_splits)

lemma provenance_of_ok: "provenance_known si p \<Longrightarrow> provenance_row_ok (length (si_table si)) (provenance_of si p)"
  using sid_nth [of si] by (simp add: provenance_known_def provenance_row_ok_def provenance_of_def)

lemma provenanceIdFor_facts:
  assumes "provenanceIdFor r rows = (i, rows')"
  shows "i < length rows'" "rows' ! i = r" "\<exists>extra. rows' = rows @ extra \<and> set extra \<subseteq> {r} \<and> length extra \<le> 1"
  using assms index_of_Some [of rows r] by (auto simp: provenanceIdFor_def split: option.splits)

definition edges_written ::
  "string_interner \<Rightarrow> units list \<Rightarrow> graph_edge list \<Rightarrow> bytes list \<times> provenance_row list \<Rightarrow> bool" where
  "edges_written si ids es acc \<longleftrightarrow>
     list_all2 (edge_written si ids (snd acc)) es (fst acc) \<and> length (snd acc) \<le> length es \<and>
     list_all (provenance_row_ok (length (si_table si))) (snd acc) \<and>
     list_all (\<lambda>e. provenance_known si (ge_provenance e)) es"

lemma edge_written_more: "edge_written si ids rows e r \<Longrightarrow> edge_written si ids (rows @ extra) e r"
  by (force simp: edge_written_def nth_append)

lemma edge_step_written:
  assumes "edges_written si ids es acc" "edge_step si ids e acc = Ok acc'"
  shows "edges_written si ids (es @ [e]) acc'"
proof -
  let ?r = "provenance_of si (ge_provenance e)"
  obtain i rows where p: "provenance_known si (ge_provenance e)" "provenanceIdFor ?r (snd acc) = (i, rows)"
    "acc' = (fst acc @ [edge_row_bytes (index_in ids (ge_to e)) (the (code_of CONTEXT_GRAPH_EDGE_TYPES (ge_type e)))
                           (the (code_of CONFIDENCE_CODES (ge_confidence e))) i], rows)"
    using assms(2) by (auto simp: edge_step_def provenance_row_Ok Let_def split: prod.splits)
  from provenanceIdFor_facts [OF p(2)] obtain extra where m: "i < length rows" "rows ! i = ?r"
    "rows = snd acc @ extra" "set extra \<subseteq> {?r}" "length extra \<le> 1" by blast
  have "list_all2 (edge_written si ids rows) es (fst acc)"
    using assms(1) edge_written_more unfolding edges_written_def m(3) by (auto elim: list_all2_mono)
  moreover have "edge_written si ids rows e (last (fst acc'))" using m(1,2) p(3) by (auto simp: edge_written_def)
  ultimately show ?thesis
    using assms(1) p m(3-5) provenance_of_ok [OF p(1)]
    by (auto simp: edges_written_def list_all2_appendI list_all_iff)
qed

lemma edges_written_run:
  "each_row (edge_step si ids) es ([], []) = Ok acc \<Longrightarrow> edges_written si ids es acc"
  by (erule each_row_prefix) (auto simp: edges_written_def [of si ids "[]"] intro: edge_step_written)

lemma edge_row_cells:
  "cell (edge_row_bytes target type confidence provenance) 0 4 = target mod 2 ^ 32"
  "cell (edge_row_bytes target type confidence provenance) 4 1 = type mod 256"
  "cell (edge_row_bytes target type confidence provenance) 5 1 = confidence mod 256"
  "cell (edge_row_bytes target type confidence provenance) 8 4 = provenance mod 2 ^ 32"
  "cell (edge_row_bytes target type confidence provenance) 12 2 = CONTEXT_INDEX_PROFILE_MASK_RESERVED"
  "length (edge_row_bytes target type confidence provenance) = 16"
  by (simp_all add: cell_def edge_row_bytes_def sub_bytes_def le_nat_bytes CONTEXT_INDEX_PROFILE_MASK_RESERVED_def
      del: One_nat_def le_bytes.simps)

lemma written_edge_row:
  assumes "edge_written si ids rows e r" "edge_coded ids e" "length ids \<le> 2 ^ 32" "length rows \<le> 2 ^ 32"
  shows "edge_row_ok (length ids) (length rows) r"
proof -
  have "index_in ids (ge_to e) < length ids" using index_in_nth [of "ge_to e" ids] assms(2) by (simp add: edge_coded_def)
  moreover have "the (code_of CONTEXT_GRAPH_EDGE_TYPES (ge_type e)) < length CONTEXT_GRAPH_EDGE_TYPES"
    "the (code_of CONFIDENCE_CODES (ge_confidence e)) < length CONFIDENCE_CODES"
    using assms(2) code_of_bound unfolding edge_coded_def by blast+
  ultimately show ?thesis
    using assms(1,3,4) code_list_lengths
    by (auto simp: edge_written_def edge_row_ok_def edge_row_cells simp del: One_nat_def)
qed

subsection \<open>Lanes\<close>

lemma term_runs_ok:
  assumes "\<forall>e \<in> set entries. fst e < S \<and> snd e < n"
  shows "runs_ok S n (term_runs entries)"
  using assms by (auto simp: runs_ok_def term_runs_def list_all_iff o_def)

lemma termTable_lane:
  "\<forall>e \<in> set entries. fst e < S \<and> snd e < n \<Longrightarrow> lane_from_runs S n (termTable entries)"
  using term_runs_ok by (auto simp: lane_from_runs_def termTable_runs)

lemma termTable_count: "tt_termCount (termTable entries) = card (fst ` set entries)"
  by (simp add: termTable_runs runs_table_def term_runs_def Let_def)

lemma map_outcome_members:
  assumes "map_outcome f xs = Ok ys" "y \<in> set ys"
  obtains x where "x \<in> set xs" "f x = Ok y"
proof -
  from assms(2) obtain i where i: "i < length ys" "ys ! i = y" by (auto simp: in_set_conv_nth)
  then have "i < length xs" "f (xs ! i) = Ok y"
    using assms(1) unfolding map_outcome_Ok by (auto simp: list_all2_conv_all_nth)
  then show thesis using that [of "xs ! i"] by simp
qed

lemma lane_posting_node_Ok: "lane_posting_node ps n k = Ok v \<Longrightarrow> v < n"
  by (auto simp: lane_posting_node_def split: if_splits)

lemma lane_row_runs:
  assumes "runs_ok S n runs" "lane_row_step termIdOf postings n lrow runs = Ok runs'"
    "\<And>t i. termIdOf t = Ok i \<Longrightarrow> i < S"
  shows "runs_ok S n runs'"
proof -
  obtain t nodes where t: "termIdOf (lt_term lrow) = Ok t" "runs \<noteq> [] \<longrightarrow> fst (last runs) < t"
    "map_outcome (lane_posting_node postings n)
       [lt_postingOffset lrow..<lt_postingOffset lrow + lt_postingCount lrow] = Ok nodes"
    "runs' = runs @ [(t, nodes)]"
    using assms(2) by (auto simp: lane_row_step_def refuse_if_def not_le split: if_splits)
  have nodes: "list_all (\<lambda>x. x < n) nodes"
    unfolding list_all_iff by (auto elim!: map_outcome_members [OF t(3)] dest!: lane_posting_node_Ok)
  have "fst r < t" if "r \<in> set runs" for r
  proof (cases runs rule: rev_cases)
    case (snoc rs q)
    then have "r = q \<or> fst r < fst q" using assms(1) that by (auto simp: runs_ok_def sorted_wrt_append)
    then show ?thesis using t(2) snoc by auto
  qed (use that in simp)
  then show ?thesis using assms(1) assms(3) [OF t(1)] nodes t(4) by (auto simp: runs_ok_def sorted_wrt_append)
qed

lemma lane_encoded:
  assumes "encodeContextIndexLane built termIdOf n = Ok lane" "\<And>t i. termIdOf t = Ok i \<Longrightarrow> i < S"
  shows "lane_from_runs S n lane"
proof -
  obtain runs where r: "each_row (lane_row_step termIdOf (lx_postings built) n) (lx_terms built) [] = Ok runs"
    "lane = runs_table runs"
    using assms(1) by (auto simp: encodeContextIndexLane_def)
  have "runs_ok S n runs"
    by (rule each_row_invariant [OF r(1), of "runs_ok S n"])
      (auto simp: runs_ok_def [of S n "[]"] intro: lane_row_runs assms(2))
  then show ?thesis using r(2) by (auto simp: lane_from_runs_def)
qed

lemma lane_table_ok:
  assumes "lane_table si n which lexical = Ok lane"
  shows "lane_from_runs (length (si_table si)) n lane"
proof (cases lexical)
  case None
  then have "lane = runs_table []"
    using assms by (simp add: lane_table_def EMPTY_CONTEXT_INDEX_LANE_def runs_table_def u32Section_def)
  then show ?thesis by (auto simp: lane_from_runs_def runs_ok_def intro: exI [of _ "[]"])
next
  case (Some l)
  show ?thesis
    by (rule lane_encoded [of "which l" "intern_idOf si"])
      (use assms Some sid_nth [of si] in \<open>auto simp: lane_table_def idOf_known split: if_splits\<close>)
qed

end
