(* ===== verification/Index_Sealed.thy ===== *)
theory Index_Sealed
  imports Index_Parts
begin

text \<open>
  The first pass of the writer: which snapshots it lets through, and which strings it interns.  With the
  second pass this makes the collected parts well formed.
\<close>

subsection \<open>The strings of a snapshot\<close>

definition option_strings :: "units option \<Rightarrow> units list" where
  "option_strings v = (case v of None \<Rightarrow> [] | Some s \<Rightarrow> [s])"

definition entry_strings :: "units \<times> metadata_value \<Rightarrow> units list" where
  "entry_strings e = fst e # map mc_text (cells_of (snd e))"

definition node_strings :: "graph_node \<Rightarrow> units list" where
  "node_strings node =
     [gn_id node, gn_label node] @ option_strings (gn_path node) @ option_strings (gn_contentHash node) @
     concat (map entry_strings (gn_metadata node))"

definition edge_strings :: "graph_edge \<Rightarrow> units list" where
  "edge_strings e = [gp_path (ge_provenance e), gp_hash (ge_provenance e), gp_extractor (ge_provenance e)]"

definition written_strings :: "write_input \<Rightarrow> graph_node list \<Rightarrow> lexical_build option \<Rightarrow> units list" where
  "written_strings input nodes lexical =
     concat (map node_strings nodes) @ concat (map edge_strings (gs_edges (wi_snapshot input))) @
     (case lexical of None \<Rightarrow> [] | Some l \<Rightarrow> lb_terms l)"

subsection \<open>Interning\<close>

text \<open>An open interner that holds the strings of a list.\<close>

definition interner_holds :: "units list \<Rightarrow> string_interner \<Rightarrow> bool" where
  "interner_holds vs si \<longleftrightarrow> \<not> si_sealed si \<and> distinct (si_values si) \<and> set (si_values si) = set vs"

lemma intern_add_holds:
  assumes "interner_holds vs si" "intern_add v si = Ok si'"
  shows "interner_holds (vs @ [v]) si'"
proof -
  have "\<not> si_sealed si" "si' = si\<lparr>si_values := if v \<in> set (si_values si) then si_values si else si_values si @ [v]\<rparr>"
    using assms by (simp_all add: interner_holds_def intern_add_def)
  then show ?thesis using assms(1) by (cases "v \<in> set vs") (simp_all add: interner_holds_def insert_absorb)
qed

lemma each_holds:
  assumes "each_row f xs si = Ok si'" "interner_holds vs si"
    "\<And>vs x si si'. x \<in> set xs \<Longrightarrow> interner_holds vs si \<Longrightarrow> f x si = Ok si' \<Longrightarrow> interner_holds (vs @ g x) si'"
  shows "interner_holds (vs @ concat (map g xs)) si'"
proof (rule each_row_prefix [OF assms(1), of "\<lambda>done si. interner_holds (vs @ concat (map g done)) si"])
  show "interner_holds (vs @ concat (map g [])) si" using assms(2) by simp
  fix "done" x s s'
  assume "x \<in> set xs" "interner_holds (vs @ concat (map g done)) s" "f x s = Ok s'"
  from assms(3) [OF this] show "interner_holds (vs @ concat (map g (done @ [x]))) s'" by simp
qed

lemma intern_all_holds:
  assumes "each_row (\<lambda>x. intern_add (f x)) xs si = Ok si'" "interner_holds vs si"
  shows "interner_holds (vs @ map f xs) si'"
  using each_holds [OF assms, of "\<lambda>x. [f x]"] intern_add_holds by simp

lemma intern_option_holds:
  "interner_holds vs si \<Longrightarrow> intern_option v si = Ok si' \<Longrightarrow> interner_holds (vs @ option_strings v) si'"
  by (cases v) (auto simp: intern_option_def option_strings_def dest: intern_add_holds)

lemma intern_entry_holds:
  assumes "interner_holds vs si" "intern_entry e si = Ok si'"
  shows "interner_holds (vs @ entry_strings e) si'"
proof -
  obtain s1 cells where s: "intern_add (fst e) si = Ok s1" "contextIndexMetadataCells (snd e) = Ok cells"
    "each_row (\<lambda>cell. intern_add (mc_text cell)) cells s1 = Ok si'"
    using assms(2) by (auto simp: intern_entry_def)
  from intern_all_holds [OF s(3) intern_add_holds [OF assms(1) s(1)]] s(2)
  show ?thesis by (simp add: entry_strings_def cells_of_def)
qed

lemma intern_node_facts:
  assumes "intern_node node si = Ok si'"
  shows "node_coded node" "case gn_path node of None \<Rightarrow> True | Some p \<Rightarrow> writerRelativePath p"
    "interner_holds vs si \<Longrightarrow> interner_holds (vs @ node_strings node) si'"
proof -
  obtain s1 s2 s3 s4 where s: "node_coded node" "case gn_path node of None \<Rightarrow> True | Some p \<Rightarrow> writerRelativePath p"
    "intern_add (gn_id node) si = Ok s1" "intern_add (gn_label node) s1 = Ok s2"
    "intern_option (gn_path node) s2 = Ok s3" "intern_option (gn_contentHash node) s3 = Ok s4"
    "each_row intern_entry (gn_metadata node) s4 = Ok si'"
    using assms by (auto simp: intern_node_def refuse_if_def node_coded_def split: if_splits option.splits)
  then show "node_coded node" "case gn_path node of None \<Rightarrow> True | Some p \<Rightarrow> writerRelativePath p" by auto
  assume "interner_holds vs si"
  note added = intern_add_holds [OF intern_add_holds [OF this s(3)] s(4)]
  note held = intern_option_holds [OF intern_option_holds [OF added s(5)] s(6)]
  from each_holds [OF s(7) held intern_entry_holds] show "interner_holds (vs @ node_strings node) si'"
    by (simp add: node_strings_def)
qed

lemma intern_edge_facts:
  assumes "intern_edge ids e si = Ok si'"
  shows "edge_coded ids e" "writerRelativePath (gp_path (ge_provenance e))"
    "interner_holds vs si \<Longrightarrow> interner_holds (vs @ edge_strings e) si'"
proof -
  let ?p = "ge_provenance e"
  obtain s1 s2 where s: "edge_coded ids e" "writerRelativePath (gp_path ?p)"
    "intern_add (gp_path ?p) si = Ok s1" "intern_add (gp_hash ?p) s1 = Ok s2" "intern_add (gp_extractor ?p) s2 = Ok si'"
    using assms by (auto simp: intern_edge_def refuse_if_def edge_coded_def index_of_None split: if_splits)
  then show "edge_coded ids e" "writerRelativePath (gp_path ?p)" by auto
  assume "interner_holds vs si"
  from intern_add_holds [OF intern_add_holds [OF intern_add_holds [OF this s(3)] s(4)] s(5)]
  show "interner_holds (vs @ edge_strings e) si'" by (simp add: edge_strings_def)
qed

lemma sealed_strings_facts:
  assumes "sealed_strings input nodes lexical = Ok si"
  shows "list_all node_coded nodes" "list_all (edge_coded (map gn_id nodes)) (gs_edges (wi_snapshot input))"
    "list_all (\<lambda>node. case gn_path node of None \<Rightarrow> True | Some p \<Rightarrow> writerRelativePath p) nodes"
    "list_all (\<lambda>e. writerRelativePath (gp_path (ge_provenance e))) (gs_edges (wi_snapshot input))"
    "si_sealed si" "sorted (si_table si)" "distinct (si_table si)"
    "set (si_table si) = set (written_strings input nodes lexical)"
proof -
  let ?edges = "gs_edges (wi_snapshot input)" and ?terms = "case lexical of None \<Rightarrow> [] | Some l \<Rightarrow> lb_terms l"
  obtain s1 s2 s3 where s: "each_row intern_node nodes new_interner = Ok s1"
    "each_row (intern_edge (map gn_id nodes)) ?edges s1 = Ok s2" "each_row intern_add ?terms s2 = Ok s3"
    "si = intern_seal s3"
    using assms by (auto simp: sealed_strings_def)
  have node: "node_coded node \<and> (case gn_path node of None \<Rightarrow> True | Some p \<Rightarrow> writerRelativePath p)" if "node \<in> set nodes" for node
  proof -
    from that obtain u v where u: "intern_node node u = Ok v" by (rule each_row_step [OF s(1)])
    from intern_node_facts(1,2) [OF u] show ?thesis by blast
  qed
  have edge: "edge_coded (map gn_id nodes) e \<and> writerRelativePath (gp_path (ge_provenance e))" if "e \<in> set ?edges" for e
  proof -
    from that obtain u v where u: "intern_edge (map gn_id nodes) e u = Ok v" by (rule each_row_step [OF s(2)])
    from intern_edge_facts(1,2) [OF u] show ?thesis by blast
  qed
  from node show "list_all node_coded nodes"
    "list_all (\<lambda>node. case gn_path node of None \<Rightarrow> True | Some p \<Rightarrow> writerRelativePath p) nodes"
    by (simp_all add: list_all_iff)
  from edge show "list_all (edge_coded (map gn_id nodes)) ?edges"
    "list_all (\<lambda>e. writerRelativePath (gp_path (ge_provenance e))) ?edges" by (simp_all add: list_all_iff)
  have "interner_holds [] new_interner" by (simp add: interner_holds_def new_interner_def)
  from each_holds [OF s(1) this, of node_strings] intern_node_facts(3)
  have "interner_holds (concat (map node_strings nodes)) s1" by simp
  from each_holds [OF s(2) this, of edge_strings] intern_edge_facts(3)
  have "interner_holds (concat (map node_strings nodes) @ concat (map edge_strings ?edges)) s2" by simp
  from intern_all_holds [of id, simplified, OF s(3) this]
  have "interner_holds (written_strings input nodes lexical) s3" by (simp add: written_strings_def)
  then show "si_sealed si" "sorted (si_table si)" "distinct (si_table si)"
    "set (si_table si) = set (written_strings input nodes lexical)"
    by (simp_all add: s(4) intern_seal_def interner_holds_def)
qed

subsection \<open>The collected parts\<close>

lemma unique_ids:
  assumes "each_row unique_id nodes [] = Ok seen"
  shows "distinct (map gn_id nodes)"
proof -
  have "distinct (map gn_id nodes) \<and> seen = map gn_id nodes"
    by (rule each_row_prefix [OF assms]) (auto simp: unique_id_def refuse_if_def split: if_splits)
  then show ?thesis by simp
qed

text \<open>The parts as plain functions of the sorted nodes and edges; the rows of the edges are described by
  \<^term>\<open>edges_written\<close>.\<close>

definition collected ::
  "write_input \<Rightarrow> graph_node list \<Rightarrow> lexical_build option \<Rightarrow> string_interner \<Rightarrow> index_parts \<Rightarrow> bool" where
  "collected input nodes lexical si ix \<longleftrightarrow>
     (let ids = map gn_id nodes; edges = ordered_edges ids (gs_edges (wi_snapshot input))
      in ix_strings ix = si \<and> ix_nodeRows ix = map (node_row input si) (enumerate 0 nodes) \<and>
         ix_metadata ix = sort_key metadata_order (concat (map (node_metadata si) (enumerate 0 nodes))) \<and>
         list_all (node_interned si) nodes \<and> edges_written si ids edges (ix_edgeRows ix, ix_provenance ix) \<and>
         ix_sources ix = map (\<lambda>e. index_in ids (ge_from e)) edges \<and>
         ix_targets ix = map (\<lambda>e. index_in ids (ge_to e)) edges \<and>
         ix_exact ix = termTable (map (\<lambda>e. (sid si (gn_id (snd e)), fst e)) (enumerate 0 nodes)) \<and>
         (\<exists>paths. ix_basename ix = termTable (concat paths) \<and> map_outcome (path_entry si ids) nodes = Ok paths) \<and>
         lane_table si (length nodes) lb_lexical lexical = Ok (ix_lexicon ix) \<and>
         lane_table si (length nodes) lb_coarse lexical = Ok (ix_coarse ix) \<and>
         ix_cycles ix = sort (concat (map (List.map_filter (index_of ids)) (gs_cycles (wi_snapshot input)))) \<and>
         (\<exists>pairs. ix_sourceHashes ix = sort_key pair_key (remdups (concat pairs)) \<and>
            map_outcome (optional_pair si gn_path gn_contentHash) nodes = Ok pairs))"

lemma collect_parts_pure:
  assumes "collect_parts input nodes lexical si = Ok ix"
  shows "collected input nodes lexical si ix"
proof -
  let ?ids = "map gn_id nodes" and ?E = "enumerate 0 nodes"
  let ?edges = "ordered_edges ?ids (gs_edges (wi_snapshot input))"
  obtain edgeRows provenanceRows nodeRows metadataRows exactEntries pathEntries hashPairs lexiconLane coarseLane where
    p: "each_row (edge_step si ?ids) ?edges ([], []) = Ok (edgeRows, provenanceRows)"
    "each_row (node_step input si) ?E ([], []) = Ok (nodeRows, metadataRows)"
    "map_outcome (\<lambda>entry. bind_outcome (intern_idOf si (gn_id (snd entry))) (\<lambda>i. Ok (i, fst entry))) ?E = Ok exactEntries"
    "map_outcome (path_entry si ?ids) nodes = Ok pathEntries"
    "map_outcome (optional_pair si gn_path gn_contentHash) nodes = Ok hashPairs"
    "lane_table si (length nodes) lb_lexical lexical = Ok lexiconLane"
    "lane_table si (length nodes) lb_coarse lexical = Ok coarseLane"
    "ix = \<lparr>ix_strings = si, ix_nodeRows = nodeRows, ix_metadata = sort_key metadata_order metadataRows,
               ix_edgeRows = edgeRows, ix_sources = map (\<lambda>e. index_in ?ids (ge_from e)) ?edges,
               ix_targets = map (\<lambda>e. index_in ?ids (ge_to e)) ?edges,
               ix_exact = termTable exactEntries, ix_basename = termTable (concat pathEntries),
               ix_lexicon = lexiconLane, ix_coarse = coarseLane, ix_provenance = provenanceRows,
               ix_cycles = sort (concat (map (List.map_filter (index_of ?ids)) (gs_cycles (wi_snapshot input)))),
               ix_sourceHashes = sort_key pair_key (remdups (concat hashPairs))\<rparr>"
    using assms by (auto simp: collect_parts_def Let_def)
  have "exactEntries = map (\<lambda>e. (sid si (gn_id (snd e)), fst e)) ?E"
    by (rule map_outcome_pure [OF p(3)]) (auto simp: idOf_known split: if_splits)
  then show ?thesis
    using p edges_written_run [OF p(1)] node_rows_pure [OF p(2)] by (simp add: collected_def Let_def)
qed

definition metadata_objects :: "graph_node list \<Rightarrow> bool" where
  "metadata_objects nodes \<longleftrightarrow> list_all (\<lambda>node. distinct (map fst (gn_metadata node))) nodes"

lemma sources_sorted: "sorted (map (\<lambda>e. index_in ids (ge_from e)) (ordered_edges ids es))"
proof -
  have "sorted (map (\<lambda>e. (index_in ids (ge_from e), index_in ids (ge_to e),
      the (code_of CONTEXT_GRAPH_EDGE_TYPES (ge_type e)), ge_id e)) (ordered_edges ids es))"
    by (simp add: ordered_edges_def)
  then show ?thesis
    unfolding sorted_map by (rule sorted_wrt_mono_rel [rotated]) (auto simp: less_eq_prod_def)
qed

lemma cycle_bound: "x \<in> set (List.map_filter (index_of ids) c) \<Longrightarrow> x < length ids"
  by (auto simp: List.map_filter_def dest: index_of_Some)

lemma collected_ok:
  assumes c: "collected input nodes lexical si ix"
    and sealed: "si_sealed si" "list_all node_coded nodes"
      "list_all (edge_coded (map gn_id nodes)) (gs_edges (wi_snapshot input))"
    and limits: "length nodes \<le> maxNodeCount" "length (gs_edges (wi_snapshot input)) \<le> maxEdgeCount"
      "length (si_table si) < 2 ^ 32"
    and objects: "metadata_objects nodes"
  shows "parts_ok ix"
proof -
  let ?ids = "map gn_id nodes" and ?S = "length (si_table si)" and ?n = "length nodes"
  let ?edges = "ordered_edges ?ids (gs_edges (wi_snapshot input))"
  note c = c [unfolded collected_def Let_def]
  have small: "?n \<le> 2 ^ 24" "length ?edges \<le> 2 ^ 26"
    using limits(1,2) by (simp_all add: maxNodeCount_def maxEdgeCount_def ordered_edges_def)
  have rows: "ix_nodeRows ix = map (node_row input si) (enumerate 0 nodes)" using c by blast
  have n: "length (ix_nodeRows ix) = ?n" by (simp add: rows)
  have node: "node_row_ok ?S ?n i (ix_nodeRows ix ! i)" if "i < ?n" for i
  proof -
    have "node_interned si (nodes ! i)" "node_coded (nodes ! i)"
      using that c sealed(2) by (auto simp: list_all_length)
    from written_node_row [OF this limits(3)] that small show ?thesis by (simp add: rows nth_enumerate_eq)
  qed
  have ew: "edges_written si ?ids ?edges (ix_edgeRows ix, ix_provenance ix)" using c by blast
  then have m: "length (ix_edgeRows ix) = length ?edges" "length (ix_provenance ix) \<le> length ?edges"
    by (auto simp: edges_written_def dest: list_all2_lengthD)
  have coded: "edge_coded ?ids e" if "e \<in> set ?edges" for e
    using that sealed(3) by (auto simp: ordered_edges_def list_all_iff)
  have edge: "list_all (edge_row_ok ?n (length (ix_provenance ix))) (ix_edgeRows ix)" unfolding list_all_length
  proof (intro allI impI)
    fix i assume i: "i < length (ix_edgeRows ix)"
    have "edge_written si ?ids (ix_provenance ix) (?edges ! i) (ix_edgeRows ix ! i)"
      using ew i m(1) by (auto simp: edges_written_def dest: list_all2_nthD)
    from written_edge_row [OF this coded] i m small show "edge_row_ok ?n (length (ix_provenance ix)) (ix_edgeRows ix ! i)"
      by simp
  qed
  have inside: "list_all (\<lambda>x. x < ?n) (map (\<lambda>e. index_in ?ids (f e)) ?edges)"
    if "\<And>e. edge_coded ?ids e \<Longrightarrow> f e \<in> set ?ids" for f
    using coded that index_in_nth [of _ ?ids] by (auto simp: list_all_iff)
  have metadata: "metadata_rows_ok ?S ?n (ix_metadata ix)"
    using c metadata_rows_sorted_ok node_metadata_complete [of si nodes] objects by (auto simp: metadata_objects_def)
  have interned: "node_interned si node" if "node \<in> set nodes" for node
    using that c by (auto simp: list_all_iff)
  let ?exact = "map (\<lambda>e. (sid si (gn_id (snd e)), fst e)) (enumerate 0 nodes)"
  have exact: "ix_exact ix = termTable ?exact" using c by blast
  have exact_lane: "lane_from_runs ?S ?n (ix_exact ix)" unfolding exact
  proof (rule termTable_lane, rule ballI)
    fix e assume "e \<in> set ?exact"
    then obtain i where "i < ?n" "e = (sid si (gn_id (nodes ! i)), i)" by (auto simp: in_set_enumerate_eq)
    then show "fst e < ?S \<and> snd e < ?n" using interned [of "nodes ! i"] sid_nth by (auto simp: node_interned_def)
  qed
  have "card (fst ` set ?exact) \<le> ?n"
    using card_image_le [of "set ?exact" fst] card_length [of ?exact] by (simp del: set_map)
  then have exact_count: "tt_termCount (ix_exact ix) \<le> ?n" by (simp add: exact termTable_count)
  obtain paths where paths: "ix_basename ix = termTable (concat paths)" "map_outcome (path_entry si ?ids) nodes = Ok paths"
    using c by blast
  have basename: "lane_from_runs ?S ?n (ix_basename ix)" unfolding paths(1)
  proof (rule termTable_lane, rule ballI)
    fix e assume "e \<in> set (concat paths)"
    then obtain es where "es \<in> set paths" "e \<in> set es" by auto
    then obtain node where node: "node \<in> set nodes" "path_entry si ?ids node = Ok es"
      using map_outcome_members [OF paths(2)] by metis
    then show "fst e < ?S \<and> snd e < ?n"
      using \<open>e \<in> set es\<close> sid_nth [of si] index_in_nth [of "gn_id node" ?ids]
      by (auto simp: path_entry_def idOf_known split: option.splits if_splits)
  qed
  obtain pairs where pairs: "ix_sourceHashes ix = sort_key pair_key (remdups (concat pairs))"
    "map_outcome (optional_pair si gn_path gn_contentHash) nodes = Ok pairs" using c by blast
  have hashes: "list_all (\<lambda>p. fst p < ?S \<and> snd p < ?S) (ix_sourceHashes ix)" unfolding pairs(1) list_all_iff
  proof
    fix e assume "e \<in> set (sort_key pair_key (remdups (concat pairs)))"
    then obtain es where "es \<in> set pairs" "e \<in> set es" by auto
    then obtain node where "node \<in> set nodes" "optional_pair si gn_path gn_contentHash node = Ok es"
      using map_outcome_members [OF pairs(2)] by metis
    then show "fst e < ?S \<and> snd e < ?S"
      using \<open>e \<in> set es\<close> sid_nth [of si] by (auto simp: optional_pair_def idOf_known split: option.splits if_splits)
  qed
  have lanes: "lane_from_runs ?S ?n (ix_lexicon ix)" "lane_from_runs ?S ?n (ix_coarse ix)"
    using c lane_table_ok by blast+
  have cycles: "list_all (\<lambda>x. x < ?n) (ix_cycles ix)"
    using c cycle_bound [of _ ?ids] by (auto simp: list_all_iff)
  have strings: "ix_strings ix = si" and src: "ix_sources ix = map (\<lambda>e. index_in ?ids (ge_from e)) ?edges"
    and tgt: "ix_targets ix = map (\<lambda>e. index_in ?ids (ge_to e)) ?edges" using c by blast+
  have provenance: "list_all (provenance_row_ok ?S) (ix_provenance ix)" using ew by (simp add: edges_written_def)
  have bounds: "list_all (\<lambda>x. x < ?n) (ix_sources ix)" "list_all (\<lambda>x. x < ?n) (ix_targets ix)"
    unfolding src tgt by (rule inside, simp add: edge_coded_def)+
  show ?thesis
    unfolding parts_ok_def Let_def n strings
    using sealed(1) limits(1) limits(2) m node edge metadata bounds sources_sorted exact_lane exact_count basename
      lanes provenance cycles hashes
    by (simp add: src tgt ordered_edges_def)
qed

end
