(* ===== verification/Index_Open.thy ===== *)
theory Index_Open
  imports Index_Sealed
begin

text \<open>
  What the writer returns, the reader opens: \<open>encodeContextIndex\<close> followed by \<open>openContextIndex\<close>.  The
  writer does not look at the size of what it writes, so the file is assumed to be below the section and
  count limits of the format; everything else the reader checks is shown to hold.
\<close>

subsection \<open>Hexadecimal text\<close>

definition canonical_hash :: "string \<Rightarrow> bool" where
  "canonical_hash s \<longleftrightarrow> length s = 64 \<and> list_all (\<lambda>c. c \<in> set HEX) s"

lemma hex_char:
  assumes "c \<in> set HEX"
  obtains k where "k < 16" "hex_digit (of_char c) = Some k" "HEX ! k = c"
proof -
  have "list_all (\<lambda>c. \<exists>k < 16. hex_digit (of_char c) = Some k \<and> HEX ! k = c) HEX"
    by (simp add: HEX_def hex_digit_def of_char_def)
  with assms that show thesis by (auto simp: list_all_iff)
qed

lemma hex_pair_text:
  assumes "c \<in> set HEX" "d \<in> set HEX"
  shows "[HEX ! (unat (hex_pair (of_char c) (of_char d)) div 16), HEX ! (unat (hex_pair (of_char c) (of_char d)) mod 16)] = [c, d]"
proof -
  obtain x y where xy: "x < 16" "hex_digit (of_char c) = Some x" "HEX ! x = c"
    "y < 16" "hex_digit (of_char d) = Some y" "HEX ! y = d"
    using hex_char [OF assms(1)] hex_char [OF assms(2)] by metis
  then have "hex_pair (of_char c) (of_char d) = word_of_nat (x * 16 + y)"
    by (simp add: hex_pair_def Let_def)
  moreover have "unat (word_of_nat (x * 16 + y) :: 8 word) = x * 16 + y"
    using xy(1,4) by (simp add: unat_of_nat del: of_nat_add of_nat_mult)
  ultimately show ?thesis using xy by simp
qed

lemma concat_pairs: "2 * n \<le> length s \<Longrightarrow> concat (map (\<lambda>i. [s ! (i * 2), s ! (i * 2 + 1)]) [0..<n]) = take (2 * n) s"
proof (induction n)
  case (Suc n)
  then have "take (2 * Suc n) s = take (2 * n) s @ [s ! (2 * n), s ! (2 * n + 1)]"
    by (simp add: take_Suc_conv_app_nth)
  with Suc show ?case by (simp add: mult.commute)
qed simp

lemma canonical_hash_text:
  assumes "canonical_hash s"
  shows "toHex (hexToBytes (units_of s) 32) = s"
proof -
  have len: "length s = 64" and all: "\<And>i. i < 64 \<Longrightarrow> s ! i \<in> set HEX"
    using assms by (auto simp: canonical_hash_def list_all_length)
  have "hexToBytes (units_of s) 32 = map (\<lambda>i. hex_pair (of_char (s ! (i * 2))) (of_char (s ! (i * 2 + 1)))) [0..<32]"
    by (rule nth_equalityI) (auto simp: hexToBytes_def units_of_def len)
  then have "toHex (hexToBytes (units_of s) 32) = concat (map (\<lambda>i. [s ! (i * 2), s ! (i * 2 + 1)]) [0..<32])"
    unfolding toHex_def map_map o_def
    by (intro arg_cong [where f = concat] map_cong) (auto simp: hex_pair_text all)
  also have "\<dots> = s" using concat_pairs [of 32 s] len by simp
  finally show ?thesis .
qed

subsection \<open>Sizes\<close>

lemma required_kind: "k \<in> set CONTEXT_INDEX_REQUIRED_SECTIONS \<Longrightarrow> \<exists>kind. k = CONTEXT_INDEX_SECTION kind"
proof -
  have "list_all (\<lambda>k. \<exists>kind. k = CONTEXT_INDEX_SECTION kind) (map CONTEXT_INDEX_SECTION SECTION_ORDER)"
    by (auto simp: list_all_iff)
  moreover have "set CONTEXT_INDEX_REQUIRED_SECTIONS = set (map CONTEXT_INDEX_SECTION SECTION_ORDER)"
    by code_simp
  ultimately show "k \<in> set CONTEXT_INDEX_REQUIRED_SECTIONS \<Longrightarrow> \<exists>kind. k = CONTEXT_INDEX_SECTION kind"
    by (auto simp: list_all_iff)
qed

lemma assembled_length:
  assumes "assemble (payload_map ix strings) ac = Ok bs"
  shows "744 + length (concat (map (payload_of (payload_map ix strings)) CONTEXT_INDEX_REQUIRED_SECTIONS)) = length bs"
    "length (fst (section_payload ix strings kind)) \<le> length bs"
proof -
  let ?P = "payload_map ix strings"
  have "set CONTEXT_INDEX_REQUIRED_SECTIONS \<subseteq> dom ?P"
    by (auto simp: payload_map_at dest!: required_kind)
  from assemble_eq [OF this, of ac] assms
  have bs: "bs = encodeContextIndexHeader (assembled_header ac) @
      concat (map encodeSectionDescriptor (map (laid_out ?P 744) [0..<20])) @
      concat (map (payload_of ?P) CONTEXT_INDEX_REQUIRED_SECTIONS)" by simp
  then show total: "744 + length (concat (map (payload_of ?P) CONTEXT_INDEX_REQUIRED_SECTIONS)) = length bs"
    using length_concat_same [of "map (laid_out ?P 744) [0..<20]" encodeSectionDescriptor 32]
    by (simp del: map_map)
  let ?k = "CONTEXT_INDEX_SECTION kind"
  have "?k \<in> set CONTEXT_INDEX_REQUIRED_SECTIONS" using section_number section_count nth_mem by metis
  then have "length (payload_of ?P ?k) \<le> length (concat (map (payload_of ?P) CONTEXT_INDEX_REQUIRED_SECTIONS))"
    by (simp add: length_concat member_le_sum_list)
  then show "length (fst (section_payload ix strings kind)) \<le> length bs"
    using total by (simp add: payload_of_def payload_map_at split: prod.splits)
qed

lemma string_count_bound: "length table * 4 \<le> length (string_section table)"
  by (simp add: length_string_section)

lemma lane_sizes:
  assumes "lane_from_runs S n lane"
  shows "tt_termCount lane * 4 \<le> length (tt_table lane)" "tt_postingCount lane * 4 \<le> length (tt_postings lane)"
  using assms by (auto simp: lane_from_runs_def runs_table_def Let_def)

lemma section_counts:
  assumes "parts_ok ix" "strings = string_section (si_table (ix_strings ix))"
  shows "snd (section_payload ix strings kind) * 4 \<le> length (fst (section_payload ix strings kind))"
proof -
  let ?S = "length (si_table (ix_strings ix))" and ?n = "length (ix_nodeRows ix)"
  note ok = assms(1) [unfolded parts_ok_def Let_def]
  have sealed: "si_sealed (ix_strings ix)" using ok by blast
  have nodes: "length (concat (ix_nodeRows ix)) = ?n * 40"
    using length_concat_rows [of "ix_nodeRows ix" id 40] ok by (auto simp: in_set_conv_nth node_row_ok_def)
  have edges: "length (concat (ix_edgeRows ix)) = length (ix_edgeRows ix) * 16"
    using length_concat_rows [of "ix_edgeRows ix" id 16] ok by (auto simp: list_all_iff edge_row_ok_def)
  have tables: "length (metadataTable (ix_metadata ix)) = length (ix_metadata ix) * 16"
    "length (provenanceTable (ix_provenance ix)) = length (ix_provenance ix) * 16"
    "length (pairTable (ix_sourceHashes ix)) = length (ix_sourceHashes ix) * 8"
    unfolding metadataTable_def provenanceTable_def pairTable_def by (rule length_concat_rows, simp)+
  have lanes: "lane_from_runs ?S ?n (ix_exact ix)" "lane_from_runs ?S ?n (ix_basename ix)"
    "lane_from_runs ?S ?n (ix_lexicon ix)" "lane_from_runs ?S ?n (ix_coarse ix)" using ok by blast+
  show ?thesis
    using nodes edges tables lanes [THEN lane_sizes(1)] lanes [THEN lane_sizes(2)] sealed assms(2)
      string_count_bound [of "si_table (ix_strings ix)"]
    by (cases kind) (simp_all add: Let_def interner_size_def)
qed

subsection \<open>Opening\<close>

text \<open>The geometry of an index whose sections are given.\<close>

definition geometry_at :: "bytes \<Rightarrow> index_header \<Rightarrow> (section_kind \<Rightarrow> section_descriptor) \<Rightarrow> index_geometry" where
  "geometry_at bs h D =
     \<lparr>ig_bytes = bs, ig_nodeCount = ih_nodeCount h, ig_edgeCount = ih_edgeCount h,
      ig_stringCount = sd_count (D STRING_TABLE), ig_stringIndexBase = sd_offset (D STRING_TABLE),
      ig_stringBlobBase = sd_offset (D STRING_TABLE) + sd_count (D STRING_TABLE) * 4,
      ig_nodeBase = sd_offset (D NODE_TABLE), ig_metadataBase = sd_offset (D NODE_METADATA),
      ig_metadataCount = sd_count (D NODE_METADATA), ig_edgeBase = sd_offset (D EDGE_TABLE),
      ig_outOffsetBase = sd_offset (D OUT_CSR_OFFSETS), ig_outEdgeBase = sd_offset (D OUT_CSR_EDGES),
      ig_inOffsetBase = sd_offset (D IN_CSR_OFFSETS), ig_inEdgeBase = sd_offset (D IN_CSR_EDGES),
      ig_provenanceBase = sd_offset (D PROVENANCE_TABLE), ig_provenanceCount = sd_count (D PROVENANCE_TABLE),
      ig_sourceHashBase = sd_offset (D SOURCE_HASH_TABLE), ig_sourceHashCount = sd_count (D SOURCE_HASH_TABLE),
      ig_exact = \<lparr>il_terms = D EXACT_TERM_TABLE, il_postings = D EXACT_POSTINGS\<rparr>,
      ig_basename = \<lparr>il_terms = D BASENAME_TABLE, il_postings = D BASENAME_POSTINGS\<rparr>,
      ig_lexicon = \<lparr>il_terms = D LEXICON_TABLE, il_postings = D LEXICON_POSTINGS\<rparr>,
      ig_coarse = \<lparr>il_terms = D COARSE_TERM_TABLE, il_postings = D COARSE_POSTINGS\<rparr>\<rparr>"

lemma geometry_read:
  "(\<And>kind. sectionOf byKind kind = Ok (D kind)) \<Longrightarrow> readContextIndexGeometry bs h byKind = Ok (geometry_at bs h D)"
  by (simp add: readContextIndexGeometry_def laneSections_def geometry_at_def)

text \<open>A file that holds the parts, and its sections.\<close>

definition holds_parts :: "bytes \<Rightarrow> index_parts \<Rightarrow> (section_kind \<Rightarrow> section_descriptor) \<Rightarrow> bool" where
  "holds_parts bs ix D \<longleftrightarrow>
     (let strings = string_section (si_table (ix_strings ix))
      in \<forall>kind. section_at bs (D kind) (fst (section_payload ix strings kind)) (snd (section_payload ix strings kind)))"

lemma parts_open:
  assumes ok: "parts_ok ix" "list_all valid_units (si_table (ix_strings ix))"
    and bs: "assemble (payload_map ix (string_section (si_table (ix_strings ix)))) ac = Ok bs" "length bs \<le> 2 ^ 29"
    and ac: "ac_nodeCount ac = length (ix_nodeRows ix)" "ac_edgeCount ac = length (ix_edgeRows ix)"
      "ac_termCount ac = tt_termCount (ix_exact ix)" "ac_provenanceCount ac = length (ix_provenance ix)"
      "ac_schemaRevision ac < 2 ^ 16" "length (ac_snapshotHash ac) = 32" "length (ac_configHash ac) = 32"
    and expected: "oo_expectedSnapshotHash options \<in> {None, Some (toHex (ac_snapshotHash ac))}"
      "oo_expectedConfigHash options \<in> {None, Some (toHex (ac_configHash ac))}"
  shows "\<exists>D. holds_parts bs ix D \<and>
    openContextIndex bs options =
      Ok \<lparr>br_geometry = geometry_at bs (assembled_header ac) D, br_snapshotHash = toHex (ac_snapshotHash ac),
          br_configHash = toHex (ac_configHash ac), br_termCount = ac_termCount ac\<rparr>"
proof -
  let ?strings = "string_section (si_table (ix_strings ix))" and ?h = "assembled_header ac"
  let ?P = "payload_map ix ?strings"
  note part = ok(1) [unfolded parts_ok_def Let_def]
  have size: "length (fst (section_payload ix ?strings kind)) \<le> 2 ^ 29" for kind
    using assembled_length(2) [OF bs(1), of kind] bs(2) by simp
  have big: "length (fst (section_payload ix ?strings kind)) \<le> 2 ^ 32" for kind using size [of kind] by simp
  have n: "snd (section_payload ix ?strings kind) \<le> 2 ^ 27" for kind
    using section_counts [OF ok(1) refl, of kind] size [of kind] by simp
  have kinds: "\<exists>kind. k = CONTEXT_INDEX_SECTION kind" if "k \<in> set CONTEXT_INDEX_REQUIRED_SECTIONS" for k
    using that by (rule required_kind)
  have fits: "payloads_fit ?P" unfolding payloads_fit_def list_all_iff
    using assembled_length(1) [OF bs(1)] bs(2) big n
    by (auto dest!: kinds simp: payload_map_at case_prod_beta maxSectionBytes_def maxSectionCountValue_def maxFileBytes_def)
  have header: "header_fits ?h"
    using part ac by (simp add: header_fits_def assembled_header_def limit_defs section_count)
  obtain bs' where a: "assemble ?P ac = Ok bs'" "readContextIndexHeader bs' = Ok ?h"
    "readSectionTable bs' ?h = Ok (assembled_descriptors ?P)"
    "validateSectionLayout bs' (assembled_descriptors ?P) = Ok (section_table_of (assembled_descriptors ?P))"
    using assemble_accepted [OF fits header] by blast
  then have same: "bs' = bs" using bs(1) by simp
  let ?T = "section_table_of (assembled_descriptors ?P)"
  obtain D where D: "\<And>kind. sectionOf ?T kind = Ok (D kind)"
    "\<And>kind. section_at bs (D kind) (fst (section_payload ix ?strings kind)) (snd (section_payload ix ?strings kind))"
    using assembled_section [OF fits header bs(1)] by metis
  have payloads: "validateContextIndexPayloads bs ?h ?T = Ok ()"
    by (rule payloads_accept [OF ok refl D])
      (use n big ac in \<open>simp_all add: assembled_header_def\<close>)
  have "openContextIndex bs options =
      Ok \<lparr>br_geometry = geometry_at bs ?h D, br_snapshotHash = toHex (ac_snapshotHash ac),
          br_configHash = toHex (ac_configHash ac), br_termCount = ac_termCount ac\<rparr>"
    using a [unfolded same] payloads expected geometry_read [of ?T D bs ?h] D(1)
    by (auto simp: openContextIndex_def Let_def assembled_header_def)
  moreover have "holds_parts bs ix D" using D(2) by (simp add: holds_parts_def Let_def)
  ultimately show ?thesis by blast
qed

subsection \<open>Writing and opening\<close>

definition sorted_nodes :: "write_input \<Rightarrow> graph_node list" where
  "sorted_nodes input = sort_key gn_id (gs_nodes (wi_snapshot input))"

definition lexical_of :: "write_input \<Rightarrow> lexical_build option" where
  "lexical_of input = map_option (\<lambda>build. build (sorted_nodes input)) (wi_lexicon input)"

text \<open>
  What the code takes for granted of its input: strings are sequences of 16 bit units, a metadata object
  has each key once, the revision fits its field and the hashes are the 32 byte digests of the compiler.
\<close>

definition write_input_ok :: "write_input \<Rightarrow> string \<Rightarrow> bool" where
  "write_input_ok input hash \<longleftrightarrow>
     list_all valid_units (written_strings input (sorted_nodes input) (lexical_of input)) \<and>
     metadata_objects (gs_nodes (wi_snapshot input)) \<and> wi_schemaRevision input < 2 ^ 16 \<and>
     length (wi_configHash input) = 32 \<and> gs_snapshotHash (wi_snapshot input) = units_of hash \<and> canonical_hash hash"

lemma index_parts_facts:
  assumes "index_parts_of input = Ok ix"
  obtains si where "distinct (map gn_id (sorted_nodes input))" "length (gs_nodes (wi_snapshot input)) \<le> maxNodeCount"
    "length (gs_edges (wi_snapshot input)) \<le> maxEdgeCount"
    "sealed_strings input (sorted_nodes input) (lexical_of input) = Ok si"
    "collected input (sorted_nodes input) (lexical_of input) si ix"
  using assms unique_ids [of "sorted_nodes input"] collect_parts_pure [of input "sorted_nodes input" "lexical_of input"]
  by (auto simp: index_parts_of_def Let_def refuse_if_def sorted_nodes_def [symmetric] lexical_of_def [symmetric]
      not_less split: if_splits)

lemma written_index_opens:
  assumes "encodeContextIndex input = Ok bs" "length bs \<le> 2 ^ 29" "write_input_ok input hash"
    "oo_expectedSnapshotHash options \<in> {None, Some hash}"
    "oo_expectedConfigHash options \<in> {None, Some (toHex (wi_configHash input))}"
  obtains ix si D where "index_parts_of input = Ok ix" "parts_ok ix" "holds_parts bs ix D"
    "collected input (sorted_nodes input) (lexical_of input) si ix"
    "sealed_strings input (sorted_nodes input) (lexical_of input) = Ok si"
    "openContextIndex bs options =
       Ok \<lparr>br_geometry = geometry_at bs (assembled_header (parts_counts input ix)) D, br_snapshotHash = hash,
           br_configHash = toHex (wi_configHash input), br_termCount = tt_termCount (ix_exact ix)\<rparr>"
proof -
  obtain ix strings where e: "index_parts_of input = Ok ix" "intern_encode (ix_strings ix) = Ok strings"
    "assemble (payload_map ix strings) (parts_counts input ix) = Ok bs"
    using assms(1) by (auto simp: encodeContextIndex_def)
  from index_parts_facts [OF e(1)] obtain si where si: "distinct (map gn_id (sorted_nodes input))"
    "length (gs_nodes (wi_snapshot input)) \<le> maxNodeCount" "length (gs_edges (wi_snapshot input)) \<le> maxEdgeCount"
    "sealed_strings input (sorted_nodes input) (lexical_of input) = Ok si"
    "collected input (sorted_nodes input) (lexical_of input) si ix" by blast
  note f = sealed_strings_facts [OF si(4)]
  have same: "ix_strings ix = si" using si(5) by (simp add: collected_def Let_def)
  have strings: "strings = string_section (si_table si)"
    using e(2) f(5) by (simp add: same intern_encode_def string_section_def Let_def)
  have "interner_size si = length (si_table si)" using f(5) by (simp add: interner_size_def)
  then have "length (si_table si) * 4 \<le> 2 ^ 29"
    using assembled_length(2) [OF e(3), of STRING_TABLE] string_count_bound [of "si_table si"] assms(2)
    by (simp add: strings)
  moreover have "metadata_objects (sorted_nodes input)"
    using assms(3) by (simp add: write_input_ok_def metadata_objects_def sorted_nodes_def list_all_iff)
  ultimately have ok: "parts_ok ix"
    by (intro collected_ok [OF si(5) f(5,1,2)]) (use si(2,3) in \<open>simp_all add: sorted_nodes_def\<close>)
  have valid: "list_all valid_units (si_table (ix_strings ix))"
    using assms(3) f(8) by (simp add: same write_input_ok_def list_all_iff)
  have hash: "toHex (hexToBytes (gs_snapshotHash (wi_snapshot input)) 32) = hash"
    using assms(3) canonical_hash_text by (simp add: write_input_ok_def)
  have len: "length (hexToBytes v 32) = 32" for v by (simp add: hexToBytes_def)
  obtain D where D: "holds_parts bs ix D"
    "openContextIndex bs options =
      Ok \<lparr>br_geometry = geometry_at bs (assembled_header (parts_counts input ix)) D, br_snapshotHash = hash,
          br_configHash = toHex (wi_configHash input), br_termCount = tt_termCount (ix_exact ix)\<rparr>"
    using parts_open [OF ok valid, of "parts_counts input ix" bs options] e(3) assms(2-5) hash len
    by (auto simp: same strings parts_counts_def write_input_ok_def)
  show thesis by (rule that [OF e(1) ok D(1) si(5,4) D(2)])
qed

text \<open>C9: a file the writer returns, below the size limit of the format, is opened by the reader under
  the snapshot and configuration hashes it was written for, and announces the counts of the snapshot.\<close>

theorem encoded_index_opens:
  assumes "encodeContextIndex input = Ok bs" "length bs \<le> 2 ^ 29" "write_input_ok input hash"
  shows "case openContextIndex bs \<lparr>oo_expectedSnapshotHash = Some hash,
                                   oo_expectedConfigHash = Some (toHex (wi_configHash input))\<rparr> of
    Ok r \<Rightarrow> br_snapshotHash r = hash \<and> br_configHash r = toHex (wi_configHash input) \<and>
            ig_nodeCount (br_geometry r) = length (gs_nodes (wi_snapshot input)) \<and>
            ig_edgeCount (br_geometry r) = length (gs_edges (wi_snapshot input))
  | _ \<Rightarrow> False"
proof -
  let ?options = "\<lparr>oo_expectedSnapshotHash = Some hash, oo_expectedConfigHash = Some (toHex (wi_configHash input))\<rparr>"
  obtain ix si D where ix: "collected input (sorted_nodes input) (lexical_of input) si ix" "parts_ok ix"
    "openContextIndex bs ?options =
       Ok \<lparr>br_geometry = geometry_at bs (assembled_header (parts_counts input ix)) D, br_snapshotHash = hash,
           br_configHash = toHex (wi_configHash input), br_termCount = tt_termCount (ix_exact ix)\<rparr>"
    by (rule written_index_opens [OF assms, of ?options]) simp_all
  have "length (ix_nodeRows ix) = length (gs_nodes (wi_snapshot input))"
    using ix(1) by (simp add: collected_def Let_def sorted_nodes_def)
  moreover have "length (ix_edgeRows ix) = length (gs_edges (wi_snapshot input))"
    using ix(1) by (auto simp: collected_def Let_def edges_written_def ordered_edges_def dest: list_all2_lengthD)
  ultimately show ?thesis
    by (simp add: ix(3) geometry_at_def assembled_header_def parts_counts_def)
qed

text \<open>A snapshot of two files, one with a path and metadata, and an edge between them.\<close>

definition sample_node :: "units \<Rightarrow> units option \<Rightarrow> (units \<times> metadata_value) list \<Rightarrow> graph_node" where
  "sample_node name path metadata =
     \<lparr>gn_id = name, gn_kind = Some K_file, gn_label = [98], gn_path = path, gn_line = None, gn_column = None,
      gn_contentHash = None, gn_trust = Finite (1 / 2), gn_freshness = Some F_fresh, gn_risk = Some R_low,
      gn_tokenCost = 12, gn_metadata = metadata\<rparr>"

definition sample_a :: graph_node where
  "sample_a = sample_node [97] (Some [97, 98]) [([98], MV_array [[97], [98]])]"

definition sample_b :: graph_node where
  "sample_b = sample_node [98] None []"

definition sample_edge :: graph_edge where
  "sample_edge =
     \<lparr>ge_id = [101], ge_from = [97], ge_to = [98], ge_type = Some E_imports, ge_confidence = Some C_exact,
      ge_provenance = \<lparr>gp_path = [97, 98], gp_line = Some 3, gp_hash = [98], gp_extractor = [98]\<rparr>\<rparr>"

definition sample_hash :: string where
  "sample_hash = replicate 64 (CHR ''a'')"

definition sample_input :: write_input where
  "sample_input =
     \<lparr>wi_snapshot = \<lparr>gs_snapshotHash = units_of sample_hash, gs_nodes = [sample_b, sample_a],
                     gs_edges = [sample_edge], gs_cycles = [[[97]]]\<rparr>,
      wi_configHash = replicate 32 7, wi_schemaRevision = 1, wi_lintErrors = 0, wi_protectedNodeIds = [],
      wi_invalidatedNodeIds = [], wi_lexicon = None\<rparr>"

definition sample_strings :: string_interner where
  "sample_strings = \<lparr>si_values = [[97], [98], [97, 98]], si_table = [[97], [97, 98], [98]], si_sealed = True\<rparr>"

lemmas sample_defs = sample_input_def sample_a_def sample_b_def sample_node_def sample_edge_def

lemmas code_list_defs = code_of_def CONTEXT_GRAPH_NODE_KINDS_def FRESHNESS_CODES_def RISK_CODES_def
  CONTEXT_GRAPH_EDGE_TYPES_def CONFIDENCE_CODES_def

lemmas cell_defs = CONTEXT_INDEX_METADATA_MAX_ARRAY_LENGTH_def enumerate_eq_zip metadata_cell_of_def

lemma sample_sorted: "sort_key gn_id [sample_b, sample_a] = [sample_a, sample_b]"
  by (simp add: sample_defs)

lemma sample_unique: "each_row unique_id [sample_a, sample_b] [] = Ok [[97], [98]]"
  by (simp add: unique_id_def refuse_if_def sample_defs)

lemma sample_sealed: "sealed_strings sample_input [sample_a, sample_b] None = Ok sample_strings"
  by (simp add: sealed_strings_def intern_node_def intern_edge_def intern_entry_def intern_add_def new_interner_def
      intern_option_def intern_seal_def refuse_if_def sample_defs sample_strings_def code_list_defs cell_defs
      writerRelativePath_def letter_unit_def)

lemma payload_total:
  "length (concat (map (payload_of (payload_map ix s)) CONTEXT_INDEX_REQUIRED_SECTIONS)) =
     sum_list (map (\<lambda>kind. length (fst (section_payload ix s kind))) SECTION_ORDER)"
proof -
  have kinds: "CONTEXT_INDEX_REQUIRED_SECTIONS = map CONTEXT_INDEX_SECTION SECTION_ORDER" by code_simp
  have "concat (map (payload_of (payload_map ix s)) CONTEXT_INDEX_REQUIRED_SECTIONS) =
      concat (map (\<lambda>kind. payload_of (payload_map ix s) (CONTEXT_INDEX_SECTION kind)) SECTION_ORDER)"
    unfolding kinds map_map o_def ..
  then show ?thesis by (simp add: length_concat payload_of_def payload_map_at case_prod_beta o_def)
qed

lemma sample_collected:
  "\<exists>ix. collect_parts sample_input [sample_a, sample_b] None sample_strings = Ok ix \<and>
     ix_strings ix = sample_strings \<and>
     length (concat (map (payload_of (payload_map ix s)) CONTEXT_INDEX_REQUIRED_SECTIONS)) \<le> 1000 + length s"
  unfolding payload_total SECTION_ORDER_def
  by (simp add: collect_parts_def Let_def edge_step_def node_step_def provenance_row_of_def intern_idOf_def idOrSentinel_def
      metadata_entry_rows_def path_entry_def optional_pair_def lane_table_def ordered_edges_def provenanceIdFor_def
      sample_defs sample_strings_def index_in_def code_list_defs cell_defs metadata_order_def
      EMPTY_CONTEXT_INDEX_LANE_def termTable_def group_entry_def runs_table_def metadataTable_def provenanceTable_def
      pairTable_def node_row_cells(14) edge_row_cells(6) in_order_def)

lemma sample_ok: "write_input_ok sample_input sample_hash"
  by (simp add: write_input_ok_def written_strings_def sorted_nodes_def lexical_of_def node_strings_def edge_strings_def
      option_strings_def entry_strings_def cells_of_def cell_defs valid_units_def sample_defs metadata_objects_def
      canonical_hash_def sample_hash_def HEX_def list_all_iff)

lemma sample_encodes: "\<exists>bs. encodeContextIndex sample_input = Ok bs \<and> length bs \<le> 2 ^ 29"
proof -
  let ?s = "string_section (si_table sample_strings)"
  obtain ix where ix: "collect_parts sample_input [sample_a, sample_b] None sample_strings = Ok ix"
    "ix_strings ix = sample_strings"
    "length (concat (map (payload_of (payload_map ix ?s)) CONTEXT_INDEX_REQUIRED_SECTIONS)) \<le> 1000 + length ?s"
    using sample_collected by blast
  have "index_parts_of sample_input = Ok ix"
    using ix(1) sample_sealed unfolding index_parts_of_def Let_def
    by (simp add: refuse_if_def sample_input_def sample_sorted sample_unique maxNodeCount_def maxEdgeCount_def
        del: each_row.simps sort_key_simps)
  then have encode: "encodeContextIndex sample_input = assemble (payload_map ix ?s) (parts_counts sample_input ix)"
    by (simp add: encodeContextIndex_def ix(2) intern_encode_def sample_strings_def string_section_def Let_def)
  have "set CONTEXT_INDEX_REQUIRED_SECTIONS \<subseteq> dom (payload_map ix ?s)"
    by (auto simp: payload_map_at dest!: required_kind)
  from assemble_eq [OF this, of "parts_counts sample_input ix"]
  obtain bs where bs: "assemble (payload_map ix ?s) (parts_counts sample_input ix) = Ok bs" by blast
  have "length ?s = 12 + 4" by (simp add: length_string_section sample_strings_def utf8_encode_def high_surrogate_def
        low_surrogate_def utf8_scalar_def)
  then have "length bs \<le> 2 ^ 29" using assembled_length(1) [OF bs] ix(3) by simp
  with bs encode show ?thesis by simp
qed

theorem encoded_index_opens_witness:
  "\<exists>bs. encodeContextIndex sample_input = Ok bs \<and>
    (case openContextIndex bs \<lparr>oo_expectedSnapshotHash = Some sample_hash,
                               oo_expectedConfigHash = Some (toHex (wi_configHash sample_input))\<rparr> of
       Ok r \<Rightarrow> br_snapshotHash r = sample_hash \<and> br_configHash r = toHex (wi_configHash sample_input) \<and>
               ig_nodeCount (br_geometry r) = length (gs_nodes (wi_snapshot sample_input)) \<and>
               ig_edgeCount (br_geometry r) = length (gs_edges (wi_snapshot sample_input))
     | _ \<Rightarrow> False)"
proof -
  obtain bs where bs: "encodeContextIndex sample_input = Ok bs" "length bs \<le> 2 ^ 29" using sample_encodes by blast
  from encoded_index_opens [OF bs sample_ok] bs(1) show ?thesis by blast
qed

end
