(* ===== verification/Index_Reader.thy ===== *)
theory Index_Reader
  imports Index_Validate Kernel_Types
begin

text \<open>
  Reading an opened index: the string table (\<open>reader-layout.ts\<close>), the edge cursors and the edge
  source index (\<open>reader-cursor.ts\<close>), the term dictionary and the posting merge (\<open>reader-lookup.ts\<close>),
  the name test (\<open>reader-names.ts\<close>) and the node fields of \<open>reader.ts\<close>.
\<close>

subsection \<open>Strings and binary search\<close>

definition stringStart :: "index_geometry \<Rightarrow> nat \<Rightarrow> nat outcome" where
  "stringStart g i = (if i = 0 then Ok 0 else getUint32 (ig_bytes g) (ig_stringIndexBase g + (i - 1) * 4))"

definition stringEnd :: "index_geometry \<Rightarrow> nat \<Rightarrow> nat outcome" where
  "stringEnd g i = getUint32 (ig_bytes g) (ig_stringIndexBase g + i * 4)"

definition stringAt :: "index_geometry \<Rightarrow> nat \<Rightarrow> nat list outcome" where
  "stringAt g i =
     bind_outcome (stringEnd g i) (\<lambda>ending.
     bind_outcome (stringStart g i) (\<lambda>start.
       utf8_decode (sub_bytes (ig_stringBlobBase g + start) (ending - start) (ig_bytes g))))"

text \<open>The loop two of the three searches share; \<open>low\<close> and \<open>high\<close> as in the source, \<open>high\<close> may be \<open>-1\<close>.\<close>

function search_loop ::
  "(nat \<Rightarrow> 'k outcome) \<Rightarrow> ('k \<Rightarrow> 'k \<Rightarrow> bool) \<Rightarrow> 'k \<Rightarrow> int \<Rightarrow> int \<Rightarrow> nat option outcome" where
  "search_loop probe lt wanted low high =
     (if low \<le> high then
        let mid = (low + high) div 2
        in bind_outcome (probe (nat mid)) (\<lambda>found.
             if found = wanted then Ok (Some (nat mid))
             else if lt found wanted then search_loop probe lt wanted (mid + 1) high
             else search_loop probe lt wanted low (mid - 1))
      else Ok None)"
  by auto
termination
  by (relation "measure (\<lambda>(_, _, _, low, high). nat (high + 1 - low))") auto

declare search_loop.simps [simp del]

definition stringIdOf :: "index_geometry \<Rightarrow> nat list \<Rightarrow> int outcome" where
  "stringIdOf g wanted =
     bind_outcome (search_loop (stringAt g) code_unit_less wanted 0 (int (ig_stringCount g) - 1)) (\<lambda>found.
       Ok (case found of None \<Rightarrow> - 1 | Some i \<Rightarrow> int i))"

subsection \<open>Cursors\<close>

record edge_cursor =
  cu_csrEdgeBase :: nat
  cu_end :: nat
  cu_mask :: "32 word"
  cu_edgeSource :: "nat list option"
  cu_position :: nat
  cu_visited :: nat
  cu_edge :: int
  cu_target :: int
  cu_type :: int
  cu_confidence :: int
  cu_flags :: nat
  cu_provenance :: int

definition cursor_target :: "index_geometry \<Rightarrow> edge_cursor \<Rightarrow> nat \<Rightarrow> nat \<Rightarrow> nat outcome" where
  "cursor_target g c edge pos =
     (case cu_edgeSource c of
        None \<Rightarrow> getUint32 (ig_bytes g) (pos + EDGE_TARGET_AT)
      | Some sources \<Rightarrow> Ok (if edge < length sources then sources ! edge else 0))"

definition cursor_load :: "index_geometry \<Rightarrow> nat \<Rightarrow> edge_cursor \<Rightarrow> edge_cursor outcome" where
  "cursor_load g edge c =
     (let pos = ig_edgeBase g + edge * CONTEXT_INDEX_EDGE_ROW_BYTES; view = ig_bytes g
      in bind_outcome (cursor_target g c edge pos) (\<lambda>target.
         bind_outcome (getUint8 view (pos + EDGE_TYPE_AT)) (\<lambda>type.
         bind_outcome (getUint8 view (pos + EDGE_CONFIDENCE_AT)) (\<lambda>confidence.
         bind_outcome (getUint16 view (pos + EDGE_FLAGS_AT)) (\<lambda>edgeFlags.
         bind_outcome (getUint32 view (pos + EDGE_PROVENANCE_AT)) (\<lambda>provenance.
           Ok (c\<lparr>cu_edge := int edge, cu_target := int target, cu_type := int type,
                 cu_confidence := int confidence, cu_flags := edgeFlags,
                 cu_provenance := int provenance\<rparr>)))))))"

function next_edge :: "index_geometry \<Rightarrow> edge_cursor \<Rightarrow> (edge_cursor \<times> bool) outcome" where
  "next_edge g c =
     (if cu_position c < cu_end c then
        let slot = cu_position c; c1 = c\<lparr>cu_position := slot + 1, cu_visited := cu_visited c + 1\<rparr>
        in bind_outcome (getUint32 (ig_bytes g) (cu_csrEdgeBase c + slot * 4)) (\<lambda>edge.
           bind_outcome (getUint16 (ig_bytes g)
               (ig_edgeBase g + edge * CONTEXT_INDEX_EDGE_ROW_BYTES + EDGE_PROFILE_MASK_AT)) (\<lambda>profile.
             if word_of_nat profile AND cu_mask c = 0 then next_edge g c1
             else bind_outcome (cursor_load g edge c1) (\<lambda>c2. Ok (c2, True))))
      else Ok (c\<lparr>cu_edge := - 1, cu_target := - 1, cu_type := - 1, cu_confidence := - 1\<rparr>, False))"
  by auto
termination
  by (relation "measure (\<lambda>(g, c). cu_end c - cu_position c)") auto

declare next_edge.simps [simp del]

definition open_cursor ::
  "index_geometry \<Rightarrow> nat \<Rightarrow> nat \<Rightarrow> nat list option \<Rightarrow> nat \<Rightarrow> 32 word \<Rightarrow> edge_cursor outcome" where
  "open_cursor g offsetBase csrEdgeBase edgeSource node profileMask =
     bind_outcome (getUint32 (ig_bytes g) (offsetBase + node * 4)) (\<lambda>start.
     bind_outcome (getUint32 (ig_bytes g) (offsetBase + (node + 1) * 4)) (\<lambda>ending.
       Ok \<lparr>cu_csrEdgeBase = csrEdgeBase, cu_end = ending, cu_mask = profileMask, cu_edgeSource = edgeSource,
           cu_position = start, cu_visited = 0, cu_edge = - 1, cu_target = - 1, cu_type = - 1,
           cu_confidence = - 1, cu_flags = 0, cu_provenance = - 1\<rparr>))"

definition openOutgoingCursor :: "index_geometry \<Rightarrow> nat \<Rightarrow> 32 word \<Rightarrow> edge_cursor outcome" where
  "openOutgoingCursor g node profileMask =
     open_cursor g (ig_outOffsetBase g) (ig_outEdgeBase g) None node profileMask"

definition openIncomingCursor :: "index_geometry \<Rightarrow> nat list \<Rightarrow> nat \<Rightarrow> 32 word \<Rightarrow> edge_cursor outcome" where
  "openIncomingCursor g edgeSource node profileMask =
     open_cursor g (ig_inOffsetBase g) (ig_inEdgeBase g) (Some edgeSource) node profileMask"

definition fill_bucket :: "index_geometry \<Rightarrow> nat \<Rightarrow> nat list \<Rightarrow> nat list outcome" where
  "fill_bucket g node built =
     bind_outcome (getUint32 (ig_bytes g) (ig_outOffsetBase g + node * 4)) (\<lambda>start.
     bind_outcome (getUint32 (ig_bytes g) (ig_outOffsetBase g + (node + 1) * 4)) (\<lambda>ending.
       each_row (\<lambda>slot b. bind_outcome (getUint32 (ig_bytes g) (ig_outEdgeBase g + slot * 4)) (\<lambda>edge.
                   Ok (b[edge := node]))) [start..<ending] built))"

definition buildEdgeSourceIndex :: "index_geometry \<Rightarrow> nat list outcome" where
  "buildEdgeSourceIndex g = each_row (fill_bucket g) [0..<ig_nodeCount g] (replicate (ig_edgeCount g) 0)"

text \<open>What a caller sees of a cursor it reads to the end.\<close>

definition cursor_view :: "edge_cursor \<Rightarrow> edge_view" where
  "cursor_view c =
     \<lparr>ev_edge = cu_edge c, ev_target = cu_target c, ev_type = nat (cu_type c),
      ev_confidence = nat (cu_confidence c)\<rparr>"

lemma next_edge_position:
  "next_edge g c = Ok (c', True) \<Longrightarrow> cu_end c' = cu_end c \<and> cu_position c < cu_position c' \<and> cu_position c' \<le> cu_end c"
proof (induction g c arbitrary: c' rule: next_edge.induct)
  case (1 g c)
  show ?case
  proof (cases "cu_position c < cu_end c")
    case True
    then obtain edge profile where e: "getUint32 (ig_bytes g) (cu_csrEdgeBase c + cu_position c * 4) = Ok edge"
      "getUint16 (ig_bytes g) (ig_edgeBase g + edge * CONTEXT_INDEX_EDGE_ROW_BYTES + EDGE_PROFILE_MASK_AT) = Ok profile"
      using 1(2) by (subst (asm) next_edge.simps) (auto simp: Let_def simp del: getUint_Ok)
    let ?c = "c\<lparr>cu_position := cu_position c + 1, cu_visited := cu_visited c + 1\<rparr>"
    show ?thesis
    proof (cases "word_of_nat profile AND cu_mask c = 0")
      case skip: True
      then have "next_edge g ?c = Ok (c', True)"
        using 1(2) True e by (subst (asm) next_edge.simps) (simp add: Let_def del: getUint_Ok)
      from 1(1) [OF True refl refl skip this] True show ?thesis by simp
    next
      case False
      then have "cursor_load g edge ?c = Ok c'"
        using 1(2) True e by (subst (asm) next_edge.simps) (simp add: Let_def del: getUint_Ok)
      then show ?thesis using True by (auto simp: cursor_load_def Let_def)
    qed
  next
    case False
    then show ?thesis using 1(2) by (subst (asm) next_edge.simps) simp
  qed
qed

function cursor_edges :: "index_geometry \<Rightarrow> edge_cursor \<Rightarrow> edge_view list outcome" where
  "cursor_edges g c =
     (case next_edge g c of
        Ok (c', True) \<Rightarrow> bind_outcome (cursor_edges g c') (\<lambda>es. Ok (cursor_view c' # es))
      | Ok (c', False) \<Rightarrow> Ok []
      | Reject e \<Rightarrow> Reject e | Refuse e \<Rightarrow> Refuse e | Thrown e \<Rightarrow> Thrown e)"
  by auto
termination
  by (relation "measure (\<lambda>(g, c). cu_end c - cu_position c)") (use next_edge_position in fastforce)+

declare cursor_edges.simps [simp del]

subsection \<open>A cursor is a filter of its slots\<close>

definition slot_edge :: "index_geometry \<Rightarrow> nat \<Rightarrow> nat \<Rightarrow> nat" where
  "slot_edge g csrEdgeBase slot = u32 (ig_bytes g) (csrEdgeBase + slot * 4)"

definition edge_byte :: "index_geometry \<Rightarrow> nat \<Rightarrow> nat \<Rightarrow> nat \<Rightarrow> nat" where
  "edge_byte g width field edge = le_nat (sub_bytes (ig_edgeBase g + edge * 16 + field) width (ig_bytes g))"

definition edge_admitted :: "index_geometry \<Rightarrow> 32 word \<Rightarrow> nat \<Rightarrow> bool" where
  "edge_admitted g profileMask edge \<longleftrightarrow> word_of_nat (edge_byte g 2 12 edge) AND profileMask \<noteq> 0"

definition edge_view_at :: "index_geometry \<Rightarrow> nat list option \<Rightarrow> nat \<Rightarrow> edge_view" where
  "edge_view_at g edgeSource edge =
     \<lparr>ev_edge = int edge,
      ev_target = int (case edgeSource of None \<Rightarrow> edge_byte g 4 0 edge | Some sources \<Rightarrow> sources ! edge),
      ev_type = edge_byte g 1 4 edge, ev_confidence = edge_byte g 1 5 edge\<rparr>"

definition same_cursor :: "edge_cursor \<Rightarrow> edge_cursor \<Rightarrow> bool" where
  "same_cursor c c' \<longleftrightarrow> cu_csrEdgeBase c' = cu_csrEdgeBase c \<and> cu_end c' = cu_end c \<and>
     cu_mask c' = cu_mask c \<and> cu_edgeSource c' = cu_edgeSource c"

definition cursor_ready :: "index_geometry \<Rightarrow> edge_cursor \<Rightarrow> bool" where
  "cursor_ready g c \<longleftrightarrow>
     edges_ok g \<and> cu_end c \<le> ig_edgeCount g \<and>
     (\<forall>k < ig_edgeCount g. cu_csrEdgeBase c + k * 4 + 4 \<le> length (ig_bytes g) \<and>
        slot_edge g (cu_csrEdgeBase c) k < ig_edgeCount g) \<and>
     (case cu_edgeSource c of None \<Rightarrow> True | Some sources \<Rightarrow> length sources = ig_edgeCount g)"

lemma cursor_load_ok:
  assumes "cursor_ready g c" "edge < ig_edgeCount g"
  shows "\<exists>c'. cursor_load g edge c = Ok c' \<and> cursor_view c' = edge_view_at g (cu_edgeSource c) edge \<and>
    same_cursor c c' \<and> cu_position c' = cu_position c"
proof -
  have r: "ig_edgeBase g + edge * 16 + 16 \<le> length (ig_bytes g)"
    using assms by (simp add: cursor_ready_def edges_ok_def)
  have "cursor_target g c edge (ig_edgeBase g + edge * 16) =
      Ok (case cu_edgeSource c of None \<Rightarrow> edge_byte g 4 0 edge | Some sources \<Rightarrow> sources ! edge)"
    using assms r by (auto simp: cursor_target_def cursor_ready_def edge_byte_def row_field_defs split: option.split)
  then show ?thesis using r
    by (simp add: cursor_load_def Let_def row_bytes_defs row_field_defs getUint_def cursor_view_def
        edge_view_at_def edge_byte_def same_cursor_def)
qed

definition slot_admitted :: "index_geometry \<Rightarrow> edge_cursor \<Rightarrow> nat \<Rightarrow> bool" where
  "slot_admitted g c slot \<longleftrightarrow> edge_admitted g (cu_mask c) (slot_edge g (cu_csrEdgeBase c) slot)"

lemma next_edge_spec:
  assumes "cursor_ready g c"
  shows "(filter (slot_admitted g c) [cu_position c..<cu_end c] = [] \<and> (\<exists>c'. next_edge g c = Ok (c', False))) \<or>
    (\<exists>slot c'. filter (slot_admitted g c) [cu_position c..<cu_end c] =
         slot # filter (slot_admitted g c) [slot + 1..<cu_end c] \<and>
       next_edge g c = Ok (c', True) \<and> cu_position c' = slot + 1 \<and>
       cursor_view c' = edge_view_at g (cu_edgeSource c) (slot_edge g (cu_csrEdgeBase c) slot) \<and> same_cursor c c')"
  using assms
proof (induction g c rule: next_edge.induct)
  case (1 g c)
  show ?case
  proof (cases "cu_position c < cu_end c")
    case True
    define edge where "edge = slot_edge g (cu_csrEdgeBase c) (cu_position c)"
    define c1 where "c1 = c\<lparr>cu_position := cu_position c + 1, cu_visited := cu_visited c + 1\<rparr>"
    have ready: "cursor_ready g c1" using 1(2) by (simp add: cursor_ready_def c1_def)
    have e: "edge < ig_edgeCount g" "getUint32 (ig_bytes g) (cu_csrEdgeBase c + cu_position c * 4) = Ok edge"
      using 1(2) True by (auto simp: cursor_ready_def edge_def slot_edge_def u32_def)
    have p: "getUint16 (ig_bytes g) (ig_edgeBase g + edge * CONTEXT_INDEX_EDGE_ROW_BYTES + EDGE_PROFILE_MASK_AT) =
        Ok (edge_byte g 2 12 edge)"
      using 1(2) e(1) by (auto simp: cursor_ready_def edges_ok_def edge_byte_def row_bytes_defs row_field_defs add.assoc)
    have step: "next_edge g c = (if word_of_nat (edge_byte g 2 12 edge) AND cu_mask c = 0 then next_edge g c1
        else bind_outcome (cursor_load g edge c1) (\<lambda>c2. Ok (c2, True)))"
      using True by (subst next_edge.simps) (simp add: e p c1_def Let_def del: getUint_Ok)
    have u: "[cu_position c..<cu_end c] = cu_position c # [cu_position c + 1..<cu_end c]"
      using True by (simp add: upt_conv_Cons)
    show ?thesis
    proof (cases "word_of_nat (edge_byte g 2 12 edge) AND cu_mask c = 0")
      case skip: True
      have f: "filter (slot_admitted g c) [cu_position c..<cu_end c] =
          filter (slot_admitted g c1) [cu_position c1..<cu_end c1]"
        unfolding u using skip
        by (simp add: slot_admitted_def [abs_def] edge_admitted_def edge_def c1_def)
      have same: "slot_admitted g c1 = slot_admitted g c" "same_cursor c1 d \<longleftrightarrow> same_cursor c d" for d
        by (simp_all add: slot_admitted_def [abs_def] c1_def same_cursor_def)
      show ?thesis
        using 1(1) [OF True refl refl skip, folded c1_def, OF ready] skip
        unfolding f step same by (simp add: c1_def)
    next
      case False
      from cursor_load_ok [OF ready e(1)] obtain c' where "cursor_load g edge c1 = Ok c'"
        "cursor_view c' = edge_view_at g (cu_edgeSource c) edge" "same_cursor c c'" "cu_position c' = cu_position c + 1"
        by (auto simp: c1_def same_cursor_def)
      with False show ?thesis unfolding u step by (auto simp: slot_admitted_def edge_admitted_def edge_def)
    qed
  next
    case False
    then show ?thesis by (subst next_edge.simps) simp
  qed
qed

lemma cursor_edges_spec:
  assumes "cursor_ready g c"
  shows "cursor_edges g c =
    Ok (map (edge_view_at g (cu_edgeSource c)) (filter (edge_admitted g (cu_mask c))
          (map (slot_edge g (cu_csrEdgeBase c)) [cu_position c..<cu_end c])))"
  using assms
proof (induction g c rule: cursor_edges.induct)
  case (1 g c)
  let ?admit = "slot_admitted g c"
  from next_edge_spec [OF 1(2)] show ?case
  proof (elim disjE exE conjE)
    fix c' assume "filter ?admit [cu_position c..<cu_end c] = []" "next_edge g c = Ok (c', False)"
    then show ?thesis by (subst cursor_edges.simps) (simp add: filter_map comp_def slot_admitted_def [abs_def])
  next
    fix slot c' assume n: "filter ?admit [cu_position c..<cu_end c] = slot # filter ?admit [slot + 1..<cu_end c]"
      "next_edge g c = Ok (c', True)" "cu_position c' = slot + 1"
      "cursor_view c' = edge_view_at g (cu_edgeSource c) (slot_edge g (cu_csrEdgeBase c) slot)" "same_cursor c c'"
    have "cursor_ready g c'" using 1(2) n(5) by (auto simp: cursor_ready_def same_cursor_def)
    from 1(1) [OF n(2) refl _ this] n show ?thesis
      by (subst cursor_edges.simps) (simp add: filter_map comp_def same_cursor_def slot_admitted_def [abs_def])
  qed
qed

subsection \<open>Cursors of an opened index\<close>

definition bucket :: "index_geometry \<Rightarrow> nat \<Rightarrow> nat \<Rightarrow> nat \<Rightarrow> nat list" where
  "bucket g offsetBase csrEdgeBase node =
     map (slot_edge g csrEdgeBase)
       [u32 (ig_bytes g) (offsetBase + node * 4)..<u32 (ig_bytes g) (offsetBase + (node + 1) * 4)]"

lemma csr_row_range:
  assumes "csr_ok g offsetBase csrEdgeBase" "node < ig_nodeCount g"
  shows "u32 (ig_bytes g) (offsetBase + (node + 1) * 4) \<le> ig_edgeCount g"
    "getUint32 (ig_bytes g) (offsetBase + node * 4) = Ok (u32 (ig_bytes g) (offsetBase + node * 4))"
    "getUint32 (ig_bytes g) (offsetBase + (node + 1) * 4) = Ok (u32 (ig_bytes g) (offsetBase + (node + 1) * 4))"
proof -
  have m: "u32 (ig_bytes g) (offsetBase + i * 4) \<le> u32 (ig_bytes g) (offsetBase + j * 4)"
    if "i \<le> j" "j \<le> ig_nodeCount g" for i j
    using assms(1) that unfolding csr_ok_def by blast
  show "u32 (ig_bytes g) (offsetBase + (node + 1) * 4) \<le> ig_edgeCount g"
    using m [of "node + 1" "ig_nodeCount g"] assms by (simp add: csr_ok_def)
  have "offsetBase + i * 4 + 4 \<le> length (ig_bytes g)" if "i \<le> ig_nodeCount g" for i
    using assms(1) that by (simp add: csr_ok_def)
  from this [of node] this [of "node + 1"] assms(2)
  show "getUint32 (ig_bytes g) (offsetBase + node * 4) = Ok (u32 (ig_bytes g) (offsetBase + node * 4))"
    "getUint32 (ig_bytes g) (offsetBase + (node + 1) * 4) = Ok (u32 (ig_bytes g) (offsetBase + (node + 1) * 4))"
    by (simp_all add: u32_def)
qed

lemma bucket_edges:
  assumes "csr_ok g offsetBase csrEdgeBase" "node < ig_nodeCount g" "e \<in> set (bucket g offsetBase csrEdgeBase node)"
  shows "e < ig_edgeCount g"
  using assms csr_row_range(1) [OF assms(1,2)] by (auto simp: bucket_def csr_ok_def slot_edge_def)

lemma open_cursor_edges:
  assumes "csr_ok g offsetBase csrEdgeBase" "edges_ok g" "node < ig_nodeCount g"
    "case edgeSource of None \<Rightarrow> True | Some sources \<Rightarrow> length sources = ig_edgeCount g"
  shows "bind_outcome (open_cursor g offsetBase csrEdgeBase edgeSource node profileMask) (cursor_edges g) =
    Ok (map (edge_view_at g edgeSource) (filter (edge_admitted g profileMask) (bucket g offsetBase csrEdgeBase node)))"
proof -
  note r = csr_row_range [OF assms(1,3)]
  let ?c = "\<lparr>cu_csrEdgeBase = csrEdgeBase, cu_end = u32 (ig_bytes g) (offsetBase + (node + 1) * 4),
    cu_mask = profileMask, cu_edgeSource = edgeSource, cu_position = u32 (ig_bytes g) (offsetBase + node * 4),
    cu_visited = 0, cu_edge = - 1, cu_target = - 1, cu_type = - 1, cu_confidence = - 1, cu_flags = 0,
    cu_provenance = - 1\<rparr>"
  have "open_cursor g offsetBase csrEdgeBase edgeSource node profileMask = Ok ?c"
    unfolding open_cursor_def r(2) r(3) by simp
  moreover have "cursor_ready g ?c"
    using assms r(1) by (simp add: cursor_ready_def csr_ok_def slot_edge_def)
  ultimately show ?thesis using cursor_edges_spec [of g ?c] by (simp add: bucket_def)
qed

definition edge_in_index :: "index_geometry \<Rightarrow> edge_view \<Rightarrow> bool" where
  "edge_in_index g e \<longleftrightarrow>
     ev_edge e \<in> {0..<int (ig_edgeCount g)} \<and> ev_target e \<in> {0..<int (ig_nodeCount g)} \<and>
     ev_type e < length CONTEXT_GRAPH_EDGE_TYPES \<and> ev_confidence e < length CONFIDENCE_CODES"

lemma edge_view_in_index:
  assumes "edges_ok g" "e < ig_edgeCount g"
    "case edgeSource of None \<Rightarrow> True | Some sources \<Rightarrow> sources ! e < ig_nodeCount g"
  shows "edge_in_index g (edge_view_at g edgeSource e)"
  using assms by (auto simp: edge_in_index_def edge_view_at_def edges_ok_def edge_byte_def u32_def split: option.splits)

text \<open>The edge source index: one node per edge, in range.\<close>

lemma each_row_total:
  assumes "I s" "\<And>x s. x \<in> set xs \<Longrightarrow> I s \<Longrightarrow> \<exists>s'. f x s = Ok s' \<and> I s'"
  shows "\<exists>s'. each_row f xs s = Ok s' \<and> I s'"
  using assms
proof (induction xs arbitrary: s)
  case (Cons x xs)
  obtain s1 where s1: "f x s = Ok s1" "I s1" using Cons.prems(2) [of x s] Cons.prems(1) by auto
  have "\<exists>s'. each_row f xs s1 = Ok s' \<and> I s'"
    by (rule Cons.IH [OF s1(2)]) (use Cons.prems(2) in auto)
  with s1 show ?case by simp
qed simp

lemma edge_source_index:
  assumes "csr_ok g (ig_outOffsetBase g) (ig_outEdgeBase g)" "0 < ig_nodeCount g"
  shows "\<exists>sources. buildEdgeSourceIndex g = Ok sources \<and> length sources = ig_edgeCount g \<and>
    set sources \<subseteq> {..<ig_nodeCount g}"
proof -
  let ?I = "\<lambda>b. length b = ig_edgeCount g \<and> set b \<subseteq> {..<ig_nodeCount g}"
  have inner: "\<exists>b'. fill_bucket g node b = Ok b' \<and> ?I b'" if "node < ig_nodeCount g" "?I b" for node b
  proof -
    note r = csr_row_range [OF assms(1) that(1)]
    have "\<exists>b'. each_row (\<lambda>slot b. bind_outcome (getUint32 (ig_bytes g) (ig_outEdgeBase g + slot * 4)) (\<lambda>edge.
        Ok (b[edge := node]))) [u32 (ig_bytes g) (ig_outOffsetBase g + node * 4)..<
          u32 (ig_bytes g) (ig_outOffsetBase g + (node + 1) * 4)] b = Ok b' \<and> ?I b'"
    proof (rule each_row_total [where I = ?I, OF that(2)])
      fix slot b1 assume s: "slot \<in> set [u32 (ig_bytes g) (ig_outOffsetBase g + node * 4)..<
          u32 (ig_bytes g) (ig_outOffsetBase g + (node + 1) * 4)]" "?I b1"
      then have "slot < ig_edgeCount g" using r(1) by simp
      then have "getUint32 (ig_bytes g) (ig_outEdgeBase g + slot * 4) = Ok (slot_edge g (ig_outEdgeBase g) slot)"
        using assms(1) by (simp add: csr_ok_def slot_edge_def u32_def)
      then show "\<exists>b'. bind_outcome (getUint32 (ig_bytes g) (ig_outEdgeBase g + slot * 4)) (\<lambda>edge. Ok (b1[edge := node])) = Ok b' \<and> ?I b'"
        using s(2) that(1) set_update_subset_insert [of b1] by (auto simp del: getUint_Ok)
    qed
    then show ?thesis unfolding fill_bucket_def r(2) r(3) by simp
  qed
  show ?thesis unfolding buildEdgeSourceIndex_def
    by (rule each_row_total [where I = ?I]) (use inner assms(2) in \<open>auto simp: set_replicate_conv_if\<close>)
qed


end
