(* ===== verification/Index_Names.thy ===== *)
theory Index_Names
  imports Index_Reader Index_Strings
begin

text \<open>
  Name matching on the string blob, \<open>runtime-index/reader-names.ts\<close>: a name is a node's label, the
  basename of its path, or that basename without its last extension, compared byte by byte.
\<close>

subsection \<open>The code\<close>

definition SLASH :: "8 word" where "SLASH = 0x2f"
definition DOT :: "8 word" where "DOT = 0x2e"

definition contextIndexNameProbe :: "units \<Rightarrow> bytes" where
  "contextIndexNameProbe name = utf8_encode name"

text \<open>An element of a typed array is \<open>undefined\<close> beyond its end.\<close>

definition byte_at :: "index_geometry \<Rightarrow> nat \<Rightarrow> 8 word option" where
  "byte_at g i = (if i < length (ig_bytes g) then Some (ig_bytes g ! i) else None)"

definition blobEquals :: "index_geometry \<Rightarrow> nat \<Rightarrow> nat \<Rightarrow> bytes \<Rightarrow> bool" where
  "blobEquals g start ending probe =
     (if int ending - int start \<noteq> int (length probe) then False
      else list_all (\<lambda>k. byte_at g (ig_stringBlobBase g + start + k) = Some (probe ! k)) [0..<length probe])"

function scan_back :: "(nat \<Rightarrow> bool) \<Rightarrow> nat \<Rightarrow> nat \<Rightarrow> nat option" where
  "scan_back hit low ending =
     (if low < ending then if hit (ending - 1) then Some (ending - 1) else scan_back hit low (ending - 1) else None)"
  by pat_completeness auto
termination by (relation "measure (\<lambda>(hit, low, ending). ending)") auto

declare scan_back.simps [simp del]

definition basenameStart :: "index_geometry \<Rightarrow> nat \<Rightarrow> nat \<Rightarrow> nat" where
  "basenameStart g start ending =
     (case scan_back (\<lambda>i. byte_at g (ig_stringBlobBase g + i) = Some SLASH) start ending of
        Some i \<Rightarrow> i + 1 | None \<Rightarrow> start)"

definition stemEnd :: "index_geometry \<Rightarrow> nat \<Rightarrow> nat \<Rightarrow> int" where
  "stemEnd g start ending =
     (case scan_back (\<lambda>i. byte_at g (ig_stringBlobBase g + i) = Some DOT) (start + 1) ending of
        Some i \<Rightarrow> int i | None \<Rightarrow> - 1)"

definition nodeHasNameAt :: "index_geometry \<Rightarrow> nat \<Rightarrow> bytes \<Rightarrow> bool outcome" where
  "nodeHasNameAt g rowAt probe =
     (if length probe = 0 then Ok False
      else bind_outcome (getUint32 (ig_bytes g) (rowAt + NODE_LABEL_AT)) (\<lambda>labelId.
           bind_outcome (stringStart g labelId) (\<lambda>labelStart.
           bind_outcome (stringEnd g labelId) (\<lambda>labelEnd.
           if blobEquals g labelStart labelEnd probe then Ok True
           else bind_outcome (getUint32 (ig_bytes g) (rowAt + NODE_PATH_AT)) (\<lambda>pathId.
             if pathId = CONTEXT_INDEX_NO_VALUE then Ok False
             else bind_outcome (stringStart g pathId) (\<lambda>start.
                  bind_outcome (stringEnd g pathId) (\<lambda>ending.
                  let nameAt = basenameStart g start ending
                  in if blobEquals g nameAt ending probe then Ok True
                     else let stem = stemEnd g nameAt ending
                          in Ok (int nameAt < stem \<and> blobEquals g nameAt (nat stem) probe))))))))"

subsection \<open>What it decides\<close>

text \<open>The bytes of a string of the table, and the two names a path gives.\<close>

definition string_bounds :: "index_geometry \<Rightarrow> nat \<Rightarrow> nat \<times> nat" where
  "string_bounds g i =
     ((if i = 0 then 0 else u32 (ig_bytes g) (ig_stringIndexBase g + (i - 1) * 4)),
      u32 (ig_bytes g) (ig_stringIndexBase g + i * 4))"

definition string_bytes :: "index_geometry \<Rightarrow> nat \<Rightarrow> bytes" where
  "string_bytes g i =
     sub_bytes (ig_stringBlobBase g + fst (string_bounds g i)) (snd (string_bounds g i) - fst (string_bounds g i)) (ig_bytes g)"

definition basename_of :: "bytes \<Rightarrow> bytes" where
  "basename_of path = rev (takeWhile (\<lambda>b. b \<noteq> SLASH) (rev path))"

definition stem_of :: "bytes \<Rightarrow> bytes option" where
  "stem_of name =
     (case name of
        [] \<Rightarrow> None
      | b # bs \<Rightarrow> (case dropWhile (\<lambda>b. b \<noteq> DOT) (rev bs) of [] \<Rightarrow> None | _ # rest \<Rightarrow> Some (b # rev rest)))"

definition has_name :: "bytes \<Rightarrow> bytes option \<Rightarrow> bytes \<Rightarrow> bool" where
  "has_name label path probe \<longleftrightarrow>
     probe \<noteq> [] \<and>
     (probe = label \<or>
      (case path of None \<Rightarrow> False
       | Some p \<Rightarrow> probe = basename_of p \<or> Some probe = stem_of (basename_of p)))"

lemma string_bounds_read:
  assumes "strings_ok g" "i < ig_stringCount g"
  shows "stringStart g i = Ok (fst (string_bounds g i))" "stringEnd g i = Ok (snd (string_bounds g i))"
    "fst (string_bounds g i) \<le> snd (string_bounds g i)"
    "ig_stringBlobBase g + snd (string_bounds g i) \<le> length (ig_bytes g)"
proof -
  have at: "ig_stringIndexBase g + j * 4 + 4 \<le> length (ig_bytes g)" if "j \<le> i" for j
    using assms that by (auto simp: strings_ok_def)
  show "stringEnd g i = Ok (snd (string_bounds g i))"
    using at [of i] by (simp add: stringEnd_def string_bounds_def u32_def)
  show "stringStart g i = Ok (fst (string_bounds g i))"
    using at [of "i - 1"] by (simp add: stringStart_def string_bounds_def u32_def)
  show "fst (string_bounds g i) \<le> snd (string_bounds g i)"
    using assms by (auto simp: strings_ok_def string_bounds_def)
  show "ig_stringBlobBase g + snd (string_bounds g i) \<le> length (ig_bytes g)"
    using assms by (auto simp: strings_ok_def string_bounds_def)
qed

text \<open>A stretch of the blob.\<close>

definition blob :: "index_geometry \<Rightarrow> nat \<Rightarrow> nat \<Rightarrow> bytes" where
  "blob g start ending = sub_bytes (ig_stringBlobBase g + start) (ending - start) (ig_bytes g)"

definition blob_range :: "index_geometry \<Rightarrow> nat \<Rightarrow> nat \<Rightarrow> bool" where
  "blob_range g start ending \<longleftrightarrow> start \<le> ending \<and> ig_stringBlobBase g + ending \<le> length (ig_bytes g)"

lemma length_blob: "blob_range g s e \<Longrightarrow> length (blob g s e) = e - s"
  by (auto simp: blob_def blob_range_def)

lemma blob_nth: "blob_range g s e \<Longrightarrow> k < e - s \<Longrightarrow> byte_at g (ig_stringBlobBase g + s + k) = Some (blob g s e ! k)"
  by (auto simp: blob_def blob_range_def byte_at_def sub_bytes_def)

lemma blobEquals_iff:
  assumes "blob_range g s e"
  shows "blobEquals g s e probe \<longleftrightarrow> probe = blob g s e"
proof (cases "length probe = e - s")
  case True
  then have "int e - int s = int (length probe)" using assms by (auto simp: blob_range_def)
  moreover have "byte_at g (ig_stringBlobBase g + s + k) = Some (blob g s e ! k)" if "k < length probe" for k
    by (rule blob_nth [OF assms]) (use that True in simp)
  ultimately have "blobEquals g s e probe \<longleftrightarrow> (\<forall>k < length probe. blob g s e ! k = probe ! k)"
    unfolding blobEquals_def list_all_iff by (simp add: Ball_def)
  moreover have "length (blob g s e) = length probe" using length_blob [OF assms] True by simp
  ultimately show ?thesis unfolding list_eq_iff_nth_eq by auto
next
  case False
  then have "int e - int s \<noteq> int (length probe)" using assms by (auto simp: blob_range_def)
  then show ?thesis using False length_blob [OF assms] by (auto simp: blobEquals_def)
qed

lemma scan_back_facts:
  shows "scan_back hit low ending = None \<Longrightarrow> low \<le> k \<Longrightarrow> k < ending \<Longrightarrow> \<not> hit k"
    and "scan_back hit low ending = Some i \<Longrightarrow> low \<le> i \<and> i < ending \<and> hit i \<and> (\<forall>k. i < k \<longrightarrow> k < ending \<longrightarrow> \<not> hit k)"
proof (induction hit low ending rule: scan_back.induct)
  case (1 hit low ending)
  note step = scan_back.simps [of hit low ending]
  {
    case 1
    then show ?case using "1.IH"(1) [of] step by (cases "k = ending - 1") (auto split: if_splits)
  next
    case 2
    show ?case
    proof (cases "hit (ending - 1)")
      case True
      then show ?thesis using 2 step by (auto split: if_splits)
    next
      case False
      then have low: "low < ending" "scan_back hit low (ending - 1) = Some i" using 2 step by (auto split: if_splits)
      from "1.IH"(2) [OF low(1) False low(2)] False show ?thesis
        by (metis Suc_pred' diff_Suc_1 less_Suc_eq less_imp_Suc_add less_trans lessI not_gr_zero zero_less_diff)
    qed
  }
qed

lemma blob_split:
  assumes "blob_range g s e" "s \<le> i" "i < e"
  shows "blob g s e = blob g s i @ (the (byte_at g (ig_stringBlobBase g + i))) # blob g (i + 1) e"
    "byte_at g (ig_stringBlobBase g + i) \<noteq> None"
proof -
  have len: "ig_stringBlobBase g + i < length (ig_bytes g)" using assms by (auto simp: blob_range_def)
  then show "byte_at g (ig_stringBlobBase g + i) \<noteq> None" by (simp add: byte_at_def)
  let ?B = "blob g s e"
  have k: "i - s < e - s" using assms by simp
  have "?B = take (i - s) ?B @ ?B ! (i - s) # drop (Suc (i - s)) ?B"
    by (rule id_take_nth_drop) (use k length_blob [OF assms(1)] in simp)
  moreover have "take (i - s) ?B = blob g s i" using assms(3) by (simp add: blob_def sub_bytes_def min_def)
  moreover have "drop (Suc (i - s)) ?B = blob g (i + 1) e"
    using assms(2,3) by (simp add: blob_def sub_bytes_def drop_take add.commute)
  moreover have "?B ! (i - s) = the (byte_at g (ig_stringBlobBase g + i))"
    using blob_nth [OF assms(1) k] assms(2) by simp
  ultimately show "?B = blob g s i @ (the (byte_at g (ig_stringBlobBase g + i))) # blob g (i + 1) e" by simp
qed

lemma blob_without:
  assumes "blob_range g s e" "\<And>k. s \<le> k \<Longrightarrow> k < e \<Longrightarrow> byte_at g (ig_stringBlobBase g + k) \<noteq> Some b"
  shows "b \<notin> set (blob g s e)"
proof
  assume "b \<in> set (blob g s e)"
  then obtain k where "k < e - s" "blob g s e ! k = b" using length_blob [OF assms(1)] by (auto simp: in_set_conv_nth)
  then show False using blob_nth [OF assms(1), of k] assms(2) [of "s + k"] by (simp add: add.assoc)
qed

lemma while_absent: "x \<notin> set xs \<Longrightarrow> takeWhile (\<lambda>b. b \<noteq> x) xs = xs \<and> dropWhile (\<lambda>b. b \<noteq> x) xs = []"
  by (induction xs) auto

lemma dropWhile_absent: "x \<notin> set xs \<Longrightarrow> dropWhile (\<lambda>b. b \<noteq> x) (xs @ x # ys) = x # ys"
  by (induction xs) auto

lemma basename_split: "SLASH \<notin> set ys \<Longrightarrow> basename_of (xs @ SLASH # ys) = ys"
  by (simp add: basename_of_def takeWhile_tail while_absent)

lemma basename_whole: "SLASH \<notin> set xs \<Longrightarrow> basename_of xs = xs"
  by (simp add: basename_of_def while_absent)

lemma basenameStart_spec:
  assumes "blob_range g s e"
  shows "blob_range g (basenameStart g s e) e" "blob g (basenameStart g s e) e = basename_of (blob g s e)"
proof -
  let ?hit = "\<lambda>i. byte_at g (ig_stringBlobBase g + i) = Some SLASH"
  have "blob_range g (basenameStart g s e) e \<and> blob g (basenameStart g s e) e = basename_of (blob g s e)"
  proof (cases "scan_back ?hit s e")
    case None
    then have "SLASH \<notin> set (blob g s e)" using scan_back_facts(1) [OF None] by (intro blob_without [OF assms]) auto
    then show ?thesis using assms by (simp add: basenameStart_def None basename_whole)
  next
    case (Some i)
    note f = scan_back_facts(2) [OF Some]
    have range: "blob_range g (i + 1) e" using assms f by (auto simp: blob_range_def)
    have "SLASH \<notin> set (blob g (i + 1) e)" by (rule blob_without [OF range]) (use f in auto)
    then have "basename_of (blob g s e) = blob g (i + 1) e"
      using blob_split(1) [OF assms, of i] f by (simp add: basename_split)
    then show ?thesis using range unfolding basenameStart_def Some by simp
  qed
  then show "blob_range g (basenameStart g s e) e" "blob g (basenameStart g s e) e = basename_of (blob g s e)"
    by auto
qed

lemma stem_split: "DOT \<notin> set ys \<Longrightarrow> stem_of (b # xs @ DOT # ys) = Some (b # xs)"
  by (simp add: stem_of_def dropWhile_absent)

lemma stem_none: "DOT \<notin> set xs \<Longrightarrow> stem_of (b # xs) = None"
  by (simp add: stem_of_def while_absent)

lemma stemEnd_spec:
  assumes "blob_range g s e" "probe \<noteq> []"
  shows "int s < stemEnd g s e \<and> blobEquals g s (nat (stemEnd g s e)) probe \<longleftrightarrow> Some probe = stem_of (blob g s e)"
proof -
  let ?hit = "\<lambda>i. byte_at g (ig_stringBlobBase g + i) = Some DOT"
  show ?thesis
  proof (cases "s < e")
    case False
    then have "blob g s e = []" using assms(1) by (auto simp: blob_def sub_bytes_def)
    moreover have "scan_back ?hit (s + 1) e = None" using False by (simp add: scan_back.simps)
    ultimately show ?thesis unfolding stemEnd_def by (simp add: stem_of_def)
  next
    case True
    have range: "blob_range g (s + 1) e" using assms(1) True by (auto simp: blob_range_def)
    obtain b where b: "blob g s e = b # blob g (s + 1) e"
      using blob_split(1) [OF assms(1) le_refl True] by (simp add: blob_def sub_bytes_def)
    show ?thesis
    proof (cases "scan_back ?hit (s + 1) e")
      case None
      then have "DOT \<notin> set (blob g (s + 1) e)"
        using scan_back_facts(1) [OF None] by (intro blob_without [OF range]) auto
      then show ?thesis unfolding stemEnd_def None b stem_none [OF \<open>DOT \<notin> set (blob g (s + 1) e)\<close>] by simp
    next
      case (Some i)
      note f = scan_back_facts(2) [OF Some]
      have r: "blob_range g (i + 1) e" "blob_range g s i" using assms(1) f by (auto simp: blob_range_def)
      have "DOT \<notin> set (blob g (i + 1) e)" by (rule blob_without [OF r(1)]) (use f in auto)
      moreover have "blob g (s + 1) e = blob g (s + 1) i @ DOT # blob g (i + 1) e"
        using blob_split(1) [OF range, of i] f by simp
      moreover have "blob g s i = b # blob g (s + 1) i"
        using blob_split(1) [OF r(2) le_refl] blob_split(1) [OF assms(1) le_refl True] b f
        by (simp add: blob_def sub_bytes_def)
      ultimately have "stem_of (blob g s e) = Some (blob g s i)" by (simp add: b stem_split)
      then show ?thesis using f unfolding stemEnd_def Some by (auto simp: blobEquals_iff [OF r(2)])
    qed
  qed
qed

lemma string_blob:
  assumes "strings_ok g" "i < ig_stringCount g"
  shows "blob_range g (fst (string_bounds g i)) (snd (string_bounds g i))"
    "blob g (fst (string_bounds g i)) (snd (string_bounds g i)) = string_bytes g i"
  using string_bounds_read [OF assms] by (auto simp: blob_range_def blob_def string_bytes_def)

definition node_label_bytes :: "index_geometry \<Rightarrow> nat \<Rightarrow> bytes" where
  "node_label_bytes g n = string_bytes g (u32 (ig_bytes g) (ig_nodeBase g + n * 40 + 12))"

definition node_path_bytes :: "index_geometry \<Rightarrow> nat \<Rightarrow> bytes option" where
  "node_path_bytes g n =
     (let v = u32 (ig_bytes g) (ig_nodeBase g + n * 40 + 16)
      in if v = CONTEXT_INDEX_NO_VALUE then None else Some (string_bytes g v))"

lemma nodeHasNameAt_spec:
  assumes "strings_ok g" "nodes_ok g" "n < ig_nodeCount g"
  shows "nodeHasNameAt g (ig_nodeBase g + n * 40) probe = Ok (has_name (node_label_bytes g n) (node_path_bytes g n) probe)"
proof (cases "probe = []")
  case False
  let ?row = "ig_nodeBase g + n * 40"
  let ?l = "u32 (ig_bytes g) (?row + 12)" and ?p = "u32 (ig_bytes g) (?row + 16)"
  have row: "?row + 40 \<le> length (ig_bytes g)" "?l < ig_stringCount g" "optional_string g ?p"
    using assms(2,3) by (auto simp: nodes_ok_def Let_def)
  have read: "getUint32 (ig_bytes g) (?row + NODE_LABEL_AT) = Ok ?l" "getUint32 (ig_bytes g) (?row + NODE_PATH_AT) = Ok ?p"
    using row(1) by (simp_all add: NODE_LABEL_AT_def NODE_PATH_AT_def u32_def)
  note l = string_bounds_read(1,2) [OF assms(1) row(2)] string_blob [OF assms(1) row(2)]
  show ?thesis
  proof (cases "?p = CONTEXT_INDEX_NO_VALUE")
    case True
    then show ?thesis using False read l
      by (simp add: nodeHasNameAt_def has_name_def node_label_bytes_def node_path_bytes_def blobEquals_iff
          del: getUint_Ok)
  next
    case some: False
    then have "?p < ig_stringCount g" using row(3) by (simp add: optional_string_def)
    note p = string_bounds_read(1,2) [OF assms(1) this] string_blob [OF assms(1) this]
    note b = basenameStart_spec [OF p(3)]
    show ?thesis using False some read l p b stemEnd_spec [OF b(1) False]
      by (simp add: nodeHasNameAt_def has_name_def node_label_bytes_def node_path_bytes_def blobEquals_iff Let_def
          del: getUint_Ok)
  qed
qed (simp add: nodeHasNameAt_def has_name_def)

end
