(* ===== verification/Index_Lookup.thy ===== *)
theory Index_Lookup
  imports Index_Reader "HOL-Library.Product_Lexorder"
begin

text \<open>
  The term dictionary of an opened index, \<open>runtime-index/reader-lookup.ts\<close>, with the posting slices
  of \<open>reader-cursor.ts\<close>: a term is found by binary search exactly when its table has a row for it, and
  the merge of several terms is the sorted sum of their capped posting runs.
\<close>

subsection \<open>Binary search\<close>

text \<open>A search over strictly ascending keys finds the row of the wanted key, or there is none.\<close>

lemma search_loop_find:
  assumes probe: "\<And>i. i < n \<Longrightarrow> probe i = Ok (key i)"
    and ascending: "\<And>i j. i < j \<Longrightarrow> j < n \<Longrightarrow> lt (key i) (key j)"
    and asym: "\<And>a b. lt a b \<Longrightarrow> \<not> lt b a"
    and range: "0 \<le> low" "high < int n"
    and outside: "\<And>i. i < n \<Longrightarrow> key i = wanted \<Longrightarrow> low \<le> int i \<and> int i \<le> high"
  shows "search_loop probe lt wanted low high = Ok (find (\<lambda>i. key i = wanted) [0..<n])"
  using range outside
proof (induction "nat (high + 1 - low)" arbitrary: low high rule: less_induct)
  case less
  show ?case
  proof (cases "low \<le> high")
    case False
    then have "i < n \<Longrightarrow> key i \<noteq> wanted" for i using less.prems(3) [of i] by auto
    then have "find (\<lambda>i. key i = wanted) [0..<n] = None" by (auto simp: find_None_iff)
    with False show ?thesis by (simp add: search_loop.simps)
  next
    case True
    define mid where "mid = nat ((low + high) div 2)"
    have mid: "int mid = (low + high) div 2" "mid < n" "low \<le> int mid" "int mid \<le> high"
      using True less.prems(1,2) by (auto simp: mid_def)
    have step: "search_loop probe lt wanted low high =
      (if key mid = wanted then Ok (Some mid)
       else if lt (key mid) wanted then search_loop probe lt wanted (int mid + 1) high
       else search_loop probe lt wanted low (int mid - 1))"
      using True probe [OF mid(2)] mid(1) by (subst search_loop.simps) (simp add: mid_def Let_def)
    consider "key mid = wanted" | "lt (key mid) wanted" "key mid \<noteq> wanted"
      | "\<not> lt (key mid) wanted" "key mid \<noteq> wanted" by blast
    then show ?thesis
    proof cases
      case 1
      have "\<not> lt wanted wanted" using asym by blast
      then have "key j \<noteq> wanted" if "j < mid" for j
        using ascending [OF that mid(2)] 1 by auto
      with 1 mid(2) have "find (\<lambda>i. key i = wanted) [0..<n] = Some mid"
        unfolding find_Some_iff by (intro exI [of _ mid]) simp
      with 1 step show ?thesis by simp
    next
      case 2
      have up: "int mid + 1 \<le> int i" if "i < n" "key i = wanted" for i
      proof -
        have "i \<noteq> mid" using 2(2) that(2) by auto
        moreover have "\<not> i < mid" using ascending [of i mid] mid(2) asym [OF 2(1)] that(2) by auto
        ultimately show ?thesis by simp
      qed
      show ?thesis
        using less.hyps [of high "int mid + 1"] less.prems up mid step 2 by auto
    next
      case 3
      have down: "int i \<le> int mid - 1" if "i < n" "key i = wanted" for i
      proof -
        have "i \<noteq> mid" using 3(2) that(2) by auto
        moreover have "\<not> mid < i" using ascending [of mid i] 3(1) that by auto
        ultimately show ?thesis by simp
      qed
      show ?thesis
        using less.hyps [of "int mid - 1" low] less.prems down mid step 3 by auto
    qed
  qed
qed

subsection \<open>Posting runs\<close>

definition term_probe :: "index_geometry \<Rightarrow> index_lane \<Rightarrow> nat \<Rightarrow> int outcome" where
  "term_probe g lane mid =
     bind_outcome (getUint32 (ig_bytes g)
         (sd_offset (il_terms lane) + mid * CONTEXT_INDEX_TERM_ROW_BYTES + TERM_ID_AT)) (\<lambda>v. Ok (int v))"

text \<open>A posting run is its start and its length.\<close>

definition termRun :: "index_geometry \<Rightarrow> index_lane \<Rightarrow> int \<Rightarrow> (nat \<times> nat) option outcome" where
  "termRun g lane termId =
     bind_outcome (search_loop (term_probe g lane) (<) termId 0 (int (sd_count (il_terms lane)) - 1)) (\<lambda>found.
       case found of
         None \<Rightarrow> Ok None
       | Some mid \<Rightarrow>
           let pos = sd_offset (il_terms lane) + mid * CONTEXT_INDEX_TERM_ROW_BYTES
           in bind_outcome (getUint32 (ig_bytes g) (pos + TERM_POSTING_START_AT)) (\<lambda>start.
              bind_outcome (getUint32 (ig_bytes g) (pos + TERM_POSTING_COUNT_AT)) (\<lambda>n.
                Ok (Some (start, n)))))"

record posting_slice =
  ps_base :: nat
  ps_length :: nat

definition EMPTY_POSTINGS :: posting_slice where
  "EMPTY_POSTINGS = \<lparr>ps_base = 0, ps_length = 0\<rparr>"

definition slice_node :: "index_geometry \<Rightarrow> posting_slice \<Rightarrow> int \<Rightarrow> nat outcome" where
  "slice_node g s index =
     (if index < 0 \<or> int (ps_length s) \<le> index then Thrown RangeError
      else getUint32 (ig_bytes g) (ps_base s + nat index * 4))"

definition postingsFor :: "index_geometry \<Rightarrow> index_lane \<Rightarrow> int \<Rightarrow> posting_slice outcome" where
  "postingsFor g lane termId =
     (if termId < 0 then Ok EMPTY_POSTINGS
      else bind_outcome (termRun g lane termId) (\<lambda>run.
        case run of
          None \<Rightarrow> Ok EMPTY_POSTINGS
        | Some (start, n) \<Rightarrow>
            if n = 0 then Ok EMPTY_POSTINGS
            else Ok \<lparr>ps_base = sd_offset (il_postings lane) + start * 4, ps_length = n\<rparr>))"

definition termIdOf :: "index_geometry \<Rightarrow> nat list \<Rightarrow> int outcome" where
  "termIdOf g wanted = stringIdOf g wanted"

definition exactPostings :: "index_geometry \<Rightarrow> nat list \<Rightarrow> 32 word \<Rightarrow> posting_slice outcome" where
  "exactPostings g wanted fieldMask =
     (if fieldMask AND CONTEXT_INDEX_FIELD_MASK_ALL = 0 then Ok EMPTY_POSTINGS
      else bind_outcome (stringIdOf g wanted) (postingsFor g (ig_exact g)))"

definition basenamePostings :: "index_geometry \<Rightarrow> nat list \<Rightarrow> posting_slice outcome" where
  "basenamePostings g wanted = bind_outcome (stringIdOf g wanted) (postingsFor g (ig_basename g))"

subsection \<open>Merging\<close>

definition rarityWeight :: "nat \<Rightarrow> nat \<Rightarrow> int" where
  "rarityWeight nodeCount documentFrequency =
     (if nodeCount = 0 \<or> documentFrequency = 0 then 1
      else let rare = int nodeCount - int (min documentFrequency nodeCount)
           in 1 + \<lfloor>fl (of_int (CONTEXT_INDEX_FIXED_POINT_SCALE * rare) / of_nat nodeCount)\<rfloor>)"

text \<open>The accumulating \<open>Map\<close> keeps its keys in insertion order.\<close>

record merge_state =
  mg_order :: "nat list"
  mg_score :: "nat \<Rightarrow> int"
  mg_matched :: nat
  mg_truncated :: bool

definition add_score :: "int \<Rightarrow> nat \<Rightarrow> merge_state \<Rightarrow> merge_state" where
  "add_score weight node m =
     (if node \<in> set (mg_order m) then m\<lparr>mg_score := (mg_score m)(node := mg_score m node + weight)\<rparr>
      else m\<lparr>mg_order := mg_order m @ [node], mg_score := (mg_score m)(node := weight)\<rparr>)"

definition merge_term :: "index_geometry \<Rightarrow> index_lane \<Rightarrow> nat \<Rightarrow> int \<Rightarrow> merge_state \<Rightarrow> merge_state outcome" where
  "merge_term g lane perTerm termId m =
     bind_outcome (termRun g lane termId) (\<lambda>run.
       case run of
         None \<Rightarrow> Ok m
       | Some (start, n) \<Rightarrow>
           if n = 0 then Ok m
           else let taken = min n perTerm; weight = rarityWeight (ig_nodeCount g) n
                in each_row (\<lambda>index acc.
                     bind_outcome (getUint32 (ig_bytes g) (sd_offset (il_postings lane) + (start + index) * 4))
                       (\<lambda>node. Ok (add_score weight node acc)))
                   [0..<taken]
                   (m\<lparr>mg_matched := mg_matched m + 1, mg_truncated := mg_truncated m \<or> taken < n\<rparr>))"

definition EMPTY_SCORED_POSTINGS :: scored_slice where
  "EMPTY_SCORED_POSTINGS = \<lparr>ss_postings = [], ss_matchedTerms = 0, ss_truncated = False\<rparr>"

definition score_rank :: "(nat \<Rightarrow> int) \<Rightarrow> nat \<Rightarrow> int \<times> nat" where
  "score_rank scores node = (- scores node, node)"

definition merged_slice :: "nat \<Rightarrow> merge_state \<Rightarrow> scored_slice" where
  "merged_slice budget m =
     (if mg_order m = [] then EMPTY_SCORED_POSTINGS
      else let ordered = sort_key (score_rank (mg_score m)) (mg_order m)
           in \<lparr>ss_postings = map (\<lambda>node. (int node, to_int32 (mg_score m node))) (take budget ordered),
               ss_matchedTerms = mg_matched m,
               ss_truncated = mg_truncated m \<or> budget < length ordered\<rparr>)"

definition mergePostings ::
  "index_geometry \<Rightarrow> index_lane \<Rightarrow> int list \<Rightarrow> query_bounds \<Rightarrow> scored_slice outcome" where
  "mergePostings g lane termIds plan =
     (let perTerm = qb_postingCapPerTerm plan; budget = nat (qb_candidateBudget plan)
      in if sd_count (il_terms lane) = 0 \<or> perTerm = 0 \<or> budget = 0 \<or> termIds = [] then Ok EMPTY_SCORED_POSTINGS
         else bind_outcome
                (each_row (merge_term g lane perTerm) (sort (remdups termIds))
                   \<lparr>mg_order = [], mg_score = (\<lambda>_. 0), mg_matched = 0, mg_truncated = False\<rparr>)
                (\<lambda>m. Ok (merged_slice budget m)))"

subsection \<open>Runs of a valid lane\<close>

definition term_id_at :: "index_geometry \<Rightarrow> index_lane \<Rightarrow> nat \<Rightarrow> nat" where
  "term_id_at g lane i = u32 (ig_bytes g) (sd_offset (il_terms lane) + i * 12)"

definition term_start_at :: "index_geometry \<Rightarrow> index_lane \<Rightarrow> nat \<Rightarrow> nat" where
  "term_start_at g lane i = u32 (ig_bytes g) (sd_offset (il_terms lane) + i * 12 + 4)"

definition term_count_at :: "index_geometry \<Rightarrow> index_lane \<Rightarrow> nat \<Rightarrow> nat" where
  "term_count_at g lane i = u32 (ig_bytes g) (sd_offset (il_terms lane) + i * 12 + 8)"

definition posting_at :: "index_geometry \<Rightarrow> index_lane \<Rightarrow> nat \<Rightarrow> nat" where
  "posting_at g lane k = u32 (ig_bytes g) (sd_offset (il_postings lane) + k * 4)"

definition term_row :: "index_geometry \<Rightarrow> index_lane \<Rightarrow> int \<Rightarrow> nat option" where
  "term_row g lane termId = find (\<lambda>i. int (term_id_at g lane i) = termId) [0..<sd_count (il_terms lane)]"

definition row_postings :: "index_geometry \<Rightarrow> index_lane \<Rightarrow> nat \<Rightarrow> nat list" where
  "row_postings g lane i =
     map (posting_at g lane) [term_start_at g lane i..<term_start_at g lane i + term_count_at g lane i]"

definition term_postings :: "index_geometry \<Rightarrow> index_lane \<Rightarrow> int \<Rightarrow> nat list" where
  "term_postings g lane termId = (case term_row g lane termId of None \<Rightarrow> [] | Some i \<Rightarrow> row_postings g lane i)"

lemma lane_row:
  assumes "lane_ok g lane" "i < sd_count (il_terms lane)"
  shows "sd_offset (il_terms lane) + i * 12 + 12 \<le> length (ig_bytes g)"
    "term_start_at g lane i + term_count_at g lane i \<le> sd_count (il_postings lane)"
  using assms by (auto simp: lane_ok_def term_start_at_def term_count_at_def Let_def)

lemma lane_posting:
  assumes "lane_ok g lane" "k < sd_count (il_postings lane)"
  shows "getUint32 (ig_bytes g) (sd_offset (il_postings lane) + k * 4) = Ok (posting_at g lane k)"
    "posting_at g lane k < ig_nodeCount g"
  using assms by (auto simp: lane_ok_def posting_at_def u32_def Let_def)

lemma termRun_spec:
  assumes "lane_ok g lane"
  shows "termRun g lane termId =
    Ok (map_option (\<lambda>i. (term_start_at g lane i, term_count_at g lane i)) (term_row g lane termId))"
proof -
  let ?n = "sd_count (il_terms lane)"
  have search: "search_loop (term_probe g lane) (<) termId 0 (int ?n - 1) = Ok (term_row g lane termId)"
    unfolding term_row_def
  proof (rule search_loop_find)
    fix i assume "i < ?n"
    then show "term_probe g lane i = Ok (int (term_id_at g lane i))"
      using lane_row(1) [OF assms, of i]
      by (auto simp: term_probe_def term_id_at_def u32_def CONTEXT_INDEX_TERM_ROW_BYTES_def TERM_ID_AT_def)
  next
    fix i j assume "i < j" "j < ?n"
    then show "int (term_id_at g lane i) < int (term_id_at g lane j)"
      using assms by (simp add: lane_ok_def term_id_at_def Let_def)
  qed auto
  have inside: "\<And>i. term_row g lane termId = Some i \<Longrightarrow> sd_offset (il_terms lane) + i * 12 + 12 \<le> length (ig_bytes g)"
    using lane_row(1) [OF assms] by (auto simp: term_row_def find_Some_iff)
  show ?thesis
  proof (cases "term_row g lane termId")
    case None
    with search show ?thesis by (simp add: termRun_def)
  next
    case (Some i)
    with inside have row: "sd_offset (il_terms lane) + i * 12 + 12 \<le> length (ig_bytes g)" by blast
    have "getUint32 (ig_bytes g) (sd_offset (il_terms lane) + i * 12 + 4) = Ok (term_start_at g lane i)"
      "getUint32 (ig_bytes g) (sd_offset (il_terms lane) + i * 12 + 8) = Ok (term_count_at g lane i)"
      using row by (simp_all add: term_start_at_def term_count_at_def u32_def)
    then show ?thesis using search Some
      by (simp add: termRun_def Let_def CONTEXT_INDEX_TERM_ROW_BYTES_def TERM_POSTING_START_AT_def
          TERM_POSTING_COUNT_AT_def del: getUint_Ok)
  qed
qed

lemma term_row_less: "term_row g lane termId = Some i \<Longrightarrow> i < sd_count (il_terms lane)"
  by (auto simp: term_row_def find_Some_iff)

lemma term_row_id: "term_row g lane termId = Some i \<Longrightarrow> int (term_id_at g lane i) = termId"
  by (auto simp: term_row_def find_Some_iff)

lemma row_postings_in_range:
  assumes "lane_ok g lane" "i < sd_count (il_terms lane)" "node \<in> set (row_postings g lane i)"
  shows "node < ig_nodeCount g"
  using assms lane_row(2) [OF assms(1,2)] lane_posting(2) [OF assms(1)] by (fastforce simp: row_postings_def)

lemma term_postings_in_range:
  "lane_ok g lane \<Longrightarrow> node \<in> set (term_postings g lane termId) \<Longrightarrow> node < ig_nodeCount g"
  by (cases "term_row g lane termId")
    (auto simp: term_postings_def intro: row_postings_in_range [OF _ term_row_less])

lemma postingsFor_spec:
  assumes "lane_ok g lane"
  shows "\<exists>s. postingsFor g lane termId = Ok s \<and>
    map (\<lambda>k. slice_node g s (int k)) [0..<ps_length s] = map Ok (term_postings g lane termId)"
proof (cases "term_row g lane termId")
  case None
  then show ?thesis
    by (auto simp: postingsFor_def termRun_spec [OF assms] term_postings_def EMPTY_POSTINGS_def)
next
  case (Some i)
  have i: "i < sd_count (il_terms lane)" using Some by (rule term_row_less)
  have t: "0 \<le> termId" using term_row_id [OF Some] by linarith
  let ?start = "term_start_at g lane i" and ?n = "term_count_at g lane i"
  let ?s = "\<lparr>ps_base = sd_offset (il_postings lane) + ?start * 4, ps_length = ?n\<rparr>"
  have "slice_node g ?s (int k) = Ok (posting_at g lane (?start + k))" if "k < ?n" for k
  proof -
    have "?start + k < sd_count (il_postings lane)" using lane_row(2) [OF assms i] that by linarith
    note read = lane_posting(1) [OF assms this]
    have pos: "sd_offset (il_postings lane) + ?start * 4 + k * 4 = sd_offset (il_postings lane) + (?start + k) * 4"
      by simp
    show ?thesis using that by (simp only: slice_node_def posting_slice.simps pos nat_int read) simp
  qed
  then have "map (\<lambda>k. slice_node g ?s (int k)) [0..<?n] = map (\<lambda>k. Ok (posting_at g lane (?start + k))) [0..<?n]"
    by (intro map_cong) auto
  also have "\<dots> = map Ok (row_postings g lane i)"
    by (simp add: row_postings_def map_add_upt [of ?start ?n, symmetric] add.commute o_def)
  finally have read: "map (\<lambda>k. slice_node g ?s (int k)) [0..<?n] = map Ok (row_postings g lane i)" .
  show ?thesis
  proof (cases "?n = 0")
    case True
    with Some t show ?thesis
      by (simp add: postingsFor_def termRun_spec [OF assms] term_postings_def row_postings_def EMPTY_POSTINGS_def)
  next
    case False
    with Some t have "postingsFor g lane termId = Ok ?s"
      by (simp add: postingsFor_def termRun_spec [OF assms])
    with read Some show ?thesis by (simp add: term_postings_def)
  qed
qed

subsection \<open>The merge is a ranked sum\<close>

definition term_weight :: "index_geometry \<Rightarrow> index_lane \<Rightarrow> int \<Rightarrow> int" where
  "term_weight g lane termId = rarityWeight (ig_nodeCount g) (length (term_postings g lane termId))"

definition term_hits :: "index_geometry \<Rightarrow> index_lane \<Rightarrow> nat \<Rightarrow> int \<Rightarrow> (nat \<times> int) list" where
  "term_hits g lane perTerm termId =
     map (\<lambda>node. (node, term_weight g lane termId)) (take perTerm (term_postings g lane termId))"

definition hit_score :: "(nat \<times> int) list \<Rightarrow> nat \<Rightarrow> int" where
  "hit_score hits node = sum_list (map snd (filter (\<lambda>h. fst h = node) hits))"

text \<open>What the merge is meant to be: every term once, every posting of its capped run one hit.\<close>

definition merge_reference :: "index_geometry \<Rightarrow> index_lane \<Rightarrow> int list \<Rightarrow> query_bounds \<Rightarrow> scored_slice" where
  "merge_reference g lane termIds plan =
     (let perTerm = qb_postingCapPerTerm plan; budget = nat (qb_candidateBudget plan); terms = sort (remdups termIds);
          hits = concat (map (term_hits g lane perTerm) terms);
          ranked = sort_key (score_rank (hit_score hits)) (remdups (map fst hits))
      in if budget = 0 \<or> hits = [] then EMPTY_SCORED_POSTINGS
         else \<lparr>ss_postings = map (\<lambda>node. (int node, to_int32 (hit_score hits node))) (take budget ranked),
               ss_matchedTerms = length (filter (\<lambda>t. term_postings g lane t \<noteq> []) terms),
               ss_truncated = list_ex (\<lambda>t. perTerm < length (term_postings g lane t)) terms \<or>
                              budget < length ranked\<rparr>)"

definition merged_to :: "(nat \<times> int) list \<Rightarrow> merge_state \<Rightarrow> bool" where
  "merged_to hits m \<longleftrightarrow>
     distinct (mg_order m) \<and> set (mg_order m) = fst ` set hits \<and>
     (\<forall>node \<in> set (mg_order m). mg_score m node = hit_score hits node)"

lemma hit_score_snoc [simp]: "hit_score (hits @ [(node, w)]) x = hit_score hits x + (if x = node then w else 0)"
  by (simp add: hit_score_def)

lemma hit_score_none: "node \<notin> fst ` set hits \<Longrightarrow> hit_score hits node = 0"
  by (induction hits) (auto simp: hit_score_def)

lemma add_score_merged: "merged_to hits m \<Longrightarrow> merged_to (hits @ [(node, w)]) (add_score w node m)"
  by (auto simp: merged_to_def add_score_def hit_score_none)

lemma fold_add_score_merged:
  "merged_to hits m \<Longrightarrow> merged_to (hits @ map (\<lambda>node. (node, w)) nodes) (fold (add_score w) nodes m)"
proof (induction nodes arbitrary: hits m)
  case (Cons node nodes)
  from Cons.IH [OF add_score_merged [OF Cons.prems]] show ?case by simp
qed simp

lemma fold_add_score_fields [simp]:
  "mg_matched (fold (add_score w) nodes m) = mg_matched m"
  "mg_truncated (fold (add_score w) nodes m) = mg_truncated m"
  by (induction nodes arbitrary: m) (simp_all add: add_score_def)

lemma each_row_fold:
  "(\<And>x s. x \<in> set xs \<Longrightarrow> f x s = Ok (h x s)) \<Longrightarrow> each_row f xs s = Ok (fold h xs s)"
  by (induction xs arbitrary: s) simp_all

definition merge_step :: "index_geometry \<Rightarrow> index_lane \<Rightarrow> nat \<Rightarrow> int \<Rightarrow> merge_state \<Rightarrow> merge_state" where
  "merge_step g lane perTerm termId m =
     (let ps = term_postings g lane termId
      in if ps = [] then m
         else fold (add_score (term_weight g lane termId)) (take perTerm ps)
                (m\<lparr>mg_matched := mg_matched m + 1, mg_truncated := mg_truncated m \<or> perTerm < length ps\<rparr>))"

lemma merge_term_step:
  assumes "lane_ok g lane"
  shows "merge_term g lane perTerm termId m = Ok (merge_step g lane perTerm termId m)"
proof (cases "term_row g lane termId")
  case None
  then show ?thesis
    by (simp add: merge_term_def termRun_spec [OF assms] merge_step_def term_postings_def)
next
  case (Some i)
  let ?start = "term_start_at g lane i" and ?n = "term_count_at g lane i"
  let ?w = "rarityWeight (ig_nodeCount g) ?n"
  let ?m = "m\<lparr>mg_matched := mg_matched m + 1, mg_truncated := mg_truncated m \<or> min ?n perTerm < ?n\<rparr>"
  have ps: "term_postings g lane termId = row_postings g lane i" "length (row_postings g lane i) = ?n"
    using Some by (simp_all add: term_postings_def row_postings_def)
  have read: "getUint32 (ig_bytes g) (sd_offset (il_postings lane) + (?start + k) * 4) =
      Ok (posting_at g lane (?start + k))" if "k < ?n" for k
    by (rule lane_posting(1) [OF assms]) (use lane_row(2) [OF assms term_row_less [OF Some]] that in linarith)
  have taken: "take perTerm (row_postings g lane i) = map (\<lambda>k. posting_at g lane (?start + k)) [0..<min ?n perTerm]"
    by (intro nth_equalityI) (auto simp: row_postings_def)
  have "each_row (\<lambda>k acc. bind_outcome (getUint32 (ig_bytes g) (sd_offset (il_postings lane) + (?start + k) * 4))
        (\<lambda>node. Ok (add_score ?w node acc))) [0..<min ?n perTerm] ?m =
      Ok (fold (\<lambda>k. add_score ?w (posting_at g lane (?start + k))) [0..<min ?n perTerm] ?m)"
  proof (rule each_row_fold)
    fix k acc assume "k \<in> set [0..<min ?n perTerm]"
    then have "k < ?n" by simp
    from read [OF this] show "bind_outcome (getUint32 (ig_bytes g) (sd_offset (il_postings lane) + (?start + k) * 4))
        (\<lambda>node. Ok (add_score ?w node acc)) = Ok (add_score ?w (posting_at g lane (?start + k)) acc)"
      by (simp only: bind_outcome.simps)
  qed
  also have "fold (\<lambda>k. add_score ?w (posting_at g lane (?start + k))) [0..<min ?n perTerm] ?m =
      fold (add_score ?w) (take perTerm (row_postings g lane i)) ?m"
    by (simp add: taken fold_map o_def)
  finally show ?thesis using Some ps
    by (cases "?n = 0")
      (auto simp: merge_term_def termRun_spec [OF assms] merge_step_def term_weight_def Let_def min_less_iff_disj)
qed

lemma merge_step_merged:
  assumes "merged_to hits m"
  shows "merged_to (hits @ term_hits g lane perTerm t) (merge_step g lane perTerm t m)"
    "mg_matched (merge_step g lane perTerm t m) = mg_matched m + (if term_postings g lane t = [] then 0 else 1)"
    "mg_truncated (merge_step g lane perTerm t m) \<longleftrightarrow> mg_truncated m \<or> perTerm < length (term_postings g lane t)"
proof -
  have "merged_to hits (m\<lparr>mg_matched := a, mg_truncated := b\<rparr>)" for a b
    using assms by (simp add: merged_to_def)
  from fold_add_score_merged [OF this] assms
  show "merged_to (hits @ term_hits g lane perTerm t) (merge_step g lane perTerm t m)"
    by (simp add: merge_step_def term_hits_def Let_def)
qed (simp_all add: merge_step_def Let_def)

lemma fold_merge_step:
  assumes "merged_to hits m"
  shows "merged_to (hits @ concat (map (term_hits g lane perTerm) ts)) (fold (merge_step g lane perTerm) ts m) \<and>
    mg_matched (fold (merge_step g lane perTerm) ts m) =
      mg_matched m + length (filter (\<lambda>t. term_postings g lane t \<noteq> []) ts) \<and>
    (mg_truncated (fold (merge_step g lane perTerm) ts m) \<longleftrightarrow>
      mg_truncated m \<or> list_ex (\<lambda>t. perTerm < length (term_postings g lane t)) ts)"
  using assms
proof (induction ts arbitrary: hits m)
  case (Cons t ts)
  note s = merge_step_merged [OF Cons.prems, of g lane perTerm t]
  from Cons.IH [OF s(1)] s(2,3) show ?case by auto
qed simp

lemma score_rank_inj: "inj_on (score_rank f) A"
  by (auto simp: inj_on_def score_rank_def)

lemma ranked_order:
  assumes "merged_to hits m"
  shows "sort_key (score_rank (mg_score m)) (mg_order m) =
    sort_key (score_rank (hit_score hits)) (remdups (map fst hits))"
proof -
  have s: "set (mg_order m) = set (remdups (map fst hits))" "distinct (mg_order m)"
    using assms by (auto simp: merged_to_def)
  then have "mset (mg_order m) = mset (remdups (map fst hits))"
    by (metis distinct_remdups set_eq_iff_mset_eq_distinct)
  then have "sort_key (score_rank (hit_score hits)) (mg_order m) =
      sort_key (score_rank (hit_score hits)) (remdups (map fst hits))"
    by (intro sort_key_inj_key_eq score_rank_inj) simp_all
  moreover have "sort_key (score_rank (mg_score m)) (mg_order m) = sort_key (score_rank (hit_score hits)) (mg_order m)"
  proof (rule sort_key_inj_key_eq)
    show "sorted (map (score_rank (mg_score m)) (sort_key (score_rank (hit_score hits)) (mg_order m)))"
    proof -
      have eq: "map (score_rank (mg_score m)) (sort_key (score_rank (hit_score hits)) (mg_order m)) =
          map (score_rank (hit_score hits)) (sort_key (score_rank (hit_score hits)) (mg_order m))"
        using assms by (intro map_cong) (auto simp: merged_to_def score_rank_def)
      show ?thesis unfolding eq by (rule sorted_sort_key)
    qed
  qed (auto intro: score_rank_inj)
  ultimately show ?thesis by simp
qed

lemma mergePostings_spec:
  assumes "lane_ok g lane"
  shows "mergePostings g lane termIds plan = Ok (merge_reference g lane termIds plan)"
proof -
  let ?perTerm = "qb_postingCapPerTerm plan" and ?terms = "sort (remdups termIds)"
  let ?start = "\<lparr>mg_order = [], mg_score = (\<lambda>_. 0), mg_matched = 0, mg_truncated = False\<rparr>"
  let ?m = "fold (merge_step g lane ?perTerm) ?terms ?start" and ?hits = "concat (map (term_hits g lane ?perTerm) ?terms)"
  have run: "each_row (merge_term g lane ?perTerm) ?terms ?start = Ok ?m"
    by (rule each_row_fold) (rule merge_term_step [OF assms])
  have m: "merged_to ?hits ?m"
    "mg_matched ?m = length (filter (\<lambda>t. term_postings g lane t \<noteq> []) ?terms)"
    "mg_truncated ?m \<longleftrightarrow> list_ex (\<lambda>t. ?perTerm < length (term_postings g lane t)) ?terms"
    using fold_merge_step [of "[]" ?start g lane ?perTerm ?terms] by (simp_all add: merged_to_def)
  have empty: "mg_order ?m = [] \<longleftrightarrow> ?hits = []" using m(1) by (auto simp: merged_to_def)
  have none: "?hits = []" if "sd_count (il_terms lane) = 0 \<or> ?perTerm = 0 \<or> termIds = []"
    using that by (auto simp: term_hits_def term_postings_def term_row_def)
  show ?thesis
  proof (cases "sd_count (il_terms lane) = 0 \<or> ?perTerm = 0 \<or> termIds = [] \<or> nat (qb_candidateBudget plan) = 0")
    case True
    then show ?thesis using none by (auto simp: mergePostings_def merge_reference_def Let_def)
  next
    case False
    let ?ranked = "sort_key (score_rank (hit_score ?hits)) (remdups (map fst ?hits))"
    have "map (\<lambda>node. (int node, to_int32 (mg_score ?m node))) (take b ?ranked) =
        map (\<lambda>node. (int node, to_int32 (hit_score ?hits node))) (take b ?ranked)" for b
    proof (intro map_cong refl)
      fix node assume "node \<in> set (take b ?ranked)"
      then have "node \<in> set (mg_order ?m)" using m(1) by (auto simp: merged_to_def dest: in_set_takeD)
      then show "(int node, to_int32 (mg_score ?m node)) = (int node, to_int32 (hit_score ?hits node))"
        using m(1) by (simp add: merged_to_def)
    qed
    then have "merged_slice (nat (qb_candidateBudget plan)) ?m = merge_reference g lane termIds plan"
      using False unfolding merged_slice_def merge_reference_def Let_def empty ranked_order [OF m(1)] m(2,3)
      by simp
    then show ?thesis using False run by (simp add: mergePostings_def Let_def)
  qed
qed

subsection \<open>Bounds\<close>

text \<open>The division happens in doubles; below the node limit it cannot round up to the scale.\<close>

lemma rarityWeight_bounds:
  assumes "nodeCount \<le> maxNodeCount"
  shows "1 \<le> rarityWeight nodeCount n" "rarityWeight nodeCount n \<le> CONTEXT_INDEX_FIXED_POINT_SCALE"
proof -
  let ?rare = "int nodeCount - int (min n nodeCount)"
  let ?x = "of_int (1000 * ?rare) / of_nat nodeCount :: rat"
  have "0 \<le> \<lfloor>fl ?x\<rfloor> \<and> \<lfloor>fl ?x\<rfloor> < 1000" if pos: "0 < nodeCount" "0 < n"
  proof -
    have nonneg: "0 \<le> ?x" by simp
    have "?rare \<le> int nodeCount - 1" using pos by simp
    then have "(of_int (1000 * ?rare) :: rat) \<le> of_int (1000 * (int nodeCount - 1))"
      unfolding of_int_le_iff by (rule mult_left_mono) simp
    then have "?x \<le> of_int (1000 * (int nodeCount - 1)) / of_nat nodeCount"
      using pos by (intro divide_right_mono) simp_all
    also have "\<dots> = 1000 - 1000 / of_nat nodeCount" using pos by (simp add: field_simps)
    also have "\<dots> \<le> 1000 - 1000 / 2 ^ 24"
      using assms pos by (intro diff_left_mono divide_left_mono) (simp_all add: maxNodeCount_def of_nat_le_iff)
    finally have top: "?x \<le> 1000 - 1000 / 2 ^ 24" .
    have "fl ?x \<le> ?x + ?x / 2 ^ 53" using fl_close [OF nonneg] by linarith
    also have "\<dots> < 1000"
    proof -
      have "y + y / 2 ^ 53 < 1000" if "y \<le> 1000 - 1000 / 2 ^ 24" for y :: rat
        using that by (simp add: field_simps)
      from this [OF top] show ?thesis .
    qed
    finally have "fl ?x < 1000" .
    then show ?thesis using fl_nonneg [OF nonneg] by (simp add: floor_less_iff)
  qed
  then show "1 \<le> rarityWeight nodeCount n" "rarityWeight nodeCount n \<le> CONTEXT_INDEX_FIXED_POINT_SCALE"
    by (auto simp: rarityWeight_def Let_def CONTEXT_INDEX_FIXED_POINT_SCALE_def)
qed

lemma merge_reference_bounds:
  fixes plan termIds
  assumes "lane_ok g lane"
  defines "s \<equiv> merge_reference g lane termIds plan"
  shows "distinct (map fst (ss_postings s))" "set (map fst (ss_postings s)) \<subseteq> {0..<int (ig_nodeCount g)}"
    "length (ss_postings s) \<le> nat (qb_candidateBudget plan)"
proof -
  let ?hits = "concat (map (term_hits g lane (qb_postingCapPerTerm plan)) (sort (remdups termIds)))"
  let ?ranked = "sort_key (score_rank (hit_score ?hits)) (remdups (map fst ?hits))"
  have "set (map fst ?hits) \<subseteq> {..<ig_nodeCount g}"
    using term_postings_in_range [OF assms(1)] by (auto simp: term_hits_def dest: in_set_takeD)
  then have r: "set (take b ?ranked) \<subseteq> {..<ig_nodeCount g}" for b
    using set_take_subset [of b ?ranked] by auto
  have cases: "ss_postings s = [] \<or>
    map fst (ss_postings s) = map int (take (nat (qb_candidateBudget plan)) ?ranked)"
    by (simp add: s_def merge_reference_def EMPTY_SCORED_POSTINGS_def Let_def)
  have d: "distinct (map int (take b ?ranked))" for b by (simp add: distinct_map)
  show "distinct (map fst (ss_postings s))" using cases d by auto
  show "set (map fst (ss_postings s)) \<subseteq> {0..<int (ig_nodeCount g)}" using cases r by fastforce
  show "length (ss_postings s) \<le> nat (qb_candidateBudget plan)"
    by (simp add: s_def merge_reference_def EMPTY_SCORED_POSTINGS_def Let_def)
qed

text \<open>C36: on an opened index, merging query terms never reads outside the buffer and is the ranked sum
  it is meant to be: every distinct term contributes its weight to the nodes of its capped posting run,
  and the nodes come best score first, ties by node number, cut at the candidate budget; they are
  distinct and in range.\<close>

theorem opened_index_merge:
  "case openContextIndex bs options of
     Ok r \<Rightarrow>
       let g = br_geometry r; s = merge_reference g (ig_lexicon g) termIds plan in
       mergePostings g (ig_lexicon g) termIds plan = Ok s \<and>
       mergePostings g (ig_coarse g) termIds plan = Ok (merge_reference g (ig_coarse g) termIds plan) \<and>
       distinct (map fst (ss_postings s)) \<and> set (map fst (ss_postings s)) \<subseteq> {0..<int (ig_nodeCount g)} \<and>
       length (ss_postings s) \<le> nat (qb_candidateBudget plan)
   | _ \<Rightarrow> True"
proof (cases "openContextIndex bs options")
  case (Ok r)
  then have "lane_ok (br_geometry r) (ig_lexicon (br_geometry r))" "lane_ok (br_geometry r) (ig_coarse (br_geometry r))"
    using open_index_ok [OF Ok] by (simp_all add: index_ok_def)
  then show ?thesis using Ok mergePostings_spec merge_reference_bounds by (simp add: Let_def)
qed simp_all

text \<open>The weight of a term stays between one and the fixed-point scale for every document
  frequency, although it is computed by a division of doubles.\<close>

lemma rarity_weight_within_scale:
  "nodeCount \<le> maxNodeCount \<Longrightarrow>
     1 \<le> rarityWeight nodeCount documentFrequency \<and>
     rarityWeight nodeCount documentFrequency \<le> CONTEXT_INDEX_FIXED_POINT_SCALE"
  using rarityWeight_bounds by simp

lemma rarity_weight_within_scale_witness:
  "1 \<le> rarityWeight 3 1 \<and> rarityWeight 3 1 \<le> CONTEXT_INDEX_FIXED_POINT_SCALE"
  using rarity_weight_within_scale [of 3 1] by (simp add: maxNodeCount_def)

end
