(* ===== verification/Index_Hydrate.thy ===== *)
theory Index_Hydrate
  imports Index_Names Index_Lookup Index_Writer
begin

text \<open>
  The reader class of \<open>runtime-index/reader.ts\<close> and the materialization of whole nodes and edges in
  \<open>runtime-index/reader-hydrate.ts\<close>.  A caller's index is an integer; one that is not an integer is
  refused by the same test as one out of range.
\<close>

subsection \<open>The reader\<close>

text \<open>The reader object: its geometry, and the incoming index built on first use.\<close>

record reader_state =
  rs_reader :: binary_reader
  rs_edgeSource :: "nat list option"

definition fresh_reader :: "binary_reader \<Rightarrow> reader_state" where
  "fresh_reader r = \<lparr>rs_reader = r, rs_edgeSource = None\<rparr>"

definition requireNode :: "index_geometry \<Rightarrow> int \<Rightarrow> unit outcome" where
  "requireNode g node = (if node < 0 \<or> int (ig_nodeCount g) \<le> node then Thrown RangeError else Ok ())"

definition requireEdge :: "index_geometry \<Rightarrow> int \<Rightarrow> unit outcome" where
  "requireEdge g edge = (if edge < 0 \<or> int (ig_edgeCount g) \<le> edge then Thrown RangeError else Ok ())"

definition nodeRow :: "index_geometry \<Rightarrow> int \<Rightarrow> nat outcome" where
  "nodeRow g node =
     bind_outcome (requireNode g node) (\<lambda>_. Ok (ig_nodeBase g + nat node * CONTEXT_INDEX_NODE_ROW_BYTES))"

definition nodeHasName :: "index_geometry \<Rightarrow> int \<Rightarrow> units \<Rightarrow> bool outcome" where
  "nodeHasName g node name = bind_outcome (nodeRow g node) (\<lambda>row. nodeHasNameAt g row (contextIndexNameProbe name))"

definition reader_outgoing :: "reader_state \<Rightarrow> int \<Rightarrow> 32 word \<Rightarrow> edge_cursor outcome" where
  "reader_outgoing rs node profileMask =
     (let g = br_geometry (rs_reader rs)
      in bind_outcome (requireNode g node) (\<lambda>_. openOutgoingCursor g (nat node) profileMask))"

definition reader_incoming :: "reader_state \<Rightarrow> int \<Rightarrow> 32 word \<Rightarrow> (edge_cursor \<times> reader_state) outcome" where
  "reader_incoming rs node profileMask =
     (let g = br_geometry (rs_reader rs)
      in bind_outcome (requireNode g node) (\<lambda>_.
         bind_outcome (case rs_edgeSource rs of None \<Rightarrow> buildEdgeSourceIndex g | Some sources \<Rightarrow> Ok sources) (\<lambda>sources.
         bind_outcome (openIncomingCursor g sources (nat node) profileMask) (\<lambda>c.
           Ok (c, rs\<lparr>rs_edgeSource := Some sources\<rparr>)))))"

definition degree_at :: "index_geometry \<Rightarrow> nat \<Rightarrow> int \<Rightarrow> int outcome" where
  "degree_at g offsetBase node =
     bind_outcome (requireNode g node) (\<lambda>_.
     bind_outcome (getUint32 (ig_bytes g) (offsetBase + (nat node + 1) * 4)) (\<lambda>ending.
     bind_outcome (getUint32 (ig_bytes g) (offsetBase + nat node * 4)) (\<lambda>start.
       Ok (int ending - int start))))"

definition outDegree :: "index_geometry \<Rightarrow> int \<Rightarrow> int outcome" where
  "outDegree g node = degree_at g (ig_outOffsetBase g) node"

definition inDegree :: "index_geometry \<Rightarrow> int \<Rightarrow> int outcome" where
  "inDegree g node = degree_at g (ig_inOffsetBase g) node"

text \<open>A column of a node's row.\<close>

definition node_field :: "index_geometry \<Rightarrow> nat \<Rightarrow> nat \<Rightarrow> int \<Rightarrow> nat outcome" where
  "node_field g width field node = bind_outcome (nodeRow g node) (\<lambda>row. getUint width (ig_bytes g) (row + field))"

definition reader_nodeFlags :: "index_geometry \<Rightarrow> int \<Rightarrow> nat outcome" where
  "reader_nodeFlags g = node_field g 1 NODE_FLAGS_AT"

definition reader_nodeTokenCost :: "index_geometry \<Rightarrow> int \<Rightarrow> nat outcome" where
  "reader_nodeTokenCost g = node_field g 4 NODE_TOKEN_COST_AT"

definition reader_nodeGroup :: "index_geometry \<Rightarrow> int \<Rightarrow> nat outcome" where
  "reader_nodeGroup g = node_field g 4 NODE_GROUP_AT"

definition reader_nodeTrust :: "index_geometry \<Rightarrow> int \<Rightarrow> nat outcome" where
  "reader_nodeTrust g = node_field g 2 NODE_TRUST_AT"

definition reader_nodeKind :: "index_geometry \<Rightarrow> int \<Rightarrow> nat outcome" where
  "reader_nodeKind g = node_field g 1 NODE_KIND_AT"

definition reader_nodeScoreFields :: "index_geometry \<Rightarrow> int \<Rightarrow> score_fields outcome" where
  "reader_nodeScoreFields g node =
     bind_outcome (nodeRow g node) (\<lambda>row.
     bind_outcome (getUint8 (ig_bytes g) (row + NODE_KIND_AT)) (\<lambda>kind.
     bind_outcome (getUint8 (ig_bytes g) (row + NODE_FRESHNESS_AT)) (\<lambda>freshness.
     bind_outcome (getUint8 (ig_bytes g) (row + NODE_RISK_AT)) (\<lambda>risk.
     bind_outcome (getUint8 (ig_bytes g) (row + NODE_FLAGS_AT)) (\<lambda>rowFlags.
     bind_outcome (getUint16 (ig_bytes g) (row + NODE_TRUST_AT)) (\<lambda>trust.
     bind_outcome (getUint32 (ig_bytes g) (row + NODE_TOKEN_COST_AT)) (\<lambda>tokenCost.
     bind_outcome (getUint32 (ig_bytes g) (row + NODE_GROUP_AT)) (\<lambda>rowGroup.
     bind_outcome (outDegree g node) (\<lambda>outgoing.
     bind_outcome (inDegree g node) (\<lambda>incoming.
       Ok \<lparr>sf_kind = kind, sf_freshness = freshness, sf_risk = risk, sf_flags = word_of_nat rowFlags,
           sf_trust = int trust, sf_tokenCost = int tokenCost, sf_group = int rowGroup,
           sf_outDegree = nat outgoing, sf_inDegree = nat incoming\<rparr>))))))))))"

subsection \<open>Whole nodes and edges\<close>

record provenance_view =
  pv_path :: units
  pv_line :: "nat option"
  pv_hash :: units
  pv_extractor :: "units option"

record node_view =
  nv_node :: int
  nv_id :: units
  nv_kind :: "node_kind option"
  nv_label :: units
  nv_path :: "units option"
  nv_line :: "nat option"
  nv_column :: "nat option"
  nv_contentHash :: "units option"
  nv_trust :: rat
  nv_freshness :: "freshness option"
  nv_risk :: "risk option"
  nv_tokenCost :: nat
  nv_flags :: nat
  nv_group :: nat
  nv_metadata :: "(units \<times> metadata_value) list"

record hydrated_edge =
  he_edge :: int
  he_target :: nat
  he_type :: "edge_type option"
  he_confidence :: "edge_confidence option"
  he_flags :: nat
  he_profileMask :: nat
  he_provenance :: provenance_view

text \<open>An element of an array beyond its end is \<open>undefined\<close>.\<close>

definition element :: "'a list \<Rightarrow> nat \<Rightarrow> 'a option" where
  "element xs i = (if i < length xs then Some (xs ! i) else None)"

definition optional_text :: "index_geometry \<Rightarrow> nat \<Rightarrow> units option outcome" where
  "optional_text g v =
     (if v = CONTEXT_INDEX_NO_VALUE then Ok None else bind_outcome (stringAt g v) (\<lambda>s. Ok (Some s)))"

definition optional_number :: "nat \<Rightarrow> nat option" where
  "optional_number v = (if v = CONTEXT_INDEX_NO_VALUE then None else Some v)"

text \<open>
  The tags of a metadata row.  A number is represented by the text \<open>String\<close> gave it, so \<open>Number(text)\<close>
  is the number of that text.
\<close>

definition contextIndexMetadataValue :: "nat \<Rightarrow> units \<Rightarrow> metadata_value" where
  "contextIndexMetadataValue type text =
     (if type = 1 then MV_boolean (text = units_of ''true'')
      else if type = 2 then MV_number text
      else if type = 3 then MV_null
      else MV_string text)"

text \<open>
  Assigning a property of an object literal: an own property, except that \<open>__proto__\<close> sets the prototype
  and leaves no own property.
\<close>

definition PROTO :: units where "PROTO = units_of ''__proto__''"

definition set_property :: "units \<Rightarrow> metadata_value \<Rightarrow> (units \<times> metadata_value) list \<Rightarrow> (units \<times> metadata_value) list" where
  "set_property key v obj = (if key = PROTO then obj else AList.update key v obj)"

definition add_metadata_row ::
  "units \<Rightarrow> nat \<Rightarrow> units \<Rightarrow> (units \<times> metadata_value) list \<Rightarrow> (units \<times> metadata_value) list" where
  "add_metadata_row key type text metadata =
     (if type = 5 then set_property key (MV_array []) metadata
      else if type = METADATA_ARRAY_ELEMENT then
        (case map_of metadata key of
           Some (MV_array run) \<Rightarrow> set_property key (MV_array (run @ [text])) metadata
         | _ \<Rightarrow> set_property key (MV_array [text]) metadata)
      else set_property key (contextIndexMetadataValue type text) metadata)"

text \<open>The leftmost row of a node, by search.\<close>

function first_row :: "index_geometry \<Rightarrow> nat \<Rightarrow> int \<Rightarrow> int \<Rightarrow> int \<Rightarrow> int outcome" where
  "first_row g node low high found =
     (if low \<le> high then
        let mid = (low + high) div 2
        in bind_outcome (getUint32 (ig_bytes g)
               (ig_metadataBase g + nat mid * CONTEXT_INDEX_METADATA_ROW_BYTES + METADATA_NODE_AT)) (\<lambda>probe.
             if node \<le> probe then first_row g node low (mid - 1) (if probe = node then mid else found)
             else first_row g node (mid + 1) high found)
      else Ok found)"
  by pat_completeness auto
termination by (relation "measure (\<lambda>(g, node, low, high, found). nat (high - low + 1))") auto

declare first_row.simps [simp del]

function metadata_run ::
  "index_geometry \<Rightarrow> nat \<Rightarrow> nat \<Rightarrow> (units \<times> metadata_value) list \<Rightarrow> (units \<times> metadata_value) list outcome" where
  "metadata_run g node r metadata =
     (if r < ig_metadataCount g then
        let pos = ig_metadataBase g + r * CONTEXT_INDEX_METADATA_ROW_BYTES; view = ig_bytes g
        in bind_outcome (getUint32 view (pos + METADATA_NODE_AT)) (\<lambda>owner.
             if owner \<noteq> node then Ok metadata
             else bind_outcome (getUint32 view (pos + METADATA_KEY_AT)) (\<lambda>keyId.
                  bind_outcome (stringAt g keyId) (\<lambda>key.
                  bind_outcome (getUint16 view (pos + METADATA_TYPE_AT)) (\<lambda>type.
                  bind_outcome (getUint32 view (pos + METADATA_VALUE_AT)) (\<lambda>valueId.
                  bind_outcome (stringAt g valueId) (\<lambda>text.
                    metadata_run g node (r + 1) (add_metadata_row key type text metadata)))))))
      else Ok metadata)"
  by pat_completeness auto
termination by (relation "measure (\<lambda>(g, node, r, metadata). ig_metadataCount g - r)") auto

declare metadata_run.simps [simp del]

definition metadataOf :: "index_geometry \<Rightarrow> nat \<Rightarrow> (units \<times> metadata_value) list outcome" where
  "metadataOf g node =
     bind_outcome (first_row g node 0 (int (ig_metadataCount g) - 1) (- 1)) (\<lambda>first.
       if first < 0 then Ok [] else metadata_run g node (nat first) [])"

definition hydrateNodeAt :: "index_geometry \<Rightarrow> nat \<Rightarrow> nat \<Rightarrow> node_view outcome" where
  "hydrateNodeAt g node pos =
     (let view = ig_bytes g
      in bind_outcome (getUint32 view (pos + NODE_PATH_AT)) (\<lambda>pathId.
         bind_outcome (getUint32 view (pos + NODE_LINE_AT)) (\<lambda>line.
         bind_outcome (getUint32 view (pos + NODE_COLUMN_AT)) (\<lambda>column.
         bind_outcome (getUint32 view (pos + NODE_CONTENT_HASH_AT)) (\<lambda>contentHashId.
         bind_outcome (getUint32 view (pos + NODE_ID_AT)) (\<lambda>idId.
         bind_outcome (stringAt g idId) (\<lambda>nodeId.
         bind_outcome (getUint8 view (pos + NODE_KIND_AT)) (\<lambda>kind.
         bind_outcome (getUint32 view (pos + NODE_LABEL_AT)) (\<lambda>labelId.
         bind_outcome (stringAt g labelId) (\<lambda>label.
         bind_outcome (optional_text g pathId) (\<lambda>path.
         bind_outcome (optional_text g contentHashId) (\<lambda>contentHash.
         bind_outcome (getUint16 view (pos + NODE_TRUST_AT)) (\<lambda>trust.
         bind_outcome (getUint8 view (pos + NODE_FRESHNESS_AT)) (\<lambda>freshness.
         bind_outcome (getUint8 view (pos + NODE_RISK_AT)) (\<lambda>risk.
         bind_outcome (getUint32 view (pos + NODE_TOKEN_COST_AT)) (\<lambda>tokenCost.
         bind_outcome (getUint8 view (pos + NODE_FLAGS_AT)) (\<lambda>rowFlags.
         bind_outcome (getUint32 view (pos + NODE_GROUP_AT)) (\<lambda>rowGroup.
         bind_outcome (metadataOf g node) (\<lambda>metadata.
           Ok \<lparr>nv_node = int node, nv_id = nodeId, nv_kind = element CONTEXT_GRAPH_NODE_KINDS kind, nv_label = label,
               nv_path = path, nv_line = optional_number line, nv_column = optional_number column,
               nv_contentHash = contentHash, nv_trust = dequantizeTrust (int trust),
               nv_freshness = element FRESHNESS_CODES freshness, nv_risk = element RISK_CODES risk,
               nv_tokenCost = tokenCost, nv_flags = rowFlags, nv_group = rowGroup, nv_metadata = metadata\<rparr>)))))))))))))))))))"

definition provenanceAt :: "index_geometry \<Rightarrow> nat \<Rightarrow> provenance_view outcome" where
  "provenanceAt g r =
     (let view = ig_bytes g; pos = ig_provenanceBase g + r * CONTEXT_INDEX_PROVENANCE_ROW_BYTES
      in bind_outcome (getUint32 view (pos + PROVENANCE_LINE_AT)) (\<lambda>line.
         bind_outcome (getUint32 view (pos + PROVENANCE_PATH_AT)) (\<lambda>pathId.
         bind_outcome (stringAt g pathId) (\<lambda>path.
         bind_outcome (getUint32 view (pos + PROVENANCE_HASH_AT)) (\<lambda>hashId.
         bind_outcome (stringAt g hashId) (\<lambda>hash.
         bind_outcome (getUint32 view (pos + PROVENANCE_EXTRACTOR_AT)) (\<lambda>extractorId.
         bind_outcome (stringAt g extractorId) (\<lambda>extractor.
           Ok \<lparr>pv_path = path, pv_line = optional_number line, pv_hash = hash, pv_extractor = Some extractor\<rparr>))))))))"

definition hydrateEdgeAt :: "index_geometry \<Rightarrow> nat \<Rightarrow> hydrated_edge outcome" where
  "hydrateEdgeAt g edge =
     (let view = ig_bytes g; pos = ig_edgeBase g + edge * CONTEXT_INDEX_EDGE_ROW_BYTES
      in bind_outcome (getUint32 view (pos + EDGE_TARGET_AT)) (\<lambda>target.
         bind_outcome (getUint8 view (pos + EDGE_TYPE_AT)) (\<lambda>type.
         bind_outcome (getUint8 view (pos + EDGE_CONFIDENCE_AT)) (\<lambda>confidence.
         bind_outcome (getUint16 view (pos + EDGE_FLAGS_AT)) (\<lambda>edgeFlags.
         bind_outcome (getUint16 view (pos + EDGE_PROFILE_MASK_AT)) (\<lambda>profileMask.
         bind_outcome (getUint32 view (pos + EDGE_PROVENANCE_AT)) (\<lambda>provenanceId.
         bind_outcome (provenanceAt g provenanceId) (\<lambda>provenance.
           Ok \<lparr>he_edge = int edge, he_target = target, he_type = element CONTEXT_GRAPH_EDGE_TYPES type,
               he_confidence = element CONFIDENCE_CODES confidence, he_flags = edgeFlags,
               he_profileMask = profileMask, he_provenance = provenance\<rparr>))))))))"

definition add_parent_edge ::
  "index_geometry \<Rightarrow> int \<Rightarrow> provenance_view list \<times> nat list \<Rightarrow> (provenance_view list \<times> nat list) outcome" where
  "add_parent_edge g edge acc =
     bind_outcome (requireEdge g edge) (\<lambda>_.
     bind_outcome (getUint32 (ig_bytes g)
         (ig_edgeBase g + nat edge * CONTEXT_INDEX_EDGE_ROW_BYTES + EDGE_PROVENANCE_AT)) (\<lambda>r.
       if r \<in> set (snd acc) then Ok acc
       else bind_outcome (provenanceAt g r) (\<lambda>v. Ok (fst acc @ [v], r # snd acc))))"

definition provenanceOf :: "index_geometry \<Rightarrow> nat \<Rightarrow> int list \<Rightarrow> provenance_view list outcome" where
  "provenanceOf g nodeRowAt parentEdges =
     (let view = ig_bytes g
      in bind_outcome (getUint32 view (nodeRowAt + NODE_PATH_AT)) (\<lambda>pathId.
         bind_outcome (getUint32 view (nodeRowAt + NODE_CONTENT_HASH_AT)) (\<lambda>contentHashId.
         bind_outcome
           (if pathId \<noteq> CONTEXT_INDEX_NO_VALUE \<and> contentHashId \<noteq> CONTEXT_INDEX_NO_VALUE then
              bind_outcome (getUint32 view (nodeRowAt + NODE_LINE_AT)) (\<lambda>line.
              bind_outcome (stringAt g pathId) (\<lambda>path.
              bind_outcome (stringAt g contentHashId) (\<lambda>hash.
                Ok [\<lparr>pv_path = path, pv_line = optional_number line, pv_hash = hash, pv_extractor = None\<rparr>])))
            else Ok []) (\<lambda>views.
         bind_outcome (each_row (add_parent_edge g) parentEdges (views, [])) (\<lambda>acc. Ok (fst acc))))))"

definition source_hash_row :: "index_geometry \<Rightarrow> nat \<Rightarrow> (units \<times> units) outcome" where
  "source_hash_row g r =
     (let pos = ig_sourceHashBase g + r * CONTEXT_INDEX_SOURCE_HASH_ROW_BYTES
      in bind_outcome (getUint32 (ig_bytes g) (pos + SOURCE_HASH_PATH_AT)) (\<lambda>pathId.
         bind_outcome (stringAt g pathId) (\<lambda>path.
         bind_outcome (getUint32 (ig_bytes g) (pos + SOURCE_HASH_HASH_AT)) (\<lambda>hashId.
         bind_outcome (stringAt g hashId) (\<lambda>hash. Ok (path, hash))))))"

definition sourceHashesOf :: "index_geometry \<Rightarrow> (units \<times> units) list outcome" where
  "sourceHashesOf g = map_outcome (source_hash_row g) [0..<ig_sourceHashCount g]"

definition hydrateNode :: "index_geometry \<Rightarrow> int \<Rightarrow> node_view outcome" where
  "hydrateNode g node = bind_outcome (nodeRow g node) (\<lambda>row. hydrateNodeAt g (nat node) row)"

definition hydrateEdge :: "index_geometry \<Rightarrow> int \<Rightarrow> hydrated_edge outcome" where
  "hydrateEdge g edge = bind_outcome (requireEdge g edge) (\<lambda>_. hydrateEdgeAt g (nat edge))"

definition reader_provenance :: "index_geometry \<Rightarrow> int \<Rightarrow> int list \<Rightarrow> provenance_view list outcome" where
  "reader_provenance g node parentEdges =
     bind_outcome (nodeRow g node) (\<lambda>row. provenanceOf g row parentEdges)"

end
