(* ===== verification/Index_Search.thy ===== *)
theory Index_Search
  imports Index_Hydrate
begin

text \<open>
  The search for a node's metadata rows and the object built from them, against plain list functions.
\<close>

lemma first_row_finds:
  fixes column :: "nat \<Rightarrow> nat"
  assumes read: "\<And>r. r < n \<Longrightarrow> getUint32 (ig_bytes g)
      (ig_metadataBase g + r * CONTEXT_INDEX_METADATA_ROW_BYTES + METADATA_NODE_AT) = Ok (column r)"
    and ascending: "\<And>r s. r \<le> s \<Longrightarrow> s < n \<Longrightarrow> column r \<le> column s"
    and bounds: "0 \<le> low" "low \<le> high + 1" "high < int n"
    and below: "\<And>r. int r < low \<Longrightarrow> column r < node"
    and above: "found = - 1 \<and> (\<forall>r < n. high < int r \<longrightarrow> node < column r) \<or>
      found = high + 1 \<and> high + 1 < int n \<and> column (nat (high + 1)) = node"
  shows "\<exists>f. first_row g node low high found = Ok f \<and>
    (f = - 1 \<and> (\<forall>r < n. column r \<noteq> node) \<or>
     (\<exists>r < n. f = int r \<and> column r = node \<and> (\<forall>s < r. column s < node)))"
  using bounds below above
proof (induction "nat (high - low + 1)" arbitrary: low high found rule: less_induct)
  case less
  show ?case
  proof (cases "low \<le> high")
    case True
    define mid where "mid = nat ((low + high) div 2)"
    have mid: "int mid = (low + high) div 2" "low \<le> int mid" "int mid \<le> high" "mid < n"
      using True less.prems(1,3) by (auto simp: mid_def)
    have step: "first_row g node low high found =
        (if node \<le> column mid then first_row g node low (int mid - 1) (if column mid = node then int mid else found)
         else first_row g node (int mid + 1) high found)"
      using True read [OF mid(4)] mid(1) by (subst first_row.simps) (simp add: Let_def mid_def [symmetric] del: getUint_Ok)
    show ?thesis
    proof (cases "node \<le> column mid")
      case right: True
      let ?found = "if column mid = node then int mid else found"
      have "?found = - 1 \<and> (\<forall>r < n. int mid - 1 < int r \<longrightarrow> node < column r) \<or>
          ?found = int mid - 1 + 1 \<and> int mid - 1 + 1 < int n \<and> column (nat (int mid - 1 + 1)) = node"
      proof (cases "column mid = node")
        case False
        then have up: "node < column r" if "mid \<le> r" "r < n" for r
          using right ascending [of mid r] that by simp
        have "\<not> (found = high + 1 \<and> high + 1 < int n \<and> column (nat (high + 1)) = node)"
        proof (rule notI, elim conjE)
          assume h: "high + 1 < int n" "column (nat (high + 1)) = node"
          have "mid \<le> nat (high + 1)" "nat (high + 1) < n" using mid(3) h(1) by linarith+
          from up [OF this] h(2) show False by simp
        qed
        then show ?thesis using less.prems(5) False up by auto
      qed (use mid(4) in simp)
      then have "\<exists>f. first_row g node low (int mid - 1) ?found = Ok f \<and>
          (f = - 1 \<and> (\<forall>r < n. column r \<noteq> node) \<or>
           (\<exists>r < n. f = int r \<and> column r = node \<and> (\<forall>s < r. column s < node)))"
        by (intro less.hyps) (use mid less.prems in auto)
      then show ?thesis using step right by simp
    next
      case False
      have "column r < node" if "int r < int mid + 1" for r
        using False ascending [of r mid] mid(4) that by auto
      then have "\<exists>f. first_row g node (int mid + 1) high found = Ok f \<and>
          (f = - 1 \<and> (\<forall>r < n. column r \<noteq> node) \<or>
           (\<exists>r < n. f = int r \<and> column r = node \<and> (\<forall>s < r. column s < node)))"
        by (intro less.hyps) (use mid less.prems in auto)
      then show ?thesis using step False by simp
    qed
  next
    case False
    then have low: "low = high + 1" using less.prems(2) by simp
    have "first_row g node low high found = Ok found" using False by (simp add: first_row.simps)
    moreover have "column r \<noteq> node" if "found = - 1 \<and> (\<forall>r < n. high < int r \<longrightarrow> node < column r)" "r < n" for r
      using that less.prems(4) [of r] low by (cases "high < int r") auto
    moreover have "\<exists>r < n. found = int r \<and> column r = node \<and> (\<forall>s < r. column s < node)"
      if "found = high + 1 \<and> high + 1 < int n \<and> column (nat (high + 1)) = node"
      using that less.prems(1,4) low by (intro exI [of _ "nat (high + 1)"]) auto
    ultimately show ?thesis using less.prems(5) by blast
  qed
qed

lemma filter_sorted_run:
  assumes "sorted (map key xs)" "\<forall>x \<in> set xs. (i :: nat) \<le> key x"
  shows "filter (\<lambda>x. key x = i) xs = takeWhile (\<lambda>x. key x = i) xs"
  using assms
proof (induction xs)
  case (Cons a xs)
  show ?case
  proof (cases "key a = i")
    case False
    then have "\<forall>x \<in> set xs. key x \<noteq> i" using Cons.prems by fastforce
    with False show ?thesis by (simp add: filter_empty_conv)
  qed (use Cons in simp)
qed simp

lemma sorted_run_from:
  assumes "sorted (map key xs)" "n < length xs" "key (xs ! n) = i" "\<forall>s < n. key (xs ! s) < (i :: nat)"
  shows "takeWhile (\<lambda>x. key x = i) (drop n xs) = filter (\<lambda>x. key x = i) xs"
proof -
  have "filter (\<lambda>x. key x = i) (take n xs) = []"
    using assms(2,4) by (force simp: filter_empty_conv in_set_conv_nth)
  moreover have "sorted (map key (drop n xs))" using assms(1) by (simp add: drop_map [symmetric] sorted_wrt_drop)
  moreover have "\<forall>x \<in> set (drop n xs). i \<le> key x"
  proof
    fix x assume "x \<in> set (drop n xs)"
    then obtain k where k: "n \<le> k" "k < length xs" "x = xs ! k"
      by (auto simp: in_set_conv_nth) (metis add.commute le_add2 less_diff_conv)
    then show "i \<le> key x" using assms(1,3) by (auto simp: sorted_iff_nth_mono)
  qed
  ultimately show ?thesis using filter_sorted_run [of key "drop n xs" i]
    by (metis append_Nil append_take_drop_id filter_append)
qed

subsection \<open>The metadata object\<close>

definition row_added :: "(nat \<Rightarrow> units) \<Rightarrow> metadata_row \<Rightarrow> (units \<times> metadata_value) list \<Rightarrow> (units \<times> metadata_value) list" where
  "row_added text r m = add_metadata_row (text (md_key r)) (md_type r) (text (md_value r)) m"

text \<open>What a row makes of the property it names.\<close>

definition property_step :: "nat \<Rightarrow> units \<Rightarrow> metadata_value option \<Rightarrow> metadata_value" where
  "property_step type text v =
     (if type = 5 then MV_array []
      else if type = METADATA_ARRAY_ELEMENT then
        (case v of Some (MV_array run) \<Rightarrow> MV_array (run @ [text]) | _ \<Rightarrow> MV_array [text])
      else contextIndexMetadataValue type text)"

lemma row_added_lookup:
  assumes "key \<noteq> PROTO"
  shows "map_of (add_metadata_row k type text m) key =
    (if k = key then Some (property_step type text (map_of m key)) else map_of m key)"
  using assms by (auto simp: add_metadata_row_def property_step_def set_property_def update_conv'
      split: option.splits metadata_value.splits)

lemma rows_added_lookup:
  assumes "key \<noteq> PROTO"
  shows "map_of (fold (row_added text) rows m) key =
    fold (\<lambda>r v. Some (property_step (md_type r) (text (md_value r)) v)) (filter (\<lambda>r. text (md_key r) = key) rows) (map_of m key)"
  by (induction rows arbitrary: m) (simp_all add: row_added_def row_added_lookup [OF assms])

lemma array_property:
  "fold (\<lambda>t v. Some (property_step METADATA_ARRAY_ELEMENT t v)) ts (Some (MV_array run)) = Some (MV_array (run @ ts))"
  by (induction ts arbitrary: run) (simp_all add: property_step_def METADATA_ARRAY_ELEMENT_def)

text \<open>The rows of a value give the value back.\<close>

lemma cells_property:
  assumes "contextIndexMetadataCells v = Ok cells"
  shows "fold (\<lambda>c v. Some (property_step (mc_type c) (mc_text c) v)) cells None = Some v"
proof (cases v)
  case (MV_array entries)
  show ?thesis
  proof (cases entries)
    case Nil
    then show ?thesis using assms by (auto simp: MV_array metadata_cell_of_def property_step_def)
  next
    case (Cons e es)
    have "cells = map (\<lambda>(ordinal, entry). metadata_cell_of METADATA_ARRAY_ELEMENT entry ordinal) (enumerate 0 entries)"
      using assms by (auto simp: MV_array Cons split: if_splits)
    then have "map (\<lambda>c. (mc_type c, mc_text c)) cells = map (\<lambda>e. (METADATA_ARRAY_ELEMENT, e)) entries"
      by (auto simp: metadata_cell_of_def o_def case_prod_unfold nth_enumerate_eq intro!: nth_equalityI)
    moreover have "fold (\<lambda>c v. Some (property_step (mc_type c) (mc_text c) v)) cells None =
        fold (\<lambda>p v. Some (property_step (fst p) (snd p) v)) (map (\<lambda>c. (mc_type c, mc_text c)) cells) None"
      by (simp add: fold_map o_def)
    ultimately show ?thesis
      using array_property [of es "[e]"]
      by (simp add: fold_map o_def MV_array Cons)
        (simp add: property_step_def METADATA_ARRAY_ELEMENT_def)
  qed
qed (use assms in \<open>auto simp: metadata_cell_of_def property_step_def METADATA_ARRAY_ELEMENT_def
      contextIndexMetadataValue_def units_of_def split: if_splits\<close>)

end
