(* ===== verification/Index_Readback.thy ===== *)
theory Index_Readback
  imports Index_Open Index_Search
begin

text \<open>
  What the writer wrote, the reader reads back: the strings, the node with its metadata, and the edges of
  a node in their order.
\<close>

subsection \<open>A written file\<close>

definition written_file :: "write_input \<Rightarrow> index_parts \<Rightarrow> bytes \<Rightarrow> (section_kind \<Rightarrow> section_descriptor) \<Rightarrow> bool" where
  "written_file input ix bs D \<longleftrightarrow>
     parts_ok ix \<and> holds_parts bs ix D \<and> length bs \<le> 2 ^ 29 \<and>
     collected input (sorted_nodes input) (lexical_of input) (ix_strings ix) ix \<and>
     sealed_strings input (sorted_nodes input) (lexical_of input) = Ok (ix_strings ix)"

abbreviation "strings_of ix \<equiv> si_table (ix_strings ix)"

lemma file_sealed:
  "written_file input ix bs D \<Longrightarrow>
     sealed_strings input (sorted_nodes input) (lexical_of input) = Ok (ix_strings ix)"
  by (simp add: written_file_def)

lemma file_section:
  assumes "written_file input ix bs D"
  shows "section_at bs (D kind) (fst (section_payload ix (string_section (strings_of ix)) kind))
    (snd (section_payload ix (string_section (strings_of ix)) kind))"
  using assms by (simp add: written_file_def holds_parts_def Let_def)

lemma file_strings_section:
  assumes "written_file input ix bs D"
  shows "section_at bs (D STRING_TABLE) (string_section (strings_of ix)) (length (strings_of ix))"
    "length (string_section (strings_of ix)) \<le> 2 ^ 29" "length (strings_of ix) \<le> 2 ^ 27"
proof -
  have "si_sealed (ix_strings ix)" using assms by (simp add: written_file_def parts_ok_def Let_def)
  then show s: "section_at bs (D STRING_TABLE) (string_section (strings_of ix)) (length (strings_of ix))"
    using file_section [OF assms, of STRING_TABLE] by (simp add: interner_size_def)
  then show len: "length (string_section (strings_of ix)) \<le> 2 ^ 29"
    using assms by (auto simp: section_at_def written_file_def)
  then show "length (strings_of ix) \<le> 2 ^ 27" using string_count_bound [of "strings_of ix"] by simp
qed

subsection \<open>Strings\<close>

lemma file_string_bytes:
  assumes "written_file input ix bs D" "i < length (strings_of ix)"
  shows "stringAt (geometry_at bs h D) i = utf8_decode (utf8_encode (strings_of ix ! i))"
proof -
  let ?T = "strings_of ix" and ?g = "geometry_at bs h D"
  let ?ends = "\<lambda>k. length (concat (map utf8_encode (take k ?T)))"
  note s = file_strings_section [OF assms(1)]
  have whole: "?ends k \<le> length (concat (map utf8_encode ?T))" for k
    by (metis length_concat_take take_map)
  have small: "?ends k < 2 ^ 32" for k using whole [of k] s(2) by (simp add: length_string_section)
  have ending: "getUint32 bs (sd_offset (D STRING_TABLE) + k * 4) = Ok (?ends (Suc k))" if "k < length ?T" for k
  proof -
    have "k * 4 + 4 \<le> length (string_section ?T)" using that by (simp add: length_string_section)
    from section_at_read [OF s(1) this] string_section_end [OF that] small [of "Suc k"]
    show ?thesis by (simp add: le_nat_bytes)
  qed
  have start: "stringStart ?g i = Ok (?ends i)"
    using ending [of "i - 1"] assms(2) by (auto simp: stringStart_def geometry_at_def)
  have e: "?ends (Suc i) = ?ends i + length (utf8_encode (?T ! i))"
    using assms(2) by (simp add: take_Suc_conv_app_nth)
  have count: "sd_count (D STRING_TABLE) = length ?T" using s(1) by (simp add: section_at_def)
  have inside: "length ?T * 4 + ?ends i + length (utf8_encode (?T ! i)) \<le> length (string_section ?T)"
    using whole [of "Suc i"] e by (simp add: length_string_section)
  have "sub_bytes (sd_offset (D STRING_TABLE) + (length ?T * 4 + ?ends i)) (length (utf8_encode (?T ! i))) bs =
      utf8_encode (?T ! i)"
    using section_at_read [OF s(1) inside] string_section_blob [OF assms(2)] by simp
  then have txt_eq: "sub_bytes (sd_offset (D STRING_TABLE) + length ?T * 4 + ?ends i) (length (utf8_encode (?T ! i))) bs =
      utf8_encode (?T ! i)" by (simp add: add.assoc)
  show ?thesis
    using ending [OF assms(2)] start e txt_eq
    by (simp add: stringAt_def stringEnd_def geometry_at_def count del: getUint_Ok)
qed

definition plain_text :: "units \<Rightarrow> bool" where
  "plain_text s \<longleftrightarrow> well_formed s \<and> \<not> starts_with_mark s"

definition plain_input :: "write_input \<Rightarrow> bool" where
  "plain_input input \<longleftrightarrow> list_all plain_text (written_strings input (sorted_nodes input) (lexical_of input))"

lemma file_string:
  assumes "written_file input ix bs D" "plain_input input" "known (ix_strings ix) v"
  shows "stringAt (geometry_at bs h D) (sid (ix_strings ix) v) = Ok v"
proof -
  note n = sid_nth [OF assms(3)]
  have "v \<in> set (strings_of ix)" using assms(3) by (simp add: known_def)
  then have "plain_text v"
    using assms(1,2) sealed_strings_facts(8) by (auto simp: written_file_def plain_input_def list_all_iff)
  then show ?thesis
    using file_string_bytes [OF assms(1), of "sid (ix_strings ix) v" h] n utf8_round_trip by (simp add: plain_text_def)
qed

subsection \<open>Rows\<close>

lemma file_node_cell:
  assumes "written_file input ix bs D" "i < length (sorted_nodes input)" "off + w \<le> 40"
  shows "getUint w bs (sd_offset (D NODE_TABLE) + i * 40 + off) =
    Ok (cell (node_row input (ix_strings ix) (i, sorted_nodes input ! i)) off w)"
proof -
  have rows: "ix_nodeRows ix = map (node_row input (ix_strings ix)) (enumerate 0 (sorted_nodes input))"
    using assms(1) by (simp add: written_file_def collected_def Let_def)
  have width: "\<forall>r \<in> set (ix_nodeRows ix). length r = 40" by (auto simp: rows node_row_def Let_def node_row_cells)
  have s: "section_at bs (D NODE_TABLE) (concat (ix_nodeRows ix)) (length (ix_nodeRows ix))"
    using file_section [OF assms(1), of NODE_TABLE] by simp
  from row_cell [OF s width, of i off w] assms(2,3) show ?thesis by (simp add: rows nth_enumerate_eq)
qed

lemma file_node:
  assumes "written_file input ix bs D" "node \<in> set (sorted_nodes input)"
  shows "node_interned (ix_strings ix) node" "node_coded node"
  using assms sealed_strings_facts(1) by (auto simp: written_file_def collected_def Let_def list_all_iff)

lemma file_counts:
  assumes "written_file input ix bs D"
  shows "length (sorted_nodes input) \<le> 2 ^ 24" "length (ix_nodeRows ix) = length (sorted_nodes input)"
    "length (ix_edgeRows ix) \<le> 2 ^ 26" "length (ix_provenance ix) \<le> length (ix_edgeRows ix)"
  using assms by (auto simp: written_file_def parts_ok_def collected_def Let_def maxNodeCount_def maxEdgeCount_def)

lemma node_flags_small: "unat (nodeFlags node protectedIds invalidatedIds) < 256"
proof -
  let ?f = "nodeFlags node protectedIds invalidatedIds"
  have one: "take_bit 7 (flag_if b f) = flag_if b f" if "take_bit 7 f = f" for b f using that by (simp add: flag_if_def)
  have "take_bit 7 ?f = ?f"
    unfolding nodeFlags_def take_bit_or
    by (simp add: one NODE_GROUNDABLE_def NODE_INVALIDATED_def NODE_PROTECTED_def NODE_IS_EVIDENCE_def
        NODE_IS_TEST_OR_GATE_def NODE_HAS_PATH_def NODE_HAS_CONTENT_HASH_def)
  then have "unat ?f = take_bit 7 (unat ?f)" by (metis unsigned_take_bit_eq)
  then have "unat ?f < 2 ^ 7" by (metis take_bit_nat_less_exp)
  then show ?thesis by simp
qed

lemma element_code: "code_of codes v \<noteq> None \<Longrightarrow> element codes (the (code_of codes v)) = v"
  by (auto simp: code_of_def element_def dest: index_of_Some split: option.splits)

subsection \<open>Metadata\<close>

lemma file_metadata:
  assumes "written_file input ix bs D" "r < length (ix_metadata ix)"
  shows "getUint32 bs (sd_offset (D NODE_METADATA) + r * 16) = Ok (md_node (ix_metadata ix ! r))"
    "getUint32 bs (sd_offset (D NODE_METADATA) + r * 16 + 4) = Ok (md_key (ix_metadata ix ! r))"
    "getUint32 bs (sd_offset (D NODE_METADATA) + r * 16 + 8) = Ok (md_value (ix_metadata ix ! r))"
    "getUint16 bs (sd_offset (D NODE_METADATA) + r * 16 + 12) = Ok (md_type (ix_metadata ix ! r))"
proof -
  let ?rows = "ix_metadata ix" and ?S = "length (strings_of ix)" and ?n = "length (ix_nodeRows ix)"
  have "metadata_rows_ok ?S ?n ?rows" using assms(1) by (simp add: written_file_def parts_ok_def Let_def)
  then have ok: "metadata_row_ok ?S ?n (?rows ! r)" using assms(2) by (simp add: metadata_rows_ok_def list_all_length)
  have small: "?S \<le> 2 ^ 32" "?n \<le> 2 ^ 32"
    using file_strings_section(3) [OF assms(1)] file_counts(1,2) [OF assms(1)] by simp_all
  note c = metadata_cells [OF assms(2) ok small]
  have s: "section_at bs (D NODE_METADATA) (metadataTable ?rows) (length ?rows)"
    using file_section [OF assms(1), of NODE_METADATA] by simp
  have at: "getUint w bs (sd_offset (D NODE_METADATA) + r * 16 + off) = Ok (le_nat (sub_bytes (r * 16 + off) w (metadataTable ?rows)))"
    if "off + w \<le> 16" for off w
  proof -
    have "r * 16 + off + w \<le> length (metadataTable ?rows)" using that assms(2) c(6) by simp
    from section_at_read [OF s this] show ?thesis by (simp add: add.assoc)
  qed
  from at [of 0 4] at [of 4 4] at [of 8 4] at [of 12 2] c ok small
  show "getUint32 bs (sd_offset (D NODE_METADATA) + r * 16) = Ok (md_node (ix_metadata ix ! r))"
    "getUint32 bs (sd_offset (D NODE_METADATA) + r * 16 + 4) = Ok (md_key (ix_metadata ix ! r))"
    "getUint32 bs (sd_offset (D NODE_METADATA) + r * 16 + 8) = Ok (md_value (ix_metadata ix ! r))"
    "getUint16 bs (sd_offset (D NODE_METADATA) + r * 16 + 12) = Ok (md_type (ix_metadata ix ! r))"
    by (simp_all add: le_nat_bytes metadata_row_ok_def CONTEXT_INDEX_METADATA_TYPE_COUNT_def del: getUint_Ok)
qed

text \<open>The text of a string id.\<close>

definition text_of :: "string_interner \<Rightarrow> nat \<Rightarrow> units" where
  "text_of si i = si_table si ! i"

lemma file_text:
  assumes "written_file input ix bs D" "plain_input input" "i < length (strings_of ix)"
  shows "stringAt (geometry_at bs h D) i = Ok (text_of (ix_strings ix) i)"
proof -
  have "set (strings_of ix) = set (written_strings input (sorted_nodes input) (lexical_of input))"
    using assms(1) by (intro sealed_strings_facts(8)) (simp add: written_file_def)
  then have "plain_text (strings_of ix ! i)"
    using assms(2) nth_mem [OF assms(3)] by (simp add: plain_input_def list_all_iff)
  then show ?thesis
    using file_string_bytes [OF assms(1,3), of h] utf8_round_trip by (simp add: plain_text_def text_of_def)
qed

lemma metadata_run_pure:
  assumes "written_file input ix bs D" "plain_input input"
  shows "metadata_run (geometry_at bs h D) i r m =
    Ok (fold (row_added (text_of (ix_strings ix))) (takeWhile (\<lambda>row. md_node row = i) (drop r (ix_metadata ix))) m)"
proof (induction "length (ix_metadata ix) - r" arbitrary: r m)
  case 0
  have "sd_count (D NODE_METADATA) = length (ix_metadata ix)"
    using file_section [OF assms(1), of NODE_METADATA] by (simp add: section_at_def)
  then show ?case using 0 by (simp add: metadata_run.simps geometry_at_def)
next
  case (Suc d)
  then have r: "r < length (ix_metadata ix)" by simp
  let ?g = "geometry_at bs h D" and ?row = "ix_metadata ix ! r"
  have count: "ig_metadataCount ?g = length (ix_metadata ix)"
    using file_section [OF assms(1), of NODE_METADATA] by (simp add: section_at_def geometry_at_def)
  have base: "ig_metadataBase ?g = sd_offset (D NODE_METADATA)" "ig_bytes ?g = bs" by (simp_all add: geometry_at_def)
  have "metadata_row_ok (length (strings_of ix)) (length (ix_nodeRows ix)) ?row"
    using assms(1) r by (simp add: written_file_def parts_ok_def Let_def metadata_rows_ok_def list_all_length)
  then have txt_eq: "stringAt ?g (md_key ?row) = Ok (text_of (ix_strings ix) (md_key ?row))"
    "stringAt ?g (md_value ?row) = Ok (text_of (ix_strings ix) (md_value ?row))"
    using file_text [OF assms] by (simp_all add: metadata_row_ok_def)
  have drop: "drop r (ix_metadata ix) = ?row # drop (Suc r) (ix_metadata ix)" using r by (simp add: Cons_nth_drop_Suc)
  have next_row: "metadata_run ?g i (Suc r) m' =
      Ok (fold (row_added (text_of (ix_strings ix))) (takeWhile (\<lambda>row. md_node row = i) (drop (Suc r) (ix_metadata ix))) m')" for m'
    by (rule Suc.hyps) (use Suc.hyps(2) in simp)
  show ?case
    using r file_metadata [OF assms(1) r] txt_eq next_row
    by (subst metadata_run.simps)
      (simp add: count base Let_def drop row_bytes_defs row_field_defs row_added_def del: getUint_Ok)
qed

lemma filter_concat_one:
  assumes "distinct (map h xs)" "x \<in> set xs" "\<And>y r. y \<in> set xs \<Longrightarrow> r \<in> set (g y) \<Longrightarrow> c r = h y"
  shows "filter (\<lambda>r. c r = h x) (concat (map g xs)) = g x"
  using assms
proof (induction xs)
  case (Cons y ys)
  have none: "filter (\<lambda>r. c r = h x) (concat (map g ys)) = []" if "h x \<notin> h ` set ys"
    unfolding filter_empty_conv
  proof
    fix r assume "r \<in> set (concat (map g ys))"
    then obtain z where z: "z \<in> set ys" "r \<in> set (g z)" by auto
    then have "c r = h z" using Cons.prems(3) by simp
    moreover have "h z \<in> h ` set ys" using z(1) by simp
    ultimately show "c r \<noteq> h x" using that by auto
  qed
  show ?case
  proof (cases "x = y")
    case True
    then have "filter (\<lambda>r. c r = h x) (g y) = g y" using Cons.prems(3) by (simp add: filter_id_conv)
    then show ?thesis using none Cons.prems(1) True by simp
  next
    case False
    then have x: "x \<in> set ys" using Cons.prems(2) by simp
    then have "h x \<in> h ` set ys" by simp
    then have "h x \<noteq> h y" using Cons.prems(1) by auto
    then have "filter (\<lambda>r. c r = h x) (g y) = []"
      unfolding filter_empty_conv using Cons.prems(3) [of y] by (metis list.set_intros(1))
    moreover have "filter (\<lambda>r. c r = h x) (concat (map g ys)) = g x"
      by (rule Cons.IH [OF _ x]) (use Cons.prems in auto)
    ultimately show ?thesis by simp
  qed
qed simp

lemma text_of_sid: "known si v \<Longrightarrow> text_of si (sid si v) = v"
  using sid_nth by (simp add: text_of_def)

lemma set_property_proto: "map_of m PROTO = None \<Longrightarrow> map_of (fold (row_added txt) rows m) PROTO = None"
proof (induction rows arbitrary: m)
  case (Cons r rows)
  have "map_of (row_added txt r m) PROTO = None" using Cons.prems
    by (auto simp: row_added_def add_metadata_row_def set_property_def update_conv' split: option.splits metadata_value.splits)
  with Cons show ?case by simp
qed simp

definition no_proto_keys :: "graph_node \<Rightarrow> bool" where
  "no_proto_keys node \<longleftrightarrow> PROTO \<notin> fst ` set (gn_metadata node)"

lemma node_rows_selected:
  assumes "list_all (node_interned si) nodes" "i < length nodes" "distinct (map fst (gn_metadata (nodes ! i)))"
    "e \<in> set (gn_metadata (nodes ! i))"
  shows "filter (\<lambda>r. md_node r = i) (concat (map (node_metadata si) (enumerate 0 nodes))) = node_metadata si (i, nodes ! i)"
    "filter (\<lambda>r. text_of si (md_key r) = fst e) (node_metadata si (i, nodes ! i)) = entry_rows si i e"
proof -
  have i: "(i, nodes ! i) \<in> set (enumerate 0 nodes)" using assms(2) by (simp add: in_set_enumerate_eq)
  have "filter (\<lambda>r. md_node r = fst (i, nodes ! i)) (concat (map (node_metadata si) (enumerate 0 nodes))) =
      node_metadata si (i, nodes ! i)"
    by (rule filter_concat_one [OF _ i]) (auto simp: node_metadata_def entry_rows_def)
  then show "filter (\<lambda>r. md_node r = i) (concat (map (node_metadata si) (enumerate 0 nodes))) = node_metadata si (i, nodes ! i)"
    by simp
  have "node_interned si (nodes ! i)" using assms(1,2) by (simp add: list_all_length)
  then have known: "known si (fst e)" if "e \<in> set (gn_metadata (nodes ! i))" for e
    using that by (auto simp: node_interned_def list_all_iff)
  show "filter (\<lambda>r. text_of si (md_key r) = fst e) (node_metadata si (i, nodes ! i)) = entry_rows si i e"
    unfolding node_metadata_def snd_conv fst_conv
    by (rule filter_concat_one [OF assms(3,4)]) (use known text_of_sid in \<open>force simp: entry_rows_def\<close>)
qed

lemma entry_rows_sorted:
  assumes "contextIndexMetadataCells (snd e) = Ok (cells_of (snd e))"
  shows "sort_key metadata_order (entry_rows si i e) = entry_rows si i e"
proof (rule sort_key_id_if_sorted)
  have o: "map md_ordinal (entry_rows si i e) = [0..<length (entry_rows si i e)]"
    using metadata_cells_facts(1) [OF assms] by (simp add: entry_rows_def o_def)
  have "md_ordinal (entry_rows si i e ! k) = k" if "k < length (entry_rows si i e)" for k
    using arg_cong [OF o, of "\<lambda>xs. xs ! k"] that by simp
  then show "sorted (map metadata_order (entry_rows si i e))"
    by (auto simp: sorted_iff_nth_mono metadata_order_def entry_rows_def less_eq_prod_def le_less)
qed

lemma entry_rows_value:
  assumes "contextIndexMetadataCells (snd e) = Ok (cells_of (snd e))"
    "\<forall>c \<in> set (cells_of (snd e)). known si (mc_text c)"
  shows "fold (\<lambda>r v. Some (property_step (md_type r) (text_of si (md_value r)) v)) (entry_rows si i e) None = Some (snd e)"
proof -
  have "fold (\<lambda>r v. Some (property_step (md_type r) (text_of si (md_value r)) v)) (entry_rows si i e) None =
      fold (\<lambda>c v. Some (property_step (mc_type c) (mc_text c) v)) (cells_of (snd e)) None"
    unfolding entry_rows_def fold_map o_def
    by (rule fold_cong) (use assms(2) in \<open>auto simp: text_of_sid\<close>)
  then show ?thesis by (simp add: cells_property [OF assms(1)])
qed

lemma file_metadataOf:
  assumes wf: "written_file input ix bs D" "plain_input input" and i: "i < length (sorted_nodes input)"
    and keys: "distinct (map fst (gn_metadata (sorted_nodes input ! i)))" "no_proto_keys (sorted_nodes input ! i)"
  shows "\<exists>m. metadataOf (geometry_at bs h D) i = Ok m \<and> map_of m = map_of (gn_metadata (sorted_nodes input ! i))"
proof -
  let ?g = "geometry_at bs h D" and ?R = "ix_metadata ix" and ?si = "ix_strings ix"
  let ?nodes = "sorted_nodes input"
  let ?node = "?nodes ! i" and ?M = "concat (map (node_metadata ?si) (enumerate 0 ?nodes))"
  have c: "list_all (node_interned ?si) ?nodes" "?R = sort_key metadata_order ?M"
    using wf(1) by (simp_all add: written_file_def collected_def Let_def)
  have count: "ig_metadataCount ?g = length ?R"
    using file_section [OF wf(1), of NODE_METADATA] by (simp add: section_at_def geometry_at_def)
  have column: "getUint32 (ig_bytes ?g) (ig_metadataBase ?g + r * CONTEXT_INDEX_METADATA_ROW_BYTES + METADATA_NODE_AT) =
      Ok (md_node (?R ! r))" if "r < length ?R" for r
    using file_metadata(1) [OF wf(1) that] by (simp add: geometry_at_def row_bytes_defs row_field_defs del: getUint_Ok)
  have "sorted (map metadata_order ?R)" by (simp add: c(2))
  then have "sorted_wrt (\<lambda>p r. md_node p \<le> md_node r) ?R"
    unfolding sorted_map by (rule sorted_wrt_mono_rel [rotated]) (auto simp: metadata_order_def less_eq_prod_def)
  then have asc: "sorted (map md_node ?R)" by (simp add: sorted_map)
  let ?rows = "filter (\<lambda>r. md_node r = i) ?R"
  let ?m = "fold (row_added (text_of ?si)) ?rows []"
  have result: "metadataOf ?g i = Ok ?m"
  proof -
    have "\<exists>f. first_row ?g i 0 (int (length ?R) - 1) (- 1) = Ok f \<and>
      (f = - 1 \<and> (\<forall>r < length ?R. md_node (?R ! r) \<noteq> i) \<or>
       (\<exists>r < length ?R. f = int r \<and> md_node (?R ! r) = i \<and> (\<forall>s < r. md_node (?R ! s) < i)))"
      by (rule first_row_finds [OF column]) (use asc in \<open>auto simp: sorted_iff_nth_mono\<close>)
    then obtain f where f: "first_row ?g i 0 (int (length ?R) - 1) (- 1) = Ok f"
      "f = - 1 \<and> (\<forall>r < length ?R. md_node (?R ! r) \<noteq> i) \<or>
       (\<exists>r < length ?R. f = int r \<and> md_node (?R ! r) = i \<and> (\<forall>s < r. md_node (?R ! s) < i))" by blast
    from f(2) show ?thesis
    proof (elim disjE exE conjE)
      assume "f = - 1" "\<forall>r < length ?R. md_node (?R ! r) \<noteq> i"
      then have "?rows = []" by (auto simp: filter_empty_conv in_set_conv_nth)
      then show ?thesis using f(1) \<open>f = - 1\<close> by (simp add: metadataOf_def count)
    next
      fix r assume r: "r < length ?R" "f = int r" "md_node (?R ! r) = i" "\<forall>s < r. md_node (?R ! s) < i"
      from sorted_run_from [OF asc r(1,3,4)] f(1) r(2) show ?thesis
        by (simp add: metadataOf_def count metadata_run_pure [OF wf])
    qed
  qed
  have "map_of ?m key = map_of (gn_metadata ?node) key" for key
  proof (cases "key = PROTO")
    case True
    then show ?thesis using keys(2) set_property_proto [of "[]" "text_of ?si" ?rows]
      by (auto simp: no_proto_keys_def map_of_eq_None_iff [THEN iffD2])
  next
    case False
    let ?step = "\<lambda>r v. Some (property_step (md_type r) (text_of ?si (md_value r)) v)"
    have lookup: "map_of ?m key = fold ?step (filter (\<lambda>r. text_of ?si (md_key r) = key) ?rows) None"
      by (simp add: rows_added_lookup [OF False])
    have interned: "node_interned ?si ?node" using c(1) i by (simp add: list_all_length)
    show ?thesis
    proof (cases "key \<in> fst ` set (gn_metadata ?node)")
      case True
      then obtain e where e: "e \<in> set (gn_metadata ?node)" "key = fst e" by auto
      have cells: "contextIndexMetadataCells (snd e) = Ok (cells_of (snd e))"
        "\<forall>c \<in> set (cells_of (snd e)). known ?si (mc_text c)"
        using interned e(1) by (auto simp: node_interned_def list_all_iff)
      have "filter (\<lambda>r. text_of ?si (md_key r) = key) ?rows = entry_rows ?si i e"
        unfolding c(2) filter_sort node_rows_selected [OF c(1) i keys(1) e(1)] e(2)
        by (rule entry_rows_sorted [OF cells(1)])
      then show ?thesis unfolding lookup using entry_rows_value [OF cells, of i] e keys(1)
        by (simp add: map_of_eq_Some_iff)
    next
      case none: False
      have "filter (\<lambda>r. text_of ?si (md_key r) = key) ?rows = []"
      proof (rule ccontr)
        assume "filter (\<lambda>r. text_of ?si (md_key r) = key) ?rows \<noteq> []"
        then obtain r where r: "r \<in> set ?M" "md_node r = i" "text_of ?si (md_key r) = key"
          by (auto simp: filter_empty_conv c(2))
        then obtain e where "e \<in> set (gn_metadata ?node)" "md_key r = sid ?si (fst e)"
          by (auto simp: node_metadata_def entry_rows_def in_set_enumerate_eq)
        moreover have "known ?si (fst e)" if "e \<in> set (gn_metadata ?node)" for e
          using that interned by (auto simp: node_interned_def list_all_iff)
        ultimately show False using none r(3) text_of_sid by (metis imageI)
      qed
      then show ?thesis unfolding lookup using none by (simp add: map_of_eq_None_iff [THEN iffD2])
    qed
  qed
  then show ?thesis using result by blast
qed

subsection \<open>Nodes\<close>

definition locator_ok :: "graph_node \<Rightarrow> bool" where
  "locator_ok node \<longleftrightarrow>
     (case gn_line node of None \<Rightarrow> True | Some n \<Rightarrow> n < CONTEXT_INDEX_NO_VALUE) \<and>
     (case gn_column node of None \<Rightarrow> True | Some n \<Rightarrow> n < CONTEXT_INDEX_NO_VALUE)"

text \<open>
  The input whose content survives: text the platform's decoder returns as it was, no metadata key that
  an object literal does not keep, and positions below the sentinel.
\<close>

definition readable_input :: "write_input \<Rightarrow> bool" where
  "readable_input input \<longleftrightarrow>
     plain_input input \<and> list_all (\<lambda>node. no_proto_keys node \<and> locator_ok node) (gs_nodes (wi_snapshot input))"

definition nonempty_text :: "units option \<Rightarrow> units option" where
  "nonempty_text v = (if v = Some [] then None else v)"

text \<open>The node a reader gets for the node written at a position, its metadata apart.\<close>

definition node_view_of :: "write_input \<Rightarrow> nat \<Rightarrow> graph_node \<Rightarrow> node_view" where
  "node_view_of input i node =
     \<lparr>nv_node = int i, nv_id = gn_id node, nv_kind = gn_kind node, nv_label = gn_label node,
      nv_path = gn_path node, nv_line = gn_line node, nv_column = gn_column node,
      nv_contentHash = nonempty_text (gn_contentHash node), nv_trust = dequantizeTrust (quantizeTrust (gn_trust node)),
      nv_freshness = gn_freshness node, nv_risk = gn_risk node, nv_tokenCost = token_cost_cell (gn_tokenCost node),
      nv_flags = unat (nodeFlags node (wi_protectedNodeIds input) (wi_invalidatedNodeIds input)), nv_group = i,
      nv_metadata = []\<rparr>"

lemma written_string_known:
  assumes "written_file input ix bs D" "v \<in> set (written_strings input (sorted_nodes input) (lexical_of input))"
  shows "known (ix_strings ix) v"
  using assms(2) sealed_strings_facts(5,8) [OF file_sealed [OF assms(1)]] by (simp add: known_def)

lemma node_strings_written:
  "node \<in> set nodes \<Longrightarrow> v \<in> set (node_strings node) \<Longrightarrow> v \<in> set (written_strings input nodes lexical)"
  by (auto simp: written_strings_def)

lemma optional_text_back:
  assumes "written_file input ix bs D" "plain_input input"
    "\<forall>s. v = Some s \<longrightarrow> s \<in> set (written_strings input (sorted_nodes input) (lexical_of input))"
  shows "optional_text (geometry_at bs h D) (optional_sid (ix_strings ix) v mod 2 ^ 32) = Ok (nonempty_text v)"
proof (cases "v = None \<or> v = Some []")
  case True
  then show ?thesis by (auto simp: optional_text_def optional_sid_def nonempty_text_def CONTEXT_INDEX_NO_VALUE_def)
next
  case False
  then obtain s where s: "v = Some s" "s \<noteq> []" by auto
  have k: "known (ix_strings ix) s" using written_string_known [OF assms(1)] assms(3) s(1) by blast
  have "sid (ix_strings ix) s < 2 ^ 27" using sid_nth [OF k] file_strings_section(3) [OF assms(1)] by simp
  then show ?thesis
    using s file_string [OF assms(1,2) k, of h]
    by (simp add: optional_text_def optional_sid_def nonempty_text_def CONTEXT_INDEX_NO_VALUE_def)
qed

lemma optional_number_back:
  "(case v of None \<Rightarrow> True | Some n \<Rightarrow> n < CONTEXT_INDEX_NO_VALUE) \<Longrightarrow> optional_number (or_no_value v mod 2 ^ 32) = v"
  by (auto simp: optional_number_def or_no_value_def CONTEXT_INDEX_NO_VALUE_def split: option.splits)

lemma token_cost_small: "token_cost_cell c < 2 ^ 32"
  by (simp add: token_cost_cell_def)

lemma file_hydrateNode:
  assumes wf: "written_file input ix bs D" "plain_input input" and i: "i < length (sorted_nodes input)"
    and node: "node = sorted_nodes input ! i" "distinct (map fst (gn_metadata node))" "no_proto_keys node" "locator_ok node"
    and h: "ih_nodeCount h = length (sorted_nodes input)"
  shows "\<exists>v. hydrateNode (geometry_at bs h D) (int i) = Ok v \<and> map_of (nv_metadata v) = map_of (gn_metadata node) \<and>
    v\<lparr>nv_metadata := []\<rparr> = node_view_of input i node"
proof -
  let ?g = "geometry_at bs h D" and ?si = "ix_strings ix" and ?row = "sd_offset (D NODE_TABLE) + i * 40"
  have mem: "node \<in> set (sorted_nodes input)" using i node(1) by simp
  note n = file_node [OF wf(1) mem]
  have strings: "v \<in> set (written_strings input (sorted_nodes input) (lexical_of input))" if "v \<in> set (node_strings node)" for v
    using node_strings_written [OF mem that] .
  have id: "known ?si (gn_id node)" and label: "known ?si (gn_label node)"
    using n(1) by (simp_all add: node_interned_def)
  have small: "sid ?si (gn_id node) < 2 ^ 32" "sid ?si (gn_label node) < 2 ^ 32" "i < 2 ^ 32"
    using sid_nth [OF id] sid_nth [OF label] file_strings_section(3) [OF wf(1)] file_counts(1) [OF wf(1)] i by simp_all
  have codes: "the (code_of CONTEXT_GRAPH_NODE_KINDS (gn_kind node)) < 256"
    "the (code_of FRESHNESS_CODES (gn_freshness node)) < 256" "the (code_of RISK_CODES (gn_risk node)) < 256"
    using n(2) code_of_bound code_list_lengths unfolding node_coded_def by (meson less_le_trans)+
  have elements: "element CONTEXT_GRAPH_NODE_KINDS (the (code_of CONTEXT_GRAPH_NODE_KINDS (gn_kind node))) = gn_kind node"
    "element FRESHNESS_CODES (the (code_of FRESHNESS_CODES (gn_freshness node))) = gn_freshness node"
    "element RISK_CODES (the (code_of RISK_CODES (gn_risk node))) = gn_risk node"
    using n(2) element_code unfolding node_coded_def by blast+
  have path: "optional_text ?g (optional_sid ?si (gn_path node) mod 2 ^ 32) = Ok (nonempty_text (gn_path node))"
    by (rule optional_text_back [OF wf]) (auto intro: strings simp: node_strings_def option_strings_def)
  have hash: "optional_text ?g (optional_sid ?si (gn_contentHash node) mod 2 ^ 32) = Ok (nonempty_text (gn_contentHash node))"
    by (rule optional_text_back [OF wf]) (auto intro: strings simp: node_strings_def option_strings_def)
  have "gn_path node \<noteq> Some []"
    using sealed_strings_facts(3) [OF file_sealed [OF wf(1)]] mem
    by (auto simp: list_all_iff writerRelativePath_def dest!: bspec)
  then have full: "nonempty_text (gn_path node) = gn_path node" by (simp add: nonempty_text_def)
  note cell = file_node_cell [OF wf(1) i, folded node(1)]
  have read: "getUint w bs (?row + off) = Ok (cell (node_row input ?si (i, node)) off w)" if "off + w \<le> 40" for off w
    using cell [OF that] node(1) by simp
  have first: "getUint8 bs ?row = Ok (cell (node_row input ?si (i, node)) 0 1)" using read [of 0 1] by simp
  have third: "getUint8 bs (Suc (Suc ?row)) = Ok (cell (node_row input ?si (i, node)) 2 1)" using read [of 2 1] by simp
  have trust: "int (nat (quantizeTrust (gn_trust node)) mod 2 ^ 16) = quantizeTrust (gn_trust node)"
    using quantizeTrust_range [of "gn_trust node"] by (simp add: nat_less_iff)
  obtain m where m: "metadataOf ?g i = Ok m" "map_of m = map_of (gn_metadata node)"
    using file_metadataOf [OF wf i] node by metis
  have row: "nodeRow ?g (int i) = Ok ?row"
    using i by (simp add: nodeRow_def requireNode_def geometry_at_def h row_bytes_defs)
  have "hydrateNode ?g (int i) = Ok ((node_view_of input i node)\<lparr>nv_metadata := m\<rparr>)"
    unfolding hydrateNode_def row bind_outcome.simps hydrateNodeAt_def Let_def row_field_defs
    using path hash full m(1) small codes elements trust file_string [OF wf id, of h] file_string [OF wf label, of h]
      optional_number_back node(4) node_flags_small token_cost_small [of "gn_tokenCost node"]
    by (simp add: first third read node_row_def Let_def node_row_cells geometry_at_def [of bs h D, THEN arg_cong [of _ _ ig_bytes]]
        locator_ok_def node_view_of_def del: getUint_Ok One_nat_def)
  then show ?thesis using m(2) by (intro exI) (auto simp: node_view_of_def)
qed

end
