(* ===== verification/Index_Roundtrip.thy ===== *)
theory Index_Roundtrip
  imports Index_Readback
begin

text \<open>
  The edges of a written file: both adjacency tables enumerate the edges of the snapshot in the order of
  the writer, and the properties that tie the writer to the reader.
\<close>

subsection \<open>Adjacency\<close>

definition file_edges :: "write_input \<Rightarrow> graph_edge list" where
  "file_edges input = ordered_edges (map gn_id (sorted_nodes input)) (gs_edges (wi_snapshot input))"

lemma file_edge_facts:
  assumes "written_file input ix bs D"
  shows "length (ix_edgeRows ix) = length (file_edges input)"
    "ix_sources ix = map (\<lambda>e. index_in (map gn_id (sorted_nodes input)) (ge_from e)) (file_edges input)"
    "ix_targets ix = map (\<lambda>e. index_in (map gn_id (sorted_nodes input)) (ge_to e)) (file_edges input)"
    "sorted (ix_sources ix)" "list_all (\<lambda>x. x < length (sorted_nodes input)) (ix_sources ix)"
    "list_all (\<lambda>x. x < length (sorted_nodes input)) (ix_targets ix)"
  using assms file_counts(2) [OF assms]
  by (auto simp: written_file_def collected_def parts_ok_def Let_def file_edges_def)

lemma u32_at:
  assumes "section_at bs d (u32Section vs) n" "k < length vs" "vs ! k < 2 ^ 32"
  shows "getUint32 bs (sd_offset d + k * 4) = Ok (vs ! k)"
proof -
  have "k * 4 + 4 \<le> length (u32Section vs)" using assms(2) by simp
  from section_at_read [OF assms(1) this] u32Section_nth [OF assms(2,3)] show ?thesis by simp
qed

lemma csr_offset_at:
  assumes "section_at bs d (u32Section (csrOffsets buckets n)) m" "\<forall>b \<in> set buckets. b < n" "length buckets \<le> 2 ^ 26" "k \<le> n"
  shows "getUint32 bs (sd_offset d + k * 4) = Ok (csrOffsets buckets n ! k)"
proof (rule u32_at [OF assms(1)])
  have "csrOffsets buckets n ! k \<le> length buckets"
    using csrOffsets_facts(2) [OF assms(2,4) le_refl] csrOffsets_facts(1) [OF assms(2)] by simp
  then show "csrOffsets buckets n ! k < 2 ^ 32" using assms(3) by simp
qed (use assms(4) in simp)

text \<open>Slots of a bucket that hold the given items are the items of that bucket.\<close>

lemma ordered_bucket:
  assumes "sorted (map f order)" "\<forall>k \<in> set order. f k < n" "i < n"
  shows "map ((!) order) [csrOffsets (map f order) n ! i..<csrOffsets (map f order) n ! (i + 1)] = filter (\<lambda>k. f k = i) order"
proof -
  have "filter (\<lambda>k. map f order ! k = i) [0..<length (map f order)] =
      [csrOffsets (map f order) n ! i..<csrOffsets (map f order) n ! (i + 1)]"
    by (rule sorted_bucket) (use assms in auto)
  then have slots: "[csrOffsets (map f order) n ! i..<csrOffsets (map f order) n ! (i + 1)] =
      filter (\<lambda>k. map f order ! k = i) [0..<length (map f order)]" by (rule sym)
  have "map ((!) order) [csrOffsets (map f order) n ! i..<csrOffsets (map f order) n ! (i + 1)] =
      map ((!) order) (filter ((\<lambda>k. f k = i) \<circ> (!) order) [0..<length order])"
    unfolding slots by (intro arg_cong [where f = "map ((!) order)"] filter_cong) auto
  also have "\<dots> = filter (\<lambda>k. f k = i) (map ((!) order) [0..<length order])" by (simp add: filter_map)
  finally show ?thesis by (simp add: map_nth)
qed

lemma in_order_bucket: "filter (\<lambda>k. ts ! k = i) (in_order ts) = filter (\<lambda>k. ts ! k = i) [0..<length ts]"
  unfolding in_order_def filter_sort
  by (rule sort_key_id_if_sorted)
    (simp add: sorted_map, rule sorted_wrt_mono_rel [of _ "(<)"], auto simp: less_eq_prod_def sorted_wrt_filter)

definition edges_from :: "write_input \<Rightarrow> nat \<Rightarrow> nat list" where
  "edges_from input i =
     filter (\<lambda>k. ge_from (file_edges input ! k) = gn_id (sorted_nodes input ! i)) [0..<length (file_edges input)]"

definition edges_to :: "write_input \<Rightarrow> nat \<Rightarrow> nat list" where
  "edges_to input i =
     filter (\<lambda>k. ge_to (file_edges input ! k) = gn_id (sorted_nodes input ! i)) [0..<length (file_edges input)]"

text \<open>The view of an edge from one of its ends; the other end is the neighbour.\<close>

definition edge_view_from :: "write_input \<Rightarrow> (graph_edge \<Rightarrow> units) \<Rightarrow> nat \<Rightarrow> edge_view" where
  "edge_view_from input other k =
     (let e = file_edges input ! k
      in \<lparr>ev_edge = int k, ev_target = int (index_in (map gn_id (sorted_nodes input)) (other e)),
          ev_type = the (code_of CONTEXT_GRAPH_EDGE_TYPES (ge_type e)),
          ev_confidence = the (code_of CONFIDENCE_CODES (ge_confidence e))\<rparr>)"

lemma file_distinct:
  assumes "index_parts_of input = Ok ix"
  shows "distinct (map gn_id (sorted_nodes input))"
  using index_parts_facts [OF assms] by blast

lemma index_in_eq:
  assumes "distinct ids" "x \<in> set ids" "i < length ids"
  shows "index_in ids x = i \<longleftrightarrow> x = ids ! i"
  using index_in_nth [OF assms(2)] assms(1,3) nth_eq_iff_index_eq by metis

lemma file_edge_coded:
  assumes "written_file input ix bs D" "k < length (file_edges input)"
  shows "edge_coded (map gn_id (sorted_nodes input)) (file_edges input ! k)"
proof -
  have "file_edges input ! k \<in> set (gs_edges (wi_snapshot input))"
    using nth_mem [OF assms(2)] by (simp add: file_edges_def ordered_edges_def)
  then show ?thesis using sealed_strings_facts(2) [OF file_sealed [OF assms(1)]] by (simp add: list_all_iff)
qed

lemma file_edge_row:
  assumes "written_file input ix bs D" "k < length (file_edges input)"
  shows "off + w \<le> 16 \<Longrightarrow>
      getUint w bs (sd_offset (D EDGE_TABLE) + k * 16 + off) = Ok (cell (ix_edgeRows ix ! k) off w)"
    and "edge_written (ix_strings ix) (map gn_id (sorted_nodes input)) (ix_provenance ix) (file_edges input ! k) (ix_edgeRows ix ! k)"
proof -
  show w: "edge_written (ix_strings ix) (map gn_id (sorted_nodes input)) (ix_provenance ix) (file_edges input ! k) (ix_edgeRows ix ! k)"
    using assms by (auto simp: written_file_def collected_def Let_def edges_written_def file_edges_def dest: list_all2_nthD)
  have "\<forall>r \<in> set (ix_edgeRows ix). length r = 16"
    using assms(1) by (auto simp: written_file_def parts_ok_def Let_def list_all_iff edge_row_ok_def)
  moreover have "section_at bs (D EDGE_TABLE) (concat (ix_edgeRows ix)) (length (ix_edgeRows ix))"
    using file_section [OF assms(1), of EDGE_TABLE] by simp
  ultimately show "getUint w bs (sd_offset (D EDGE_TABLE) + k * 16 + off) = Ok (cell (ix_edgeRows ix ! k) off w)" if "off + w \<le> 16"
    using row_cell [of bs "D EDGE_TABLE" "ix_edgeRows ix" "length (ix_edgeRows ix)" 16 k off w] that
      file_edge_facts(1) [OF assms(1)] assms(2) by simp
qed

lemma file_edge_cells:
  assumes "written_file input ix bs D" "k < length (file_edges input)"
  shows "cell (ix_edgeRows ix ! k) 0 4 = index_in (map gn_id (sorted_nodes input)) (ge_to (file_edges input ! k))"
    "cell (ix_edgeRows ix ! k) 4 1 = the (code_of CONTEXT_GRAPH_EDGE_TYPES (ge_type (file_edges input ! k)))"
    "cell (ix_edgeRows ix ! k) 5 1 = the (code_of CONFIDENCE_CODES (ge_confidence (file_edges input ! k)))"
    "cell (ix_edgeRows ix ! k) 12 2 = 0xffff"
    "cell (ix_edgeRows ix ! k) 8 4 < length (ix_provenance ix)"
    "ix_provenance ix ! cell (ix_edgeRows ix ! k) 8 4 = provenance_of (ix_strings ix) (ge_provenance (file_edges input ! k))"
proof -
  let ?e = "file_edges input ! k" and ?ids = "map gn_id (sorted_nodes input)"
  note c = file_edge_coded [OF assms]
  obtain p where p: "p < length (ix_provenance ix)" "ix_provenance ix ! p = provenance_of (ix_strings ix) (ge_provenance ?e)"
    "ix_edgeRows ix ! k = edge_row_bytes (index_in ?ids (ge_to ?e)) (the (code_of CONTEXT_GRAPH_EDGE_TYPES (ge_type ?e)))
       (the (code_of CONFIDENCE_CODES (ge_confidence ?e))) p"
    using file_edge_row(2) [OF assms] by (auto simp: edge_written_def)
  have "index_in ?ids (ge_to ?e) < 2 ^ 24"
    using index_in_nth [of "ge_to ?e" ?ids] c file_counts(1) [OF assms(1)] by (simp add: edge_coded_def)
  moreover have "the (code_of CONTEXT_GRAPH_EDGE_TYPES (ge_type ?e)) < 256" "the (code_of CONFIDENCE_CODES (ge_confidence ?e)) < 256"
    using c code_of_bound code_list_lengths unfolding edge_coded_def by (meson less_le_trans)+
  moreover have "p < 2 ^ 32" using p(1) file_counts(3,4) [OF assms(1)] by simp
  ultimately show "cell (ix_edgeRows ix ! k) 0 4 = index_in (map gn_id (sorted_nodes input)) (ge_to (file_edges input ! k))"
    "cell (ix_edgeRows ix ! k) 4 1 = the (code_of CONTEXT_GRAPH_EDGE_TYPES (ge_type (file_edges input ! k)))"
    "cell (ix_edgeRows ix ! k) 5 1 = the (code_of CONFIDENCE_CODES (ge_confidence (file_edges input ! k)))"
    "cell (ix_edgeRows ix ! k) 12 2 = 0xffff"
    "cell (ix_edgeRows ix ! k) 8 4 < length (ix_provenance ix)"
    "ix_provenance ix ! cell (ix_edgeRows ix ! k) 8 4 = provenance_of (ix_strings ix) (ge_provenance (file_edges input ! k))"
    using p(1,2) by (simp_all add: p(3) edge_row_cells CONTEXT_INDEX_PROFILE_MASK_RESERVED_def del: One_nat_def)
qed

text \<open>A reader admits an edge under every mask that asks for a profile at all.\<close>

definition some_profile :: "32 word \<Rightarrow> bool" where
  "some_profile profileMask \<longleftrightarrow> 0xffff AND profileMask \<noteq> 0"

lemma file_edge_view:
  assumes wf: "written_file input ix bs D" and k: "k < length (file_edges input)" and mask: "some_profile profileMask"
  shows "edge_admitted (geometry_at bs h D) profileMask k"
    "edge_view_at (geometry_at bs h D) None k = edge_view_from input ge_to k"
    "sources ! k = index_in (map gn_id (sorted_nodes input)) (ge_from (file_edges input ! k)) \<Longrightarrow>
       edge_view_at (geometry_at bs h D) (Some sources) k = edge_view_from input ge_from k"
proof -
  let ?g = "geometry_at bs h D"
  have g: "ig_edgeBase ?g = sd_offset (D EDGE_TABLE)" "ig_bytes ?g = bs" by (simp_all add: geometry_at_def)
  have at: "edge_byte ?g w off k = cell (ix_edgeRows ix ! k) off w" if "off + w \<le> 16" for w off
    using file_edge_row(1) [OF wf k that] by (simp add: edge_byte_def g)
  note b = at [of 0 4] at [of 4 1] at [of 5 1] at [of 12 2]
  note c = file_edge_cells [OF wf k]
  show "edge_admitted ?g profileMask k"
    using b(4) c(4) mask by (simp add: edge_admitted_def some_profile_def)
  show "edge_view_at ?g None k = edge_view_from input ge_to k"
    using b(1-3) c(1-3) by (simp add: edge_view_at_def edge_view_from_def Let_def del: One_nat_def)
  show "edge_view_at ?g (Some sources) k = edge_view_from input ge_from k"
    if "sources ! k = index_in (map gn_id (sorted_nodes input)) (ge_from (file_edges input ! k))"
    using b(2,3) c(2,3) that by (simp add: edge_view_at_def edge_view_from_def Let_def del: One_nat_def)
qed

lemma file_buckets:
  assumes wf: "written_file input ix bs D" and d: "distinct (map gn_id (sorted_nodes input))"
    and i: "i < length (sorted_nodes input)" and h: "g = geometry_at bs h D"
  shows "bucket g (ig_outOffsetBase g) (ig_outEdgeBase g) i = edges_from input i"
    "bucket g (ig_inOffsetBase g) (ig_inEdgeBase g) i = edges_to input i"
proof -
  let ?n = "length (sorted_nodes input)" and ?m = "length (file_edges input)" and ?ids = "map gn_id (sorted_nodes input)"
  note f = file_edge_facts [OF wf] and counts = file_counts [OF wf]
  have lens: "length (ix_sources ix) = ?m" "length (ix_targets ix) = ?m" by (simp_all add: f(2,3))
  have m: "?m \<le> 2 ^ 26" using counts(3) f(1) by simp
  have rows: "length (ix_nodeRows ix) = ?n" by (rule counts(2))
  let ?src = "map (\<lambda>k. ix_sources ix ! k) [0..<?m]" and ?order = "in_order (ix_targets ix)"
  have src: "?src = ix_sources ix" using lens(1) by (metis map_nth)
  have below: "\<forall>b \<in> set (ix_sources ix). b < ?n" "\<forall>b \<in> set (map ((!) (ix_targets ix)) ?order). b < ?n"
    using f(5) in_order_bound [OF f(6)] by (simp_all add: list_all_iff)
  have out: "section_at bs (D OUT_CSR_OFFSETS) (u32Section (csrOffsets (ix_sources ix) ?n)) (?n + 1)"
    "section_at bs (D OUT_CSR_EDGES) (u32Section [0..<?m]) ?m"
    using file_section [OF wf, of OUT_CSR_OFFSETS] file_section [OF wf, of OUT_CSR_EDGES] rows f(1) by (simp_all add: Let_def)
  have inn: "section_at bs (D IN_CSR_OFFSETS) (u32Section (csrOffsets (map ((!) (ix_targets ix)) ?order) ?n)) (?n + 1)"
    "section_at bs (D IN_CSR_EDGES) (u32Section ?order) ?m"
    using file_section [OF wf, of IN_CSR_OFFSETS] file_section [OF wf, of IN_CSR_EDGES] rows lens
    by (simp_all add: Let_def in_order_perm(3))
  have bases: "ig_outOffsetBase g = sd_offset (D OUT_CSR_OFFSETS)" "ig_outEdgeBase g = sd_offset (D OUT_CSR_EDGES)"
    "ig_inOffsetBase g = sd_offset (D IN_CSR_OFFSETS)" "ig_inEdgeBase g = sd_offset (D IN_CSR_EDGES)" "ig_bytes g = bs"
    by (simp_all add: h geometry_at_def)
  have slots: "map (slot_edge g base) [a..<b] = map ((!) vs) [a..<b]"
    if "\<And>k. k < ?m \<Longrightarrow> getUint32 bs (base + k * 4) = Ok (vs ! k)" "b \<le> ?m" for base vs a b
    using that by (auto simp: slot_edge_def u32_def bases)
  have ends: "csrOffsets (ix_sources ix) ?n ! (i + 1) \<le> ?m"
    "csrOffsets (map ((!) (ix_targets ix)) ?order) ?n ! (i + 1) \<le> ?m"
    using csrOffsets_facts(1) [OF below(1)] csrOffsets_facts(2) [OF below(1), of "i + 1" ?n]
      csrOffsets_facts(1) [OF below(2)] csrOffsets_facts(2) [OF below(2), of "i + 1" ?n] i lens
    by (simp_all add: in_order_perm(3))
  have offsets: "u32 bs (sd_offset (D OUT_CSR_OFFSETS) + k * 4) = csrOffsets (ix_sources ix) ?n ! k"
    "u32 bs (sd_offset (D IN_CSR_OFFSETS) + k * 4) = csrOffsets (map ((!) (ix_targets ix)) ?order) ?n ! k" if "k \<le> ?n" for k
    using csr_offset_at [OF out(1) below(1) _ that] csr_offset_at [OF inn(1) below(2) _ that] m lens
    by (simp_all add: u32_def in_order_perm(3))
  have "bucket g (ig_outOffsetBase g) (ig_outEdgeBase g) i =
      map ((!) [0..<?m]) [csrOffsets ?src ?n ! i..<csrOffsets ?src ?n ! (i + 1)]"
    unfolding bucket_def bases src using offsets(1) [of i] offsets(1) [of "i + 1"] i
    by (simp only: Suc_leI Suc_eq_plus1 less_imp_le, intro slots) (use u32_at [OF out(2)] m ends(1) in auto)
  also have "\<dots> = filter (\<lambda>k. ix_sources ix ! k = i) [0..<?m]"
    by (rule ordered_bucket) (use f(4,5) lens i in \<open>simp_all add: src list_all_length\<close>)
  also have "\<dots> = edges_from input i"
    unfolding edges_from_def
    by (rule filter_cong [OF refl])
      (use file_edge_coded [OF wf] i in \<open>auto simp: f(2) index_in_eq [OF d] edge_coded_def\<close>)
  finally show "bucket g (ig_outOffsetBase g) (ig_outEdgeBase g) i = edges_from input i" .
  have order_small: "k < length ?order" "?order ! k < 2 ^ 32" if "k < ?m" for k
  proof -
    show "k < length ?order" using that lens by (simp add: in_order_perm(3))
    from nth_mem [OF this] show "?order ! k < 2 ^ 32" using m lens by (simp add: in_order_perm(2))
  qed
  have "bucket g (ig_inOffsetBase g) (ig_inEdgeBase g) i =
      map ((!) ?order) [csrOffsets (map ((!) (ix_targets ix)) ?order) ?n ! i..<csrOffsets (map ((!) (ix_targets ix)) ?order) ?n ! (i + 1)]"
    unfolding bucket_def bases using offsets(2) [of i] offsets(2) [of "i + 1"] i
    by (simp only: Suc_leI Suc_eq_plus1 less_imp_le, intro slots)
      (use u32_at [OF inn(2)] m ends(2) order_small in auto)
  also have "\<dots> = filter (\<lambda>k. ix_targets ix ! k = i) ?order"
    by (rule ordered_bucket [where f = "(!) (ix_targets ix)"]) (use in_order_sorted [of "ix_targets ix"] below(2) i in auto)
  also have "\<dots> = edges_to input i"
    unfolding in_order_bucket edges_to_def lens
    by (rule filter_cong [OF refl])
      (use file_edge_coded [OF wf] i in \<open>auto simp: f(3) index_in_eq [OF d] edge_coded_def\<close>)
  finally show "bucket g (ig_inOffsetBase g) (ig_inEdgeBase g) i = edges_to input i" .
qed

text \<open>The index of edge sources the reader builds on first use.\<close>

lemma fill_bucket_pure:
  assumes "fill_bucket g i b = Ok b'"
  shows "b' = fold (\<lambda>k b. b[k := i]) (bucket g (ig_outOffsetBase g) (ig_outEdgeBase g) i) b"
proof -
  let ?base = "ig_outOffsetBase g" and ?bytes = "ig_bytes g"
  have run: "each_row (\<lambda>slot b. bind_outcome (getUint32 ?bytes (ig_outEdgeBase g + slot * 4)) (\<lambda>edge. Ok (b[edge := i])))
      [u32 ?bytes (?base + i * 4)..<u32 ?bytes (?base + (i + 1) * 4)] b = Ok b'"
    using assms by (auto simp: fill_bucket_def u32_def)
  have "b' = fold (\<lambda>slot b. b[slot_edge g (ig_outEdgeBase g) slot := i])
      [u32 ?bytes (?base + i * 4)..<u32 ?bytes (?base + (i + 1) * 4)] b"
    by (rule each_row_pure [OF run]) (auto simp: slot_edge_def u32_def)
  then show ?thesis unfolding bucket_def fold_map o_def .
qed

lemma fold_marks:
  "length (fold (\<lambda>k b. b[k := i]) ks b) = length b \<and>
   (\<forall>k < length b. fold (\<lambda>k b. b[k := i]) ks b ! k = (if k \<in> set ks then i else b ! k))"
  by (induction ks arbitrary: b) (auto simp: nth_list_update)

lemma file_source_index:
  assumes wf: "written_file input ix bs D" and d: "distinct (map gn_id (sorted_nodes input))"
    and h: "g = geometry_at bs h D" "ih_nodeCount h = length (sorted_nodes input)" "ih_edgeCount h = length (file_edges input)"
    and ok: "csr_ok g (ig_outOffsetBase g) (ig_outEdgeBase g)" "0 < length (sorted_nodes input)"
  shows "buildEdgeSourceIndex g =
    Ok (map (\<lambda>e. index_in (map gn_id (sorted_nodes input)) (ge_from e)) (file_edges input))"
proof -
  let ?n = "length (sorted_nodes input)" and ?m = "length (file_edges input)" and ?ids = "map gn_id (sorted_nodes input)"
  let ?src = "\<lambda>k. index_in ?ids (ge_from (file_edges input ! k))"
  have counts: "ig_nodeCount g = ?n" "ig_edgeCount g = ?m" by (simp_all add: h geometry_at_def)
  obtain sources where s: "buildEdgeSourceIndex g = Ok sources" "length sources = ?m"
    using edge_source_index [OF ok(1)] ok(2) counts by auto
  have run: "each_row (fill_bucket g) [0..<?n] (replicate ?m 0) = Ok sources"
    using s(1) by (simp add: buildEdgeSourceIndex_def counts)
  let ?P = "\<lambda>done b. set done \<subseteq> {..<?n} \<and> length b = ?m \<and> (\<forall>k < ?m. b ! k = (if ?src k \<in> set done then ?src k else 0))"
  have "?P [0..<?n] sources"
  proof (rule each_row_prefix [OF run])
    fix "done" i b b' assume i: "i \<in> set [0..<?n]" and P: "?P done b" and fb: "fill_bucket g i b = Ok b'"
    from i have "i < ?n" by simp
    from file_buckets(1) [OF wf d this h(1)]
    have b': "b' = fold (\<lambda>k b. b[k := i]) (edges_from input i) b" using fill_bucket_pure [OF fb] by simp
    have mem: "k \<in> set (edges_from input i) \<longleftrightarrow> ?src k = i" if "k < ?m" for k
      using that file_edge_coded [OF wf that] \<open>i < ?n\<close>
      by (auto simp: edges_from_def index_in_eq [OF d] edge_coded_def)
    show "?P (done @ [i]) b'" using P fold_marks [of i "edges_from input i" b] mem \<open>i < ?n\<close> by (auto simp: b')
  qed simp
  moreover have "?src k < ?n" if "k < ?m" for k
    using index_in_nth [of _ ?ids] file_edge_coded [OF wf that] by (simp add: edge_coded_def)
  ultimately have "sources = map (\<lambda>e. index_in ?ids (ge_from e)) (file_edges input)"
    by (intro nth_equalityI) auto
  with s(1) show ?thesis by simp
qed

subsection \<open>Round trips\<close>

lemma written_file_opens:
  assumes "encodeContextIndex input = Ok bs" "length bs \<le> 2 ^ 29" "write_input_ok input hash"
    "oo_expectedSnapshotHash options \<in> {None, Some hash}"
    "oo_expectedConfigHash options \<in> {None, Some (toHex (wi_configHash input))}"
  obtains ix D h r where "openContextIndex bs options = Ok r" "br_geometry r = geometry_at bs h D"
    "written_file input ix bs D" "distinct (map gn_id (sorted_nodes input))"
    "ih_nodeCount h = length (sorted_nodes input)" "ih_edgeCount h = length (file_edges input)"
proof -
  obtain ix si D where w: "index_parts_of input = Ok ix" "parts_ok ix" "holds_parts bs ix D"
    "collected input (sorted_nodes input) (lexical_of input) si ix"
    "sealed_strings input (sorted_nodes input) (lexical_of input) = Ok si"
    "openContextIndex bs options =
       Ok \<lparr>br_geometry = geometry_at bs (assembled_header (parts_counts input ix)) D, br_snapshotHash = hash,
           br_configHash = toHex (wi_configHash input), br_termCount = tt_termCount (ix_exact ix)\<rparr>"
    using assms by (rule written_index_opens)
  have "ix_strings ix = si" using w(4) by (simp add: collected_def Let_def)
  then have wf: "written_file input ix bs D" using w assms(2) by (simp add: written_file_def)
  show thesis
    by (rule that [of _ "assembled_header (parts_counts input ix)", OF w(6) _ wf file_distinct [OF w(1)]])
      (simp_all add: assembled_header_def parts_counts_def file_counts(2) [OF wf] file_edge_facts(1) [OF wf])
qed

definition no_options :: open_options where
  "no_options = \<lparr>oo_expectedSnapshotHash = None, oo_expectedConfigHash = None\<rparr>"

definition node_read_back :: "binary_reader \<Rightarrow> write_input \<Rightarrow> nat \<times> graph_node \<Rightarrow> bool" where
  "node_read_back r input entry \<longleftrightarrow>
     (case hydrateNode (br_geometry r) (int (fst entry)) of
        Ok v \<Rightarrow> map_of (nv_metadata v) = map_of (gn_metadata (snd entry)) \<and>
                v\<lparr>nv_metadata := []\<rparr> = node_view_of input (fst entry) (snd entry)
      | _ \<Rightarrow> False)"

lemma sample_readable: "readable_input sample_input"
  by (simp add: readable_input_def plain_input_def plain_text_def written_strings_def sorted_nodes_def lexical_of_def
      node_strings_def edge_strings_def option_strings_def entry_strings_def cells_of_def cell_defs sample_defs
      high_surrogate_def low_surrogate_def starts_with_mark_def no_proto_keys_def PROTO_def units_of_def locator_ok_def)

text \<open>C7: every node of a snapshot is read back from the file the writer made of it: the identifier, the
  label, the path, the position, the hash, the enumerated fields, the flags, the quantized trust and the
  rounded cost, and the metadata with the type of each value.\<close>

theorem written_nodes_read_back:
  assumes "encodeContextIndex input = Ok bs" "length bs \<le> 2 ^ 29" "write_input_ok input hash" "readable_input input"
  shows "case openContextIndex bs no_options of
    Ok r \<Rightarrow> list_all (node_read_back r input) (enumerate 0 (sorted_nodes input)) | _ \<Rightarrow> False"
proof -
  obtain ix D h r where w: "openContextIndex bs no_options = Ok r" "br_geometry r = geometry_at bs h D"
    "written_file input ix bs D" "distinct (map gn_id (sorted_nodes input))"
    "ih_nodeCount h = length (sorted_nodes input)" "ih_edgeCount h = length (file_edges input)"
    by (rule written_file_opens [OF assms(1-3), of no_options]) (simp_all add: no_options_def)
  have "node_read_back r input (i, sorted_nodes input ! i)" if i: "i < length (sorted_nodes input)" for i
  proof -
    have "sorted_nodes input ! i \<in> set (gs_nodes (wi_snapshot input))"
      using nth_mem [OF i] by (simp add: sorted_nodes_def)
    then have node: "distinct (map fst (gn_metadata (sorted_nodes input ! i)))" "no_proto_keys (sorted_nodes input ! i)"
      "locator_ok (sorted_nodes input ! i)" "plain_input input"
      using assms(3,4) by (auto simp: write_input_ok_def metadata_objects_def readable_input_def list_all_iff)
    show ?thesis
      using file_hydrateNode [OF w(3) node(4) i refl node(1-3) w(5)] by (auto simp: node_read_back_def w(2))
  qed
  then show ?thesis by (auto simp: w(1) list_all_iff in_set_enumerate_eq)
qed

theorem written_nodes_read_back_witness:
  "\<exists>bs. encodeContextIndex sample_input = Ok bs \<and>
    (case openContextIndex bs no_options of
       Ok r \<Rightarrow> list_all (node_read_back r sample_input) (enumerate 0 (sorted_nodes sample_input)) | _ \<Rightarrow> False)"
proof -
  obtain bs where bs: "encodeContextIndex sample_input = Ok bs" "length bs \<le> 2 ^ 29" using sample_encodes by blast
  from written_nodes_read_back [OF bs sample_ok sample_readable] bs(1) show ?thesis by blast
qed



end
