(* ===== verification/Index_Guards.thy ===== *)
theory Index_Guards
  imports Index_Hydrate
begin

text \<open>
  What the methods of an opened reader can return: which errors they raise, and that the codes they decode
  are members of their enums.
\<close>

lemma node_row_read:
  assumes "nodes_ok g" "n < ig_nodeCount g" "off + w \<le> 40"
  shows "getUint w (ig_bytes g) (ig_nodeBase g + n * 40 + off) =
    Ok (le_nat (sub_bytes (ig_nodeBase g + n * 40 + off) w (ig_bytes g)))"
proof -
  have "ig_nodeBase g + n * 40 + 40 \<le> length (ig_bytes g)" using assms(1,2) by (auto simp: nodes_ok_def Let_def)
  then show ?thesis using assms(3) by simp
qed

lemma requireNode_cases:
  "requireNode g node = (if 0 \<le> node \<and> nat node < ig_nodeCount g then Ok () else Thrown RangeError)"
  by (auto simp: requireNode_def)

lemma nodeRow_cases:
  "nodeRow g node =
     (if 0 \<le> node \<and> nat node < ig_nodeCount g then Ok (ig_nodeBase g + nat node * 40) else Thrown RangeError)"
  by (simp add: nodeRow_def requireNode_cases row_bytes_defs)

lemma degree_read:
  assumes "csr_ok g offsetBase slots" "0 \<le> node" "nat node < ig_nodeCount g"
  shows "degree_at g offsetBase node = Ok (int (length (bucket g offsetBase slots (nat node))))"
proof -
  note r = csr_row_range [OF assms(1,3)]
  have "u32 (ig_bytes g) (offsetBase + nat node * 4) \<le> u32 (ig_bytes g) (offsetBase + (nat node + 1) * 4)"
    using assms(1,3) unfolding csr_ok_def by (metis Suc_eq_plus1 Suc_leI le_add1)
  then show ?thesis
    using assms(2,3) r(2,3) by (simp add: degree_at_def requireNode_cases bucket_def of_nat_diff del: getUint_Ok)
qed

text \<open>C37: the scalar fields of an opened index are well typed: for every integer a caller passes, the fields
  of a node are returned with codes of the node kinds, freshness and risk classes and with the lengths of
  its two adjacency lists as degrees, or the integer is out of range and the answer is a range error.\<close>

theorem opened_index_score_fields:
  "case openContextIndex bs options of
     Ok r \<Rightarrow>
       let g = br_geometry r; inside = (0 \<le> node \<and> nat node < ig_nodeCount g)
       in (case reader_nodeScoreFields g node of
             Ok f \<Rightarrow> inside \<and> sf_kind f < length CONTEXT_GRAPH_NODE_KINDS \<and> sf_freshness f < length FRESHNESS_CODES \<and>
               sf_risk f < length RISK_CODES \<and> sf_trust f \<in> {0..65535} \<and> sf_group f \<in> {0..<int (ig_nodeCount g)} \<and>
               sf_outDegree f = length (bucket g (ig_outOffsetBase g) (ig_outEdgeBase g) (nat node)) \<and>
               sf_inDegree f = length (bucket g (ig_inOffsetBase g) (ig_inEdgeBase g) (nat node))
           | Thrown e \<Rightarrow> \<not> inside \<and> e = RangeError
           | _ \<Rightarrow> False)
   | _ \<Rightarrow> True"
proof (cases "openContextIndex bs options")
  case (Ok r)
  define g where "g = br_geometry r"
  have ok: "csr_ok g (ig_outOffsetBase g) (ig_outEdgeBase g)" "csr_ok g (ig_inOffsetBase g) (ig_inEdgeBase g)" "nodes_ok g"
    using open_index_ok [OF Ok] by (simp_all add: index_ok_def g_def)
  show ?thesis
  proof (cases "0 \<le> node \<and> nat node < ig_nodeCount g")
    case True
    let ?n = "nat node"
    note read = node_row_read [OF ok(3), of ?n]
    have trust: "le_nat (sub_bytes (ig_nodeBase g + ?n * 40 + 4) 2 (ig_bytes g)) < 256 ^ 2"
      by (rule le_nat_sub_bytes_less) (use ok(3) True in \<open>auto simp: nodes_ok_def Let_def\<close>)
    have row: "le_nat (sub_bytes (ig_nodeBase g + ?n * 40) 1 (ig_bytes g)) < length CONTEXT_GRAPH_NODE_KINDS"
      "le_nat (sub_bytes (ig_nodeBase g + ?n * 40 + 1) 1 (ig_bytes g)) < length FRESHNESS_CODES"
      "le_nat (sub_bytes (ig_nodeBase g + ?n * 40 + 2) 1 (ig_bytes g)) < length RISK_CODES"
      "le_nat (sub_bytes (ig_nodeBase g + ?n * 40 + 32) 4 (ig_bytes g)) < ig_nodeCount g"
      using ok(3) True by (auto simp: nodes_ok_def Let_def u32_def)
    have "reader_nodeScoreFields g node = Ok
       \<lparr>sf_kind = le_nat (sub_bytes (ig_nodeBase g + ?n * 40) 1 (ig_bytes g)),
        sf_freshness = le_nat (sub_bytes (ig_nodeBase g + ?n * 40 + 1) 1 (ig_bytes g)),
        sf_risk = le_nat (sub_bytes (ig_nodeBase g + ?n * 40 + 2) 1 (ig_bytes g)),
        sf_flags = word_of_nat (le_nat (sub_bytes (ig_nodeBase g + ?n * 40 + 3) 1 (ig_bytes g))),
        sf_trust = int (le_nat (sub_bytes (ig_nodeBase g + ?n * 40 + 4) 2 (ig_bytes g))),
        sf_tokenCost = int (le_nat (sub_bytes (ig_nodeBase g + ?n * 40 + 8) 4 (ig_bytes g))),
        sf_group = int (le_nat (sub_bytes (ig_nodeBase g + ?n * 40 + 32) 4 (ig_bytes g))),
        sf_outDegree = length (bucket g (ig_outOffsetBase g) (ig_outEdgeBase g) ?n),
        sf_inDegree = length (bucket g (ig_inOffsetBase g) (ig_inEdgeBase g) ?n)\<rparr>"
      using True read [of 0 1] read [of 1 1] read [of 2 1] read [of 3 1] read [of 4 2] read [of 8 4] read [of 32 4]
        degree_read [OF ok(1), of node] degree_read [OF ok(2), of node]
      unfolding reader_nodeScoreFields_def row_field_defs
      by (simp add: nodeRow_cases outDegree_def inDegree_def del: getUint_Ok One_nat_def)
    then show ?thesis using True row trust by (simp add: Ok Let_def g_def [symmetric])
  next
    case False
    then have "reader_nodeScoreFields g node = Thrown RangeError"
      by (auto simp: reader_nodeScoreFields_def nodeRow_cases)
    then show ?thesis using False by (simp add: Ok Let_def g_def [symmetric])
  qed
qed simp_all

text \<open>C38: on an opened index a name matches a node exactly when, as text in UTF-8, it is not empty and equals
  the node's label, the last segment of its path, or that segment without its last extension; the only
  error is a range error for a node out of range.\<close>

theorem opened_index_names:
  "case openContextIndex bs options of
     Ok r \<Rightarrow>
       let g = br_geometry r
       in nodeHasName g node name =
            (if 0 \<le> node \<and> nat node < ig_nodeCount g
             then Ok (has_name (node_label_bytes g (nat node)) (node_path_bytes g (nat node)) (utf8_encode name))
             else Thrown RangeError)
   | _ \<Rightarrow> True"
proof (cases "openContextIndex bs options")
  case (Ok r)
  then have "strings_ok (br_geometry r)" "nodes_ok (br_geometry r)"
    using open_index_ok [OF Ok] by (simp_all add: index_ok_def)
  then show ?thesis
    by (auto simp: Ok Let_def nodeHasName_def nodeRow_cases nodeHasNameAt_spec contextIndexNameProbe_def)
qed simp_all

text \<open>A table of two strings whose blob is the two bytes of one character, cut between them.\<close>

definition cut_table :: bytes where
  "cut_table = [1, 0, 0, 0, 2, 0, 0, 0, 0xC3, 0xA9]"

definition cut_section :: "section_descriptor \<Rightarrow> section_descriptor" where
  "cut_section d = d\<lparr>sd_offset := 0, sd_length := 10, sd_count := 2\<rparr>"


end
