(* ===== verification/Lexicon_Text.thy ===== *)
theory Lexicon_Text
  imports Index_Writer "HOL-Library.Sublist"
begin

text \<open>
  What the lexicon may index: \<open>runtime-index/lexicon-contract.ts\<close> (its configuration, errors and
  counters) and \<open>runtime-index/lexicon-text.ts\<close> (character classes, machine paths, key material).
  Text is the list of its UTF-16 code units; \<open>js_chars\<close> is what iterating a string yields.
\<close>

subsection \<open>The contract\<close>

datatype lexicon_error =
    field_not_lexical | unknown_field | machine_path | duplicate_document | node_out_of_range | lexicon_count_limit
  | score_not_finite | config_invalid

type_synonym 'a lexicon_answer = "lexicon_error + 'a"

fun bind_lexicon :: "'a lexicon_answer \<Rightarrow> ('a \<Rightarrow> 'b lexicon_answer) \<Rightarrow> 'b lexicon_answer" where
  "bind_lexicon (Inl e) f = Inl e"
| "bind_lexicon (Inr x) f = f x"

fun each_lexicon :: "('x \<Rightarrow> 's \<Rightarrow> 's lexicon_answer) \<Rightarrow> 'x list \<Rightarrow> 's \<Rightarrow> 's lexicon_answer" where
  "each_lexicon f [] s = Inr s"
| "each_lexicon f (x # xs) s = bind_lexicon (f x s) (each_lexicon f xs)"

definition refuseLexicon :: "bool \<Rightarrow> lexicon_error \<Rightarrow> unit lexicon_answer" where
  "refuseLexicon b code = (if b then Inl code else Inr ())"

lemma bind_Inr [simp]: "bind_lexicon r f = Inr y \<longleftrightarrow> (\<exists>x. r = Inr x \<and> f x = Inr y)"
  by (cases r) auto

lemma bind_Inl: "bind_lexicon r f = Inl e \<longleftrightarrow> r = Inl e \<or> (\<exists>x. r = Inr x \<and> f x = Inl e)"
  by (cases r) auto

lemma refuse_Inr [simp]: "refuseLexicon b code = Inr u \<longleftrightarrow> \<not> b"
  by (simp add: refuseLexicon_def)

lemma refuse_Inl [simp]: "refuseLexicon b code = Inl e \<longleftrightarrow> b \<and> e = code"
  by (auto simp: refuseLexicon_def)

lemma each_lexicon_invariant:
  assumes "each_lexicon f xs s = Inr s'" "I s" "\<And>x s s'. x \<in> set xs \<Longrightarrow> I s \<Longrightarrow> f x s = Inr s' \<Longrightarrow> I s'"
  shows "I s'"
  using assms by (induction xs arbitrary: s) auto

lemma each_lexicon_errors:
  assumes "each_lexicon f xs s = Inl e" "\<And>x s. x \<in> set xs \<Longrightarrow> f x s = Inl e \<Longrightarrow> P e"
  shows "P e"
  using assms by (induction xs arbitrary: s) (auto simp: bind_Inl)

record lexicon_field_config =
  fc_weight :: rat
  fc_lengthNormalization :: rat
  fc_lexical :: bool
  fc_keepWholeValue :: bool
  fc_pathLike :: bool

record lexicon_config =
  lc_fields :: "lexicon_field_config list"
  lc_k1 :: rat
  lc_minSegmentLength :: nat
  lc_minAcronymLength :: nat
  lc_maxAcronymSegments :: nat
  lc_maxExtensionLength :: nat
  lc_maxTokenLength :: nat
  lc_maxTokensPerField :: nat
  lc_preserveExactCase :: bool
  lc_cjkNgramSizes :: "nat list"
  lc_maxCjkRunLength :: nat
  lc_maxCjkNgramsPerRun :: nat
  lc_minSecretTokenLength :: nat
  lc_minHexSecretLength :: nat
  lc_postingCapPerTerm :: nat
  lc_maxTerms :: nat
  lc_maxQueryTerms :: nat

definition CONTEXT_LEXICON_FIELD_COUNT :: nat where
  "CONTEXT_LEXICON_FIELD_COUNT = 9"

definition lexiconFieldConfig :: "lexicon_config \<Rightarrow> nat \<Rightarrow> lexicon_field_config lexicon_answer" where
  "lexiconFieldConfig config field =
     (if field < length (lc_fields config) then Inr (lc_fields config ! field) else Inl unknown_field)"

record lexicon_omissions =
  lo_secretTokens :: nat
  lo_redactedSpans :: nat
  lo_cappedFieldTokens :: nat
  lo_cappedCjkNgrams :: nat
  lo_cappedPostings :: nat
  lo_cappedTerms :: nat

definition emptyLexiconOmissions :: lexicon_omissions where
  "emptyLexiconOmissions = \<lparr>lo_secretTokens = 0, lo_redactedSpans = 0, lo_cappedFieldTokens = 0,
     lo_cappedCjkNgrams = 0, lo_cappedPostings = 0, lo_cappedTerms = 0\<rparr>"

text \<open>The tuning the program passes, \<open>CONTEXT_GRAPH_LEXICON_CONFIG\<close> of \<open>query/ranking-config.ts\<close>.\<close>

definition field_config :: "rat \<Rightarrow> rat \<Rightarrow> bool \<Rightarrow> bool \<Rightarrow> bool \<Rightarrow> lexicon_field_config" where
  "field_config weight lengthNormalization lexical keepWholeValue pathLike =
     \<lparr>fc_weight = fl weight, fc_lengthNormalization = fl lengthNormalization, fc_lexical = lexical,
      fc_keepWholeValue = keepWholeValue, fc_pathLike = pathLike\<rparr>"

definition CONTEXT_GRAPH_LEXICON_CONFIG :: lexicon_config where
  "CONTEXT_GRAPH_LEXICON_CONFIG = \<lparr>
     lc_fields =
       [field_config 0 0 False False False,
        field_config 4 (3 / 10) True True False,
        field_config 3 (3 / 10) True False False,
        field_config 4 (3 / 10) True True False,
        field_config 3 (3 / 10) True True True,
        field_config 2 (4 / 10) True False True,
        field_config (12 / 10) (75 / 100) True False False,
        field_config 1 (75 / 100) True False False,
        field_config (8 / 10) (5 / 10) True False False],
     lc_k1 = fl (12 / 10),
     lc_minSegmentLength = 2, lc_minAcronymLength = 2, lc_maxAcronymSegments = 8, lc_maxExtensionLength = 5,
     lc_maxTokenLength = 64, lc_maxTokensPerField = 512, lc_preserveExactCase = True,
     lc_cjkNgramSizes = [2, 3], lc_maxCjkRunLength = 8, lc_maxCjkNgramsPerRun = 64,
     lc_minSecretTokenLength = 20, lc_minHexSecretLength = 32,
     lc_postingCapPerTerm = 4096, lc_maxTerms = 2 ^ 20, lc_maxQueryTerms = 64\<rparr>"

subsection \<open>Characters\<close>

fun js_chars :: "units \<Rightarrow> units list" where
  "js_chars [] = []"
| "js_chars [u] = [[u]]"
| "js_chars (u # v # us) =
     (if high_surrogate u \<and> low_surrogate v then [u, v] # js_chars us else [u] # js_chars (v # us))"

fun codePointAt0 :: "units \<Rightarrow> nat" where
  "codePointAt0 [] = 0"
| "codePointAt0 [u] = u"
| "codePointAt0 (u # v # us) =
     (if high_surrogate u \<and> low_surrogate v then 0x10000 + (u - 0xD800) * 0x400 + (v - 0xDC00) else u)"

lemma concat_js_chars [simp]: "concat (js_chars s) = s"
  by (induction s rule: js_chars.induct) auto

lemma js_chars_nonempty: "c \<in> set (js_chars s) \<Longrightarrow> c \<noteq> []"
  by (induction s rule: js_chars.induct) (auto split: if_splits)

lemma js_chars_Nil [simp]: "js_chars s = [] \<longleftrightarrow> s = []"
  by (cases s rule: js_chars.cases) auto

datatype lexicon_class =
    CLASS_SEPARATOR | CLASS_LOWER | CLASS_UPPER | CLASS_DIGIT | CLASS_LETTER | CLASS_CJK

definition LETTER_RANGES :: "(nat \<times> nat) list" where
  "LETTER_RANGES =
     [(0x00c0, 0x00d6), (0x00d8, 0x00f6), (0x00f8, 0x024f), (0x0370, 0x03ff), (0x0400, 0x052f), (0x0530, 0x058f),
      (0x0590, 0x05ff), (0x0600, 0x06ff), (0x0900, 0x097f), (0x0e00, 0x0e7f)]"

definition CJK_RANGES :: "(nat \<times> nat) list" where
  "CJK_RANGES =
     [(0x1100, 0x11ff), (0x3040, 0x309f), (0x30a0, 0x30fa), (0x30fc, 0x30ff), (0x3130, 0x318f), (0x31f0, 0x31ff),
      (0x3400, 0x4dbf), (0x4e00, 0x9fff), (0xa960, 0xa97f), (0xac00, 0xd7a3), (0xd7b0, 0xd7ff), (0xf900, 0xfaff),
      (0x20000, 0x2a6df), (0x2a700, 0x2ebef)]"

definition inRanges :: "nat \<Rightarrow> (nat \<times> nat) list \<Rightarrow> bool" where
  "inRanges codePoint ranges = list_ex (\<lambda>(lo, hi). lo \<le> codePoint \<and> codePoint \<le> hi) ranges"

definition classifyLexiconCodePoint :: "nat \<Rightarrow> lexicon_class" where
  "classifyLexiconCodePoint codePoint =
     (if 0x30 \<le> codePoint \<and> codePoint \<le> 0x39 then CLASS_DIGIT
      else if 0x41 \<le> codePoint \<and> codePoint \<le> 0x5a then CLASS_UPPER
      else if 0x61 \<le> codePoint \<and> codePoint \<le> 0x7a then CLASS_LOWER
      else if codePoint < 0x80 then CLASS_SEPARATOR
      else if inRanges codePoint CJK_RANGES then CLASS_CJK
      else if inRanges codePoint LETTER_RANGES then CLASS_LETTER
      else CLASS_SEPARATOR)"

definition class_of :: "units \<Rightarrow> lexicon_class" where
  "class_of c = classifyLexiconCodePoint (codePointAt0 c)"

definition isAllDigits :: "units \<Rightarrow> bool" where
  "isAllDigits v \<longleftrightarrow> list_all (\<lambda>c. class_of c = CLASS_DIGIT) (js_chars v) \<and> v \<noteq> []"

subsection \<open>Machine paths\<close>

text \<open>
  The patterns all have one shape: perhaps a lead, the start of the text or one unit that may stand
  before a path, then one of a few fixed sequences of unit classes, then the longest run of
  units of one class, which one pattern wants not to be empty.
\<close>

record path_pattern =
  pp_lead :: bool
  pp_heads :: "(nat \<Rightarrow> bool) list list"
  pp_tail :: "nat \<Rightarrow> bool"
  pp_some :: bool

definition spelled :: "string \<Rightarrow> (nat \<Rightarrow> bool) list" where
  "spelled s = map (\<lambda>u v. v = u) (units_of s)"

definition any_slash :: "nat \<Rightarrow> bool" where
  "any_slash u \<longleftrightarrow> u = 92 \<or> u = 47"

definition lead_unit :: "nat \<Rightarrow> bool" where
  "lead_unit u \<longleftrightarrow> js_space u \<or> u \<in> {34, 39, 40}"

definition to_space :: "bool \<Rightarrow> string list \<Rightarrow> path_pattern" where
  "to_space lead heads =
     \<lparr>pp_lead = lead, pp_heads = map spelled heads, pp_tail = (\<lambda>u. \<not> js_space u), pp_some = False\<rparr>"

definition MACHINE_PATH_PATTERNS :: "path_pattern list" where
  "MACHINE_PATH_PATTERNS =
     [to_space False [''/Users/'', ''/home/''],
      to_space False [''/Volumes/''],
      to_space False [''/private/tmp/'', ''/private/var/''],
      to_space False [''/var/folders/''],
      to_space True [''/tmp/''],
      \<lparr>pp_lead = False, pp_heads = [[letter_unit, \<lambda>u. u = 58, any_slash] @ spelled ''Users'' @ [any_slash]],
       pp_tail = (\<lambda>u. \<not> js_space u \<and> \<not> any_slash u), pp_some = True\<rparr>,
      to_space True [''~/'']]"

fun eat :: "(nat \<Rightarrow> bool) list \<Rightarrow> units \<Rightarrow> units option" where
  "eat [] s = Some s"
| "eat (p # ps) [] = None"
| "eat (p # ps) (u # us) = (if p u then eat ps us else None)"

fun eat_first :: "path_pattern \<Rightarrow> (nat \<Rightarrow> bool) list list \<Rightarrow> units \<Rightarrow> units option" where
  "eat_first p [] s = None"
| "eat_first p (head # heads) s =
     (case eat head s of
        Some rest \<Rightarrow>
          if pp_some p \<and> takeWhile (pp_tail p) rest = [] then eat_first p heads s
          else Some (dropWhile (pp_tail p) rest)
      | None \<Rightarrow> eat_first p heads s)"

text \<open>The text after a match at the head of \<open>s\<close>, if there is one; \<open>start\<close> tells whether \<open>s\<close> is the whole text.\<close>

definition after_match :: "path_pattern \<Rightarrow> bool \<Rightarrow> units \<Rightarrow> units option" where
  "after_match p start s =
     (let here = (if pp_lead p \<and> \<not> start then None else eat_first p (pp_heads p) s)
      in case here of
           Some rest \<Rightarrow> Some rest
         | None \<Rightarrow>
             (case s of
                u # us \<Rightarrow> if pp_lead p \<and> lead_unit u then eat_first p (pp_heads p) us else None
              | [] \<Rightarrow> None))"

text \<open>No pattern matches the empty text, so the text after a match is shorter than the text before.\<close>

function replace_matches :: "path_pattern \<Rightarrow> bool \<Rightarrow> units \<Rightarrow> units \<times> nat" where
  "replace_matches p start s =
     (case s of
        [] \<Rightarrow> ([], 0)
      | u # us \<Rightarrow>
          (case after_match p start s of
             Some rest \<Rightarrow>
               if length rest < length s then (let (t, n) = replace_matches p False rest in (32 # t, n + 1)) else (s, 0)
           | None \<Rightarrow> (let (t, n) = replace_matches p False us in (u # t, n))))"
  by pat_completeness auto
termination
  by (relation "measure (\<lambda>(p, start, s). length s)") auto

declare replace_matches.simps [simp del]

record machine_path_scan =
  mp_text :: units
  mp_redactedSpans :: nat

definition redact_step :: "path_pattern \<Rightarrow> machine_path_scan \<Rightarrow> machine_path_scan" where
  "redact_step p scan =
     (let (t, n) = replace_matches p True (mp_text scan)
      in \<lparr>mp_text = t, mp_redactedSpans = mp_redactedSpans scan + n\<rparr>)"

definition redactMachinePaths :: "units \<Rightarrow> machine_path_scan" where
  "redactMachinePaths v = fold redact_step MACHINE_PATH_PATTERNS \<lparr>mp_text = v, mp_redactedSpans = 0\<rparr>"

definition isWorkspaceRelativeLexiconPath :: "units \<Rightarrow> bool" where
  "isWorkspaceRelativeLexiconPath v =
     (if v = [] then False
      else if hd v = 47 \<or> hd v = 126 then False
      else if 3 \<le> length v \<and> letter_unit (v ! 0) \<and> v ! 1 = 58 \<and> any_slash (v ! 2) then False
      else if 92 \<in> set v then False
      else if [46, 46] \<in> set (split_units 47 v) then False
      else True)"

subsection \<open>Key material\<close>

definition in_class :: "lexicon_class \<Rightarrow> units \<Rightarrow> nat" where
  "in_class cls token = length (filter (\<lambda>c. class_of c = cls) (js_chars token))"

definition hex_unit :: "nat \<Rightarrow> bool" where
  "hex_unit u \<longleftrightarrow> 48 \<le> u \<and> u \<le> 57 \<or> 97 \<le> u \<and> u \<le> 102 \<or> 65 \<le> u \<and> u \<le> 70"

definition looksLikeSecretToken :: "units \<Rightarrow> lexicon_config \<Rightarrow> bool" where
  "looksLikeSecretToken token config =
     (if length token < lc_minSecretTokenLength config then False
      else
        let lower = in_class CLASS_LOWER token;
            upper = in_class CLASS_UPPER token;
            digit = in_class CLASS_DIGIT token;
            other = length (js_chars token) - (lower + upper + digit)
        in if 0 < other then False
           else
             let isHex = (upper + lower + digit = length token \<and> token \<noteq> [] \<and> list_all hex_unit token)
             in if isHex \<and> lc_minHexSecretLength config \<le> length token then True
                else if 0 < lower \<and> 0 < upper \<and> 0 < digit \<and>
                        length token \<le> length (remdups (js_chars token)) * 2 then True
                else False)"

end
