(* ===== verification/Lexicon_Tokenizer.thy ===== *)
theory Lexicon_Tokenizer
  imports Lexicon_Text
begin

text \<open>
  The tokenizer that compile time and query time share, \<open>runtime-index/lexicon-tokenizer.ts\<close>.  Two
  operations of the platform rest on tables of Unicode and are arguments of the model: lower casing and
  the normal form NFKC.
\<close>

record unicode =
  uc_toLowerCase :: "units \<Rightarrow> units"
  uc_nfkc :: "units \<Rightarrow> units"

subsection \<open>Runs\<close>

datatype run_kind = RUN_LATIN | RUN_CJK

record lexicon_run =
  rn_kind :: run_kind
  rn_value :: units
  rn_separator :: units

record run_split =
  rs_runs :: "lexicon_run list"
  rs_current :: units
  rs_currentKind :: run_kind
  rs_currentSeparator :: units
  rs_pending :: units

definition flush_run :: "run_split \<Rightarrow> run_split" where
  "flush_run s =
     (if rs_current s = [] then s
      else s\<lparr>rs_runs := rs_runs s @ [\<lparr>rn_kind = rs_currentKind s, rn_value = rs_current s,
                                       rn_separator = rs_currentSeparator s\<rparr>],
             rs_current := [], rs_currentSeparator := []\<rparr>)"

definition run_kind_of :: "units \<Rightarrow> run_kind" where
  "run_kind_of char = (if class_of char = CLASS_CJK then RUN_CJK else RUN_LATIN)"

definition split_step :: "units \<Rightarrow> run_split \<Rightarrow> run_split" where
  "split_step char s =
     (if class_of char = CLASS_SEPARATOR then (flush_run s)\<lparr>rs_pending := rs_pending s @ char\<rparr>
      else
        let kind = run_kind_of char;
            s = (if rs_current s \<noteq> [] \<and> kind \<noteq> rs_currentKind s then flush_run s else s)
        in if rs_current s = []
           then s\<lparr>rs_currentKind := kind, rs_currentSeparator := rs_pending s, rs_pending := [], rs_current := char\<rparr>
           else s\<lparr>rs_current := rs_current s @ char\<rparr>)"

definition new_split :: run_split where
  "new_split = \<lparr>rs_runs = [], rs_current = [], rs_currentKind = RUN_LATIN, rs_currentSeparator = [], rs_pending = []\<rparr>"

definition splitRuns :: "units \<Rightarrow> lexicon_run list" where
  "splitRuns v = rs_runs (flush_run (fold split_step (js_chars v) new_split))"

subsection \<open>Segments of an identifier\<close>

definition cut_at :: "lexicon_class list \<Rightarrow> nat \<Rightarrow> nat list" where
  "cut_at classes index =
     (let previous = classes ! (index - 1); current = classes ! index
      in if current = CLASS_UPPER \<and> previous \<noteq> CLASS_UPPER then [index]
         else if previous = CLASS_UPPER \<and> (current = CLASS_LOWER \<or> current = CLASS_LETTER) then
           (if 2 \<le> index \<and> classes ! (index - 2) = CLASS_UPPER then [index - 1] else [])
         else if (current = CLASS_DIGIT) \<noteq> (previous = CLASS_DIGIT) then [index]
         else [])"

definition segment_step :: "units list \<Rightarrow> nat \<Rightarrow> units list \<times> nat \<Rightarrow> units list \<times> nat" where
  "segment_step chars cutting acc =
     (case acc of (segments, start) \<Rightarrow>
        (if start < cutting then segments @ [concat (take (cutting - start) (drop start chars))] else segments, cutting))"

definition splitLatinSegments :: "units \<Rightarrow> units list" where
  "splitLatinSegments run =
     (let chars = js_chars run
      in if length chars \<le> 1 then (if chars = [] then [] else [run])
         else
           let classes = map class_of chars;
               cuts = concat (map (cut_at classes) [1..<length chars]);
               (segments, start) = fold (segment_step chars) (sort (remdups cuts)) ([], 0)
           in if start < length chars then segments @ [concat (drop start chars)] else segments)"

subsection \<open>The sink\<close>

record token_sink =
  tk_terms :: "units list"
  tk_seen :: "units list"
  tk_capped :: bool
  tk_limit :: nat
  tk_distinct :: bool
  tk_omissions :: lexicon_omissions

definition new_sink :: "lexicon_omissions \<Rightarrow> nat \<Rightarrow> bool \<Rightarrow> token_sink" where
  "new_sink omissions limit different =
     \<lparr>tk_terms = [], tk_seen = [], tk_capped = False, tk_limit = limit, tk_distinct = different,
      tk_omissions = omissions\<rparr>"

definition secret_dropped :: "token_sink \<Rightarrow> token_sink" where
  "secret_dropped sink =
     sink\<lparr>tk_omissions := (tk_omissions sink)\<lparr>lo_secretTokens := lo_secretTokens (tk_omissions sink) + 1\<rparr>\<rparr>"

definition beginScope :: "token_sink \<Rightarrow> token_sink" where
  "beginScope sink = (if tk_distinct sink then sink else sink\<lparr>tk_seen := []\<rparr>)"

definition sink_push :: "lexicon_config \<Rightarrow> units \<Rightarrow> token_sink \<Rightarrow> token_sink" where
  "sink_push config raw sink =
     (if raw = [] then sink
      else if lc_maxTokenLength config < length raw then sink
      else if raw \<in> set (tk_seen sink) then sink
      else if looksLikeSecretToken raw config then secret_dropped sink
      else if tk_limit sink \<le> length (tk_terms sink) then
        (if tk_capped sink then sink
         else sink\<lparr>tk_omissions := (tk_omissions sink)\<lparr>lo_cappedFieldTokens := lo_cappedFieldTokens (tk_omissions sink) + 1\<rparr>,
                   tk_capped := True\<rparr>)
      else sink\<lparr>tk_seen := raw # tk_seen sink, tk_terms := tk_terms sink @ [raw]\<rparr>)"

subsection \<open>Emission\<close>

definition segment_terms :: "unicode \<Rightarrow> lexicon_config \<Rightarrow> units list \<Rightarrow> units list" where
  "segment_terms uc config segments =
     map (uc_toLowerCase uc)
       (filter (\<lambda>segment. \<not> (length segment < lc_minSegmentLength config \<or> isAllDigits segment)) segments)"

fun acronym_initials :: "unicode \<Rightarrow> lexicon_config \<Rightarrow> units list \<Rightarrow> units list \<Rightarrow> units list" where
  "acronym_initials uc config [] initials = initials"
| "acronym_initials uc config (segment # segments) initials =
     (if lc_maxAcronymSegments config \<le> length initials then initials
      else case segment of
             [] \<Rightarrow> acronym_initials uc config segments initials
           | first # _ \<Rightarrow>
               if classifyLexiconCodePoint first = CLASS_DIGIT then acronym_initials uc config segments initials
               else acronym_initials uc config segments (initials @ [uc_toLowerCase uc [first]]))"

definition emitLatinRun :: "unicode \<Rightarrow> lexicon_config \<Rightarrow> units \<Rightarrow> token_sink \<Rightarrow> token_sink \<times> bool" where
  "emitLatinRun uc config run sink =
     (if looksLikeSecretToken run config then (secret_dropped sink, True)
      else
        let lowered = uc_toLowerCase uc run;
            sink = sink_push config lowered sink;
            sink = (if lc_preserveExactCase config \<and> run \<noteq> lowered then sink_push config run sink else sink);
            segments = splitLatinSegments run
        in if length segments \<le> 1 then (sink, False)
           else
             let sink = fold (sink_push config) (segment_terms uc config segments) sink;
                 initials = acronym_initials uc config segments []
             in (if lc_minAcronymLength config \<le> length initials then sink_push config (concat initials) sink else sink,
                 False))"

definition cjk_grams :: "nat list \<Rightarrow> units list \<Rightarrow> units list" where
  "cjk_grams ngramSizes points =
     concat (map (\<lambda>n. if n = 0 \<or> length points < n then []
                      else map (\<lambda>start. concat (take n (drop start points))) [0..<length points - n + 1]) ngramSizes)"

fun emit_grams :: "lexicon_config \<Rightarrow> units list \<Rightarrow> nat \<Rightarrow> token_sink \<Rightarrow> token_sink" where
  "emit_grams config [] produced sink = sink"
| "emit_grams config (gram # grams) produced sink =
     (if lc_maxCjkNgramsPerRun config \<le> produced then
        sink\<lparr>tk_omissions := (tk_omissions sink)\<lparr>lo_cappedCjkNgrams := lo_cappedCjkNgrams (tk_omissions sink) + 1\<rparr>\<rparr>
      else emit_grams config grams (produced + 1) (sink_push config gram sink))"

definition emitCjkRun :: "lexicon_config \<Rightarrow> units \<Rightarrow> token_sink \<Rightarrow> token_sink" where
  "emitCjkRun config run sink =
     (let points = js_chars run;
          sink = (if length points \<le> lc_maxCjkRunLength config then sink_push config run sink else sink)
      in emit_grams config (cjk_grams (lc_cjkNgramSizes config) points) 0 sink)"

definition emit_run :: "unicode \<Rightarrow> lexicon_config \<Rightarrow> lexicon_run \<Rightarrow> token_sink \<times> bool list \<Rightarrow> token_sink \<times> bool list" where
  "emit_run uc config run acc =
     (case acc of (sink, refused) \<Rightarrow>
        let sink = beginScope sink
        in case rn_kind run of
             RUN_CJK \<Rightarrow> (emitCjkRun config (rn_value run) sink, refused @ [False])
           | RUN_LATIN \<Rightarrow> (let (sink, secret) = emitLatinRun uc config (rn_value run) sink in (sink, refused @ [secret])))"

definition emit_join :: "unicode \<Rightarrow> lexicon_config \<Rightarrow> lexicon_run list \<Rightarrow> bool list \<Rightarrow> nat \<Rightarrow> token_sink \<Rightarrow> token_sink" where
  "emit_join uc config runs refused index sink =
     (let previous = runs ! (index - 1); current = runs ! index
      in if rn_separator current \<noteq> [46] then sink
         else if rn_kind previous \<noteq> RUN_LATIN \<or> rn_kind current \<noteq> RUN_LATIN then sink
         else if lc_maxExtensionLength config < length (rn_value current) then sink
         else if refused ! (index - 1) \<or> refused ! index then secret_dropped sink
         else sink_push config (uc_toLowerCase uc (rn_value previous) @ [46] @ uc_toLowerCase uc (rn_value current)) sink)"

definition emitRuns :: "unicode \<Rightarrow> lexicon_config \<Rightarrow> lexicon_run list \<Rightarrow> token_sink \<Rightarrow> token_sink" where
  "emitRuns uc config runs sink =
     (let (sink, refused) = fold (emit_run uc config) runs (sink, []);
          sink = beginScope sink
      in fold (emit_join uc config runs refused) [1..<length runs] sink)"

subsection \<open>The two entry points\<close>

definition js_trim :: "units \<Rightarrow> units" where
  "js_trim v = rev (dropWhile js_space (rev (dropWhile js_space v)))"

record lexicon_tokenization =
  tz_terms :: "units list"
  tz_omissions :: lexicon_omissions

definition redacted :: "machine_path_scan \<Rightarrow> lexicon_omissions" where
  "redacted scan = emptyLexiconOmissions\<lparr>lo_redactedSpans := mp_redactedSpans scan\<rparr>"

definition tokenize_text ::
  "unicode \<Rightarrow> lexicon_config \<Rightarrow> bool \<Rightarrow> units \<Rightarrow> lexicon_omissions \<Rightarrow> lexicon_tokenization" where
  "tokenize_text uc config keepWholeValue content omissions =
     (let sink = new_sink omissions (lc_maxTokensPerField config) False;
          runs = splitRuns content;
          sink = (if keepWholeValue \<and> 1 < length runs then sink_push config (uc_toLowerCase uc content) sink else sink);
          sink = emitRuns uc config runs sink
      in \<lparr>tz_terms = tk_terms sink, tz_omissions = tk_omissions sink\<rparr>)"

definition tokenizeLexiconField ::
  "unicode \<Rightarrow> units \<Rightarrow> nat \<Rightarrow> lexicon_config \<Rightarrow> lexicon_tokenization lexicon_answer" where
  "tokenizeLexiconField uc v field config =
     bind_lexicon (lexiconFieldConfig config field) (\<lambda>settings.
     bind_lexicon (refuseLexicon (\<not> fc_lexical settings) field_not_lexical) (\<lambda>_.
       let normalized = js_trim (uc_nfkc uc v)
       in if fc_pathLike settings then
            bind_lexicon (refuseLexicon (normalized \<noteq> [] \<and> \<not> isWorkspaceRelativeLexiconPath normalized) machine_path) (\<lambda>_.
              Inr (tokenize_text uc config (fc_keepWholeValue settings) normalized emptyLexiconOmissions))
          else
            let scan = redactMachinePaths normalized
            in Inr (tokenize_text uc config (fc_keepWholeValue settings) (mp_text scan) (redacted scan))))"

record normalized_lexicon_query =
  nl_normalized :: units
  nl_terms :: "units list"
  nl_omissions :: lexicon_omissions

definition normalizeLexiconQuery :: "unicode \<Rightarrow> units \<Rightarrow> lexicon_config \<Rightarrow> normalized_lexicon_query" where
  "normalizeLexiconQuery uc query config =
     (let normalized = js_trim (uc_nfkc uc query);
          scan = redactMachinePaths normalized;
          sink = emitRuns uc config (splitRuns (mp_text scan))
            (new_sink (redacted scan) (lc_maxQueryTerms config) True)
      in \<lparr>nl_normalized = normalized, nl_terms = tk_terms sink, nl_omissions = tk_omissions sink\<rparr>)"

end
