(* ===== verification/Lexicon_Safety.thy ===== *)
theory Lexicon_Safety
  imports Lexicon_Tokenizer
begin

text \<open>
  What can reach the dictionary: no machine path survives the redaction of free text, and no token that
  looks like key material, is empty or is too long leaves the sink.
\<close>

subsection \<open>Redaction\<close>

lemma replace_Nil [simp]: "replace_matches p start [] = ([], 0)"
  by (simp add: replace_matches.simps)

lemma fst_replace_None:
  "after_match p start (u # us) = None \<Longrightarrow>
     fst (replace_matches p start (u # us)) = u # fst (replace_matches p False us)"
  by (simp add: replace_matches.simps [of p start "u # us"] split: prod.split)

lemma fst_replace_Some:
  "after_match p start (u # us) = Some rest \<Longrightarrow>
     fst (replace_matches p start (u # us)) =
       (if length rest < length (u # us) then 32 # fst (replace_matches p False rest) else u # us)"
  by (simp add: replace_matches.simps [of p start "u # us"] split: prod.split)

lemma eat_suffix: "eat head s = Some rest \<Longrightarrow> suffix rest s"
  by (induction head s rule: eat.induct) (auto split: if_splits intro: suffix_ConsI)

lemma eat_first_suffix: "eat_first p heads s = Some rest \<Longrightarrow> suffix rest s"
proof (induction p heads s rule: eat_first.induct)
  case (2 p head heads s)
  show ?case
  proof (cases "eat head s")
    case (Some r)
    then have "suffix (dropWhile (pp_tail p) r) s" using eat_suffix suffix_dropWhile suffix_order.trans by blast
    then show ?thesis using 2 Some by (auto split: if_splits)
  qed (use 2 in simp)
qed simp

lemma after_match_suffix: "after_match p start s = Some rest \<Longrightarrow> suffix rest s"
  by (auto simp: after_match_def Let_def split: option.splits list.splits if_splits
      dest!: eat_first_suffix intro: suffix_ConsI)

text \<open>Where a replacement stands nothing matches, and elsewhere the text is the old one.\<close>

lemma eat_space: "list_all (\<lambda>q. \<not> q 32) head \<Longrightarrow> head \<noteq> [] \<Longrightarrow> eat head (32 # t) = None"
  by (cases head) simp_all

lemma eat_replaced:
  assumes "eat head (fst (replace_matches p start s)) \<noteq> None" "list_all (\<lambda>q. \<not> q 32) head"
  shows "eat head s \<noteq> None"
  using assms
proof (induction p start s arbitrary: head rule: replace_matches.induct)
  case (1 p start s)
  show ?case
  proof (cases head)
    case (Cons q qs)
    show ?thesis
    proof (cases s)
      case Nil
      then show ?thesis using 1(3) Cons by simp
    next
      case (Cons u us)
      show ?thesis
      proof (cases "after_match p start s")
        case None
        then have "fst (replace_matches p start s) = u # fst (replace_matches p False us)"
          using Cons None by (simp add: fst_replace_None)
        then show ?thesis
          using 1(1) [OF Cons None, of qs] 1(3,4) \<open>head = q # qs\<close> Cons by (auto split: if_splits)
      next
        case (Some rest)
        then show ?thesis
          using 1(3,4) \<open>head = q # qs\<close> Cons Some by (auto simp: fst_replace_Some split: if_splits)
      qed
    qed
  qed simp
qed

definition free_of :: "(nat \<Rightarrow> bool) list \<Rightarrow> units \<Rightarrow> bool" where
  "free_of head s \<longleftrightarrow> (\<forall>t. suffix t s \<longrightarrow> eat head t = None)"

lemma free_of_Cons: "free_of head (u # s) \<longleftrightarrow> eat head (u # s) = None \<and> free_of head s"
  by (auto simp: free_of_def suffix_Cons)

lemma free_of_suffix: "free_of head s \<Longrightarrow> suffix t s \<Longrightarrow> free_of head t"
  using suffix_order.trans by (auto simp: free_of_def)

lemma free_of_replaced:
  assumes "free_of head s" "list_all (\<lambda>q. \<not> q 32) head" "head \<noteq> []"
  shows "free_of head (fst (replace_matches p start s))"
  using assms(1)
proof (induction p start s rule: replace_matches.induct)
  case (1 p start s)
  show ?case
  proof (cases s)
    case Nil
    then show ?thesis using 1(3) by simp
  next
    case (Cons u us)
    show ?thesis
    proof (cases "after_match p start s")
      case None
      have out: "fst (replace_matches p start s) = u # fst (replace_matches p False us)"
        using Cons None by (simp add: fst_replace_None)
      have "eat head (fst (replace_matches p start s)) = None"
        using eat_replaced [OF _ assms(2)] 1(3) unfolding free_of_def by blast
      moreover have "free_of head us" using 1(3) Cons by (simp add: free_of_Cons)
      ultimately show ?thesis using 1(1) [OF Cons None] by (simp add: out free_of_Cons)
    next
      case (Some rest)
      then have "suffix rest s" by (rule after_match_suffix)
      then have "free_of head rest" using 1(3) by (rule free_of_suffix [rotated])
      moreover have "eat head (32 # t) = None" for t using assms(2,3) by (rule eat_space)
      ultimately show ?thesis
        using 1(2) [OF Cons Some] 1(3) Cons Some by (simp add: fst_replace_Some free_of_Cons)
    qed
  qed
qed

lemma eat_first_head:
  assumes "head \<in> set heads" "eat head s \<noteq> None" "\<not> pp_some p"
  shows "eat_first p heads s \<noteq> None"
  using assms(1) by (induction heads) (use assms(2,3) in \<open>auto split: option.splits\<close>)

lemma eat_length: "eat head s = Some rest \<Longrightarrow> length s = length head + length rest"
  by (induction head s rule: eat.induct) (auto split: if_splits)

lemma eat_first_shorter: "eat_first p heads s = Some rest \<Longrightarrow> \<forall>h \<in> set heads. h \<noteq> [] \<Longrightarrow> length rest < length s"
proof (induction p heads s rule: eat_first.induct)
  case (2 p head heads s)
  have "length (dropWhile (pp_tail p) r) < length s" if "eat head s = Some r" for r
    using eat_length [OF that] length_dropWhile_le [of "pp_tail p" r] 2(4) by (cases head) auto
  then show ?case using 2 by (auto split: option.splits if_splits)
qed simp

lemma after_match_shorter:
  "after_match p start s = Some rest \<Longrightarrow> \<forall>h \<in> set (pp_heads p). h \<noteq> [] \<Longrightarrow> length rest < length s"
  by (auto simp: after_match_def Let_def split: option.splits list.splits if_splits dest!: eat_first_shorter)

lemma replaced_is_free:
  assumes "\<not> pp_lead p" "\<not> pp_some p" "head \<in> set (pp_heads p)" "list_all (\<lambda>q. \<not> q 32) head"
    "\<forall>h \<in> set (pp_heads p). h \<noteq> []"
  shows "free_of head (fst (replace_matches p start s))"
  using assms(1-3,5)
proof (induction p start s rule: replace_matches.induct)
  case (1 p start s)
  show ?case
  proof (cases s)
    case Nil
    then show ?thesis using assms(3,5) by (cases head) (auto simp: free_of_def)
  next
    case (Cons u us)
    show ?thesis
    proof (cases "after_match p start s")
      case None
      have out: "fst (replace_matches p start s) = u # fst (replace_matches p False us)"
        using Cons None by (simp add: fst_replace_None)
      have "eat_first p (pp_heads p) s = None"
        using None 1(3) by (auto simp: after_match_def Let_def split: option.splits)
      then have "eat head s = None" using eat_first_head 1(4,5) by blast
      then have "eat head (fst (replace_matches p start s)) = None"
        using eat_replaced assms(4) by blast
      then show ?thesis using 1(1) [OF Cons None] 1(3-) by (simp add: out free_of_Cons)
    next
      case (Some rest)
      moreover have "eat head (32 # t) = None" for t using assms(3-5) by (blast intro: eat_space)
      moreover have "length rest < length s" using after_match_shorter [OF Some] 1(6) by simp
      ultimately show ?thesis
        using 1(2) [OF Cons Some] 1(3-) Cons Some by (simp add: fst_replace_Some free_of_Cons)
    qed
  qed
qed


text \<open>An occurrence of a spelled needle is a place where its units match.\<close>

lemma eat_spelled: "eat (map (\<lambda>u v. v = u) w) (w @ rest) = Some rest"
  by (induction w) auto

lemma free_of_spelled:
  assumes "free_of (spelled needle) s"
  shows "\<not> sublist (units_of needle) s"
proof
  assume "sublist (units_of needle) s"
  then obtain before after where s: "s = before @ units_of needle @ after" by (auto simp: sublist_def)
  then have "suffix (units_of needle @ after) s" by (simp add: suffix_def)
  then have "eat (spelled needle) (units_of needle @ after) = None" using assms by (simp add: free_of_def)
  then show False by (simp add: spelled_def eat_spelled)
qed

lemma redacted_stays_free:
  assumes "free_of head (mp_text scan)" "list_all (\<lambda>q. \<not> q 32) head" "head \<noteq> []"
  shows "free_of head (mp_text (fold redact_step ps scan))"
  using assms(1)
proof (induction ps arbitrary: scan)
  case (Cons p ps)
  have "mp_text (redact_step p scan) = fst (replace_matches p True (mp_text scan))"
    by (simp add: redact_step_def split: prod.split)
  then show ?case using free_of_replaced [OF Cons.prems assms(2,3)] by (simp add: Cons.IH)
qed simp

lemma redacted_is_free:
  assumes "MACHINE_PATH_PATTERNS = before @ to_space False heads # after" "needle \<in> set heads"
    and "32 \<notin> set (units_of needle)" "list_all (\<lambda>h. h \<noteq> []) heads"
  shows "\<not> sublist (units_of needle) (mp_text (redactMachinePaths v))"
proof -
  define scan where "scan = fold redact_step before \<lparr>mp_text = v, mp_redactedSpans = 0\<rparr>"
  have spell: "list_all (\<lambda>q. \<not> q 32) (spelled needle)" "spelled needle \<noteq> []"
    using assms(2-4) by (auto simp: spelled_def list_all_iff units_of_def)
  have "free_of (spelled needle) (fst (replace_matches (to_space False heads) True (mp_text scan)))"
    by (rule replaced_is_free) (use assms(2,4) spell in \<open>auto simp: to_space_def list_all_iff spelled_def units_of_def\<close>)
  then have "free_of (spelled needle) (mp_text (redact_step (to_space False heads) scan))"
    by (simp add: redact_step_def split_def Let_def)
  from redacted_stays_free [OF this spell, of after] show ?thesis
    unfolding redactMachinePaths_def assms(1) by (intro free_of_spelled) (simp add: scan_def)
qed


subsection \<open>The sink\<close>

definition safe_term :: "lexicon_config \<Rightarrow> units \<Rightarrow> bool" where
  "safe_term config t \<longleftrightarrow> t \<noteq> [] \<and> length t \<le> lc_maxTokenLength config \<and> \<not> looksLikeSecretToken t config"

definition sink_ok :: "lexicon_config \<Rightarrow> nat \<Rightarrow> bool \<Rightarrow> token_sink \<Rightarrow> bool" where
  "sink_ok config limit different sink \<longleftrightarrow>
     tk_limit sink = limit \<and> tk_distinct sink = different \<and> list_all (safe_term config) (tk_terms sink) \<and>
     length (tk_terms sink) \<le> limit \<and>
     (different \<longrightarrow> distinct (tk_terms sink) \<and> set (tk_seen sink) = set (tk_terms sink))"

lemma sink_ok_new: "sink_ok config limit different (new_sink omissions limit different)"
  by (simp add: sink_ok_def new_sink_def)

lemma sink_ok_push [intro]: "sink_ok config limit different sink \<Longrightarrow> sink_ok config limit different (sink_push config raw sink)"
  by (auto simp: sink_ok_def sink_push_def safe_term_def secret_dropped_def)

lemma sink_ok_secret [intro]: "sink_ok config limit different sink \<Longrightarrow> sink_ok config limit different (secret_dropped sink)"
  by (simp add: sink_ok_def secret_dropped_def)

lemma sink_ok_scope [intro]: "sink_ok config limit different sink \<Longrightarrow> sink_ok config limit different (beginScope sink)"
  by (simp add: sink_ok_def beginScope_def)

lemma sink_ok_fold: "(\<And>x s. sink_ok config limit different s \<Longrightarrow> sink_ok config limit different (f x s)) \<Longrightarrow>
    sink_ok config limit different sink \<Longrightarrow> sink_ok config limit different (fold f xs sink)"
  by (induction xs arbitrary: sink) simp_all

lemma sink_ok_grams [intro]:
  "sink_ok config limit different sink \<Longrightarrow> sink_ok config limit different (emit_grams config grams produced sink)"
proof (induction config grams produced sink rule: emit_grams.induct)
  case (2 config gram grams produced sink)
  have "sink_ok config limit different (sink\<lparr>tk_omissions := om\<rparr>)" for om using 2(2) by (simp add: sink_ok_def)
  then show ?case using 2 by (simp add: sink_ok_push)
qed simp

lemma sink_ok_latin [intro]:
  "sink_ok config limit different sink \<Longrightarrow> sink_ok config limit different (fst (emitLatinRun uc config run sink))"
  by (auto simp: emitLatinRun_def Let_def intro!: sink_ok_fold sink_ok_push)

lemma sink_ok_run:
  "sink_ok config limit different (fst acc) \<Longrightarrow> sink_ok config limit different (fst (emit_run uc config run acc))"
  by (cases "rn_kind run")
    (simp_all add: emit_run_def emitCjkRun_def Let_def split_def sink_ok_latin sink_ok_grams sink_ok_push sink_ok_scope)

lemma sink_ok_runs:
  assumes "sink_ok config limit different sink"
  shows "sink_ok config limit different (emitRuns uc config runs sink)"
proof -
  have runs: "sink_ok config limit different (fst (fold (emit_run uc config) runs acc))"
    if "sink_ok config limit different (fst acc)" for acc
    using that by (induction runs arbitrary: acc) (simp_all add: sink_ok_run)
  have join: "sink_ok config limit different (emit_join uc config rs refused i s)" if "sink_ok config limit different s" for i s rs refused
    using that by (auto simp: emit_join_def Let_def)
  show ?thesis
    using runs [of "(sink, [])"] assms
    by (auto simp: emitRuns_def Let_def split: prod.split intro!: sink_ok_fold join)
qed


text \<open>C19: a normalized query has at most the configured number of terms, pairwise different, none of them
  empty, too long or like key material.\<close>

theorem query_terms_are_safe:
  "let q = normalizeLexiconQuery uc query config
   in list_all (safe_term config) (nl_terms q) \<and> distinct (nl_terms q) \<and> length (nl_terms q) \<le> lc_maxQueryTerms config"
  using sink_ok_runs [OF sink_ok_new, of config "lc_maxQueryTerms config" True uc]
  by (simp add: normalizeLexiconQuery_def Let_def sink_ok_def)

end
