(* ===== verification/Lexicon_Terms.thy ===== *)
theory Lexicon_Terms
  imports Lexicon_Safety "HOL-Library.Code_Target_Nat"
begin

text \<open>
  What the tokenizer makes of a text: its runs and segments lose nothing, and a query meets every
  document field with the same text.
\<close>

subsection \<open>Segments\<close>

lemma cut_in_range: "x \<in> set (cut_at classes i) \<Longrightarrow> 1 \<le> i \<Longrightarrow> i < n \<Longrightarrow> 1 \<le> x \<and> x < n"
  by (auto simp: cut_at_def Let_def split: if_splits)

lemma segments_fold:
  assumes "sorted cuts" "\<forall>x \<in> set cuts. start \<le> x \<and> x \<le> length chars" "start \<le> length chars"
    "[] \<notin> set chars" "[] \<notin> set segments"
  shows "case fold (segment_step chars) cuts (segments, start) of (segments', stop) \<Rightarrow>
    stop \<le> length chars \<and> [] \<notin> set segments' \<and>
    concat segments' @ concat (drop stop chars) = concat segments @ concat (drop start chars)"
  using assms(1-3,5)
proof (induction cuts arbitrary: segments start)
  case (Cons x xs)
  have step: "concat (drop start chars) = concat (take (x - start) (drop start chars)) @ concat (drop x chars)"
    if "start \<le> x" using that by (metis append_take_drop_id concat_append drop_drop le_add_diff_inverse2)
  have filled: "concat (take (x - start) (drop start chars)) \<noteq> []" if "start < x" "x \<le> length chars"
  proof -
    have "chars ! start \<in> set (take (x - start) (drop start chars))"
      using that by (auto simp: in_set_conv_nth intro: exI [of _ 0])
    moreover have "chars ! start \<noteq> []" using assms(4) that by (metis nth_mem order_less_le_trans)
    ultimately show ?thesis by auto
  qed
  obtain seg' where seg': "segment_step chars x (segments, start) = (seg', x)"
    "concat seg' @ concat (drop x chars) = concat segments @ concat (drop start chars)" "[] \<notin> set seg'"
    using Cons.prems step filled by (cases "start < x") (auto simp: segment_step_def)
  show ?case using Cons.IH [of x seg'] Cons.prems seg' by auto
qed simp

text \<open>C18: splitting an identifier at its case, acronym and digit boundaries loses and repeats nothing: the
  segments are not empty and joined they are the identifier.\<close>

theorem latin_segments_partition:
  "concat (splitLatinSegments run) = run \<and> [] \<notin> set (splitLatinSegments run)"
proof (cases "length (js_chars run) \<le> 1")
  case True
  then show ?thesis by (auto simp: splitLatinSegments_def Let_def)
next
  case False
  define chars where "chars = js_chars run"
  define cuts where "cuts = sort (remdups (concat (map (cut_at (map class_of chars)) [1..<length chars])))"
  obtain segments start where fold: "fold (segment_step chars) cuts ([], 0) = (segments, start)" by force
  have "\<forall>x \<in> set cuts. 0 \<le> x \<and> x \<le> length chars"
    using cut_in_range [where n = "length chars"] by (fastforce simp: cuts_def)
  moreover have nonempty: "[] \<notin> set chars" using js_chars_nonempty by (auto simp: chars_def)
  ultimately have f: "start \<le> length chars" "[] \<notin> set segments"
    "concat segments @ concat (drop start chars) = run"
    using segments_fold [of cuts 0 chars "[]"] by (simp_all add: fold) (simp_all add: cuts_def chars_def)
  have "concat (drop start chars) \<noteq> []" if "start < length chars"
  proof -
    have "chars ! start \<in> set (drop start chars)" using that by (auto simp: in_set_conv_nth intro: exI [of _ 0])
    moreover have "chars ! start \<noteq> []" using nonempty that by (metis nth_mem)
    ultimately show ?thesis by auto
  qed
  moreover have "splitLatinSegments run = (if start < length chars then segments @ [concat (drop start chars)] else segments)"
    using False fold by (simp add: splitLatinSegments_def Let_def chars_def cuts_def)
  ultimately show ?thesis using f by (cases "start < length chars") simp_all
qed

subsection \<open>The tokens of a text\<close>

text \<open>What a run offers to the sink, whatever the sink holds.\<close>

definition latin_tokens :: "unicode \<Rightarrow> lexicon_config \<Rightarrow> units \<Rightarrow> units list" where
  "latin_tokens uc config run =
     (if looksLikeSecretToken run config then []
      else
        let segments = splitLatinSegments run; initials = acronym_initials uc config segments []
        in [uc_toLowerCase uc run] @ (if lc_preserveExactCase config \<and> run \<noteq> uc_toLowerCase uc run then [run] else []) @
           (if length segments \<le> 1 then []
            else segment_terms uc config segments @
                 (if lc_minAcronymLength config \<le> length initials then [concat initials] else [])))"

definition cjk_tokens :: "lexicon_config \<Rightarrow> units \<Rightarrow> units list" where
  "cjk_tokens config run =
     (if length (js_chars run) \<le> lc_maxCjkRunLength config then [run] else []) @
     take (lc_maxCjkNgramsPerRun config) (cjk_grams (lc_cjkNgramSizes config) (js_chars run))"

definition run_tokens :: "unicode \<Rightarrow> lexicon_config \<Rightarrow> lexicon_run \<Rightarrow> units list" where
  "run_tokens uc config run =
     (case rn_kind run of RUN_CJK \<Rightarrow> cjk_tokens config (rn_value run) | RUN_LATIN \<Rightarrow> latin_tokens uc config (rn_value run))"

definition run_refused :: "lexicon_config \<Rightarrow> lexicon_run \<Rightarrow> bool" where
  "run_refused config run \<longleftrightarrow> rn_kind run = RUN_LATIN \<and> looksLikeSecretToken (rn_value run) config"

definition join_tokens :: "unicode \<Rightarrow> lexicon_config \<Rightarrow> lexicon_run list \<Rightarrow> nat \<Rightarrow> units list" where
  "join_tokens uc config runs index =
     (let previous = runs ! (index - 1); current = runs ! index
      in if rn_separator current = [46] \<and> rn_kind previous = RUN_LATIN \<and> rn_kind current = RUN_LATIN \<and>
            length (rn_value current) \<le> lc_maxExtensionLength config \<and>
            \<not> run_refused config previous \<and> \<not> run_refused config current
         then [uc_toLowerCase uc (rn_value previous) @ [46] @ uc_toLowerCase uc (rn_value current)] else [])"

definition text_tokens :: "unicode \<Rightarrow> lexicon_config \<Rightarrow> lexicon_run list \<Rightarrow> units list" where
  "text_tokens uc config runs =
     concat (map (run_tokens uc config) runs) @ concat (map (join_tokens uc config runs) [1..<length runs])"

subsection \<open>A sink takes every token unless it is full\<close>

definition sink_inv :: "token_sink \<Rightarrow> bool" where
  "sink_inv s \<longleftrightarrow> set (tk_seen s) \<subseteq> set (tk_terms s) \<and> (tk_capped s \<longleftrightarrow> 0 < lo_cappedFieldTokens (tk_omissions s))"

definition takes :: "lexicon_config \<Rightarrow> units list \<Rightarrow> token_sink \<Rightarrow> token_sink \<Rightarrow> bool" where
  "takes config ps s s' \<longleftrightarrow>
     (sink_inv s \<longrightarrow>
        sink_inv s' \<and> (tk_capped s \<longrightarrow> tk_capped s') \<and>
        (\<not> tk_capped s' \<longrightarrow> set (tk_terms s') = set (tk_terms s) \<union> {p \<in> set ps. safe_term config p}))"

lemma takes_refl: "takes config [] s s" by (simp add: takes_def)

lemma takes_trans: "takes config ps s s' \<Longrightarrow> takes config qs s' s'' \<Longrightarrow> takes config (ps @ qs) s s''"
  unfolding takes_def by (cases "tk_capped s'") auto

lemma takes_push: "takes config [raw] s (sink_push config raw s)"
  by (auto simp: takes_def sink_inv_def sink_push_def safe_term_def secret_dropped_def)

lemma takes_secret: "takes config [] s (secret_dropped s)"
  by (simp add: takes_def sink_inv_def secret_dropped_def)

lemma takes_scope: "takes config [] s (beginScope s)"
  by (simp add: takes_def sink_inv_def beginScope_def)

lemma takes_fold: "takes config ps s (fold (sink_push config) ps s)"
proof (induction ps arbitrary: s)
  case (Cons p ps)
  show ?case using takes_trans [OF takes_push Cons] by simp
qed (simp add: takes_refl)

lemma takes_if: "takes config (if b then [x] else []) s (if b then sink_push config x s else s)"
  by (simp add: takes_refl takes_push)

lemma takes_grams: "takes config (take (lc_maxCjkNgramsPerRun config - produced) grams) s (emit_grams config grams produced s)"
proof (induction config grams produced s rule: emit_grams.induct)
  case (2 config gram grams produced s)
  show ?case
  proof (cases "lc_maxCjkNgramsPerRun config \<le> produced")
    case True
    then show ?thesis by (simp add: takes_def sink_inv_def)
  next
    case False
    then have "take (lc_maxCjkNgramsPerRun config - produced) (gram # grams) =
        [gram] @ take (lc_maxCjkNgramsPerRun config - (produced + 1)) grams"
      by (simp add: Suc_diff_Suc [symmetric])
    then show ?thesis using takes_trans [OF takes_push 2 [OF False]] False by simp
  qed
qed (simp add: takes_refl)

lemma takes_cjk: "takes config (cjk_tokens config run) s (emitCjkRun config run s)"
  using takes_trans [OF takes_if takes_grams [where produced = 0]]
  by (simp add: cjk_tokens_def emitCjkRun_def Let_def)

lemma takes_latin:
  "takes config (latin_tokens uc config run) s (fst (emitLatinRun uc config run s))"
proof -
  let ?low = "uc_toLowerCase uc run"
  let ?segments = "splitLatinSegments run"
  let ?initials = "acronym_initials uc config ?segments []"
  note first = takes_trans [OF takes_push [of config ?low s] takes_if [of config "lc_preserveExactCase config \<and> run \<noteq> ?low" run]]
  note rest = takes_trans [OF first takes_trans [OF takes_fold [of config "segment_terms uc config ?segments"]
        takes_if [of config "lc_minAcronymLength config \<le> length ?initials" "concat ?initials"]]]
  show ?thesis
  proof (cases "looksLikeSecretToken run config")
    case True
    then show ?thesis by (simp add: latin_tokens_def emitLatinRun_def takes_secret)
  next
    case False
    then show ?thesis
      using first rest by (cases "length ?segments \<le> 1") (simp_all add: latin_tokens_def emitLatinRun_def Let_def)
  qed
qed

lemma latin_refused: "snd (emitLatinRun uc config run s) = looksLikeSecretToken run config"
  by (simp add: emitLatinRun_def Let_def)

lemma takes_run:
  "takes config (run_tokens uc config run) (fst acc) (fst (emit_run uc config run acc)) \<and>
   snd (emit_run uc config run acc) = snd acc @ [run_refused config run]"
  using takes_trans [OF takes_scope [of config "fst acc"] takes_cjk [of config "rn_value run"]]
    takes_trans [OF takes_scope [of config "fst acc"] takes_latin [of config uc "rn_value run"]]
  by (cases "rn_kind run") (simp_all add: emit_run_def run_tokens_def run_refused_def Let_def split_def latin_refused)

lemma takes_runs:
  "takes config (concat (map (run_tokens uc config) runs)) (fst acc) (fst (fold (emit_run uc config) runs acc)) \<and>
   snd (fold (emit_run uc config) runs acc) = snd acc @ map (run_refused config) runs"
proof (induction runs arbitrary: acc)
  case (Cons run runs)
  show ?case
    using takes_trans [OF conjunct1 [OF takes_run] conjunct1 [OF Cons.IH]] takes_run [of config uc run acc] Cons.IH
    by simp
qed (simp add: takes_refl)

lemma takes_join:
  assumes "i < length runs"
  shows "takes config (join_tokens uc config runs i) s (emit_join uc config runs (map (run_refused config) runs) i s)"
  using assms by (auto simp: join_tokens_def emit_join_def Let_def takes_refl takes_push takes_secret)

lemma takes_joins:
  assumes "\<forall>i \<in> set is. i < length runs"
  shows "takes config (concat (map (join_tokens uc config runs) is)) s
    (fold (emit_join uc config runs (map (run_refused config) runs)) is s)"
  using assms
proof (induction "is" arbitrary: s)
  case (Cons i "is")
  then show ?case using takes_trans [OF takes_join Cons.IH] by simp
qed (simp add: takes_refl)

lemma takes_text: "takes config (text_tokens uc config runs) s (emitRuns uc config runs s)"
proof -
  obtain s1 refused where run: "fold (emit_run uc config) runs (s, []) = (s1, refused)" by force
  have r: "takes config (concat (map (run_tokens uc config) runs)) s s1" "refused = map (run_refused config) runs"
    using takes_runs [of config uc runs "(s, [])"] by (simp_all add: run)
  have "takes config (concat (map (join_tokens uc config runs) [1..<length runs])) (beginScope s1)
      (fold (emit_join uc config runs refused) [1..<length runs] (beginScope s1))"
    unfolding r(2) by (rule takes_joins) simp
  from takes_trans [OF takes_trans [OF r(1) takes_scope] this] show ?thesis
    by (simp add: emitRuns_def run text_tokens_def)
qed


subsection \<open>Queries and documents\<close>

definition content_of :: "unicode \<Rightarrow> units \<Rightarrow> units" where
  "content_of uc v = mp_text (redactMachinePaths (js_trim (uc_nfkc uc v)))"

definition whole_value :: "unicode \<Rightarrow> bool \<Rightarrow> units \<Rightarrow> units list" where
  "whole_value uc keep content = (if keep \<and> 1 < length (splitRuns content) then [uc_toLowerCase uc content] else [])"

lemma sink_inv_new: "lo_cappedFieldTokens om = 0 \<Longrightarrow> sink_inv (new_sink om limit different)"
  by (simp add: sink_inv_def new_sink_def)

lemma tokenized_text:
  assumes "lo_cappedFieldTokens om = 0" "t = tokenize_text uc config keep content om"
    and "lo_cappedFieldTokens (tz_omissions t) = 0"
  shows "set (tz_terms t) =
    {p \<in> set (whole_value uc keep content @ text_tokens uc config (splitRuns content)). safe_term config p}"
proof -
  let ?new = "new_sink om (lc_maxTokensPerField config) False"
  let ?b = "keep \<and> 1 < length (splitRuns content)"
  note all = takes_trans [OF takes_if [of config ?b "uc_toLowerCase uc content" ?new] takes_text [of config uc "splitRuns content"]]
  show ?thesis
    using all sink_inv_new [OF assms(1)] assms(3) unfolding assms(2)
    by (cases ?b) (auto simp: takes_def tokenize_text_def whole_value_def Let_def sink_inv_def new_sink_def)
qed

lemma query_text:
  assumes "lo_cappedFieldTokens (nl_omissions (normalizeLexiconQuery uc v config)) = 0"
  shows "set (nl_terms (normalizeLexiconQuery uc v config)) =
    {p \<in> set (text_tokens uc config (splitRuns (content_of uc v))). safe_term config p}"
proof -
  let ?scan = "redactMachinePaths (js_trim (uc_nfkc uc v))"
  let ?new = "new_sink (redacted ?scan) (lc_maxQueryTerms config) True"
  have "sink_inv ?new" by (rule sink_inv_new) (simp add: redacted_def emptyLexiconOmissions_def)
  then show ?thesis
    using takes_text [of config uc "splitRuns (mp_text ?scan)" ?new] assms
    by (auto simp: takes_def normalizeLexiconQuery_def content_of_def Let_def sink_inv_def new_sink_def)
qed

text \<open>C14: a query meets every document it is the text of: when neither side reports a cap, the terms of a
  query are exactly the terms the same text gives in a field of prose, apart from the whole value
  some fields keep as a term of its own.\<close>

theorem query_meets_document:
  assumes "tokenizeLexiconField uc v field config = Inr t" "\<not> fc_pathLike (lc_fields config ! field)"
    and "lo_cappedFieldTokens (tz_omissions t) = 0"
    and "lo_cappedFieldTokens (nl_omissions (normalizeLexiconQuery uc v config)) = 0"
  shows "set (tz_terms t) = set (nl_terms (normalizeLexiconQuery uc v config)) \<union>
    {p \<in> set (whole_value uc (fc_keepWholeValue (lc_fields config ! field)) (content_of uc v)). safe_term config p}"
proof -
  let ?scan = "redactMachinePaths (js_trim (uc_nfkc uc v))"
  have t: "t = tokenize_text uc config (fc_keepWholeValue (lc_fields config ! field)) (content_of uc v) (redacted ?scan)"
    using assms(1,2) by (auto simp: tokenizeLexiconField_def lexiconFieldConfig_def Let_def content_of_def split: if_splits)
  have "lo_cappedFieldTokens (redacted ?scan) = 0" by (simp add: redacted_def emptyLexiconOmissions_def)
  from tokenized_text [OF this t assms(3)] query_text [OF assms(4)] show ?thesis by auto
qed

text \<open>Lower casing and the normal form as they are on ASCII text.\<close>

definition ascii :: unicode where
  "ascii = \<lparr>uc_toLowerCase = map (\<lambda>u. if 65 \<le> u \<and> u \<le> 90 then u + 32 else u), uc_nfkc = id\<rparr>"


definition field_terms :: "string \<Rightarrow> nat \<Rightarrow> units list" where
  "field_terms v field =
     (case tokenizeLexiconField ascii (units_of v) field CONTEXT_GRAPH_LEXICON_CONFIG of Inr t \<Rightarrow> tz_terms t | _ \<Rightarrow> [])"

lemma sample_field:
  "\<exists>t. tokenizeLexiconField ascii (units_of ''runUi'') 2 CONTEXT_GRAPH_LEXICON_CONFIG = Inr t \<and>
     lo_cappedFieldTokens (tz_omissions t) = 0"
proof -
  have "(case tokenizeLexiconField ascii (units_of ''runUi'') 2 CONTEXT_GRAPH_LEXICON_CONFIG of
      Inr t \<Rightarrow> lo_cappedFieldTokens (tz_omissions t) = 0 | _ \<Rightarrow> False)" by code_simp
  then show ?thesis by (auto split: sum.splits)
qed

theorem query_meets_document_witness:
  "\<exists>t. tokenizeLexiconField ascii (units_of ''runUi'') 2 CONTEXT_GRAPH_LEXICON_CONFIG = Inr t \<and>
     set (tz_terms t) = set (nl_terms (normalizeLexiconQuery ascii (units_of ''runUi'') CONTEXT_GRAPH_LEXICON_CONFIG)) \<union>
       {p \<in> set (whole_value ascii (fc_keepWholeValue (lc_fields CONTEXT_GRAPH_LEXICON_CONFIG ! 2))
          (content_of ascii (units_of ''runUi''))). safe_term CONTEXT_GRAPH_LEXICON_CONFIG p}"
proof -
  obtain t where t: "tokenizeLexiconField ascii (units_of ''runUi'') 2 CONTEXT_GRAPH_LEXICON_CONFIG = Inr t"
    "lo_cappedFieldTokens (tz_omissions t) = 0" using sample_field by blast
  have "lo_cappedFieldTokens (nl_omissions (normalizeLexiconQuery ascii (units_of ''runUi'') CONTEXT_GRAPH_LEXICON_CONFIG)) = 0"
    by code_simp
  moreover have "\<not> fc_pathLike (lc_fields CONTEXT_GRAPH_LEXICON_CONFIG ! 2)"
    by (simp add: CONTEXT_GRAPH_LEXICON_CONFIG_def field_config_def)
  ultimately show ?thesis using query_meets_document [OF t(1) _ t(2)] t(1) by blast
qed


end
