(* ===== verification/Lexicon_Scoring.thy ===== *)
theory Lexicon_Scoring
  imports Lexicon_Text
begin

text \<open>
  The scoring arithmetic of the lexicon, \<open>runtime-index/lexicon-bm25.ts\<close>.  Every operation is one of
  IEEE arithmetic, rounded where the code rounds; halving and doubling are exact.  A quotient whose
  divisor is zero is kept apart, because the conversion to fixed point treats it apart.
\<close>

subsection \<open>The logarithm\<close>

definition LN_2 :: rat where "LN_2 = fl (6931471805599453 / 10 ^ 16)"

definition LN_SERIES_TERMS :: nat where "LN_SERIES_TERMS = 25"

function halve :: "rat \<Rightarrow> int \<Rightarrow> rat \<times> int" where
  "halve mantissa exponent = (if 2 \<le> mantissa then halve (mantissa / 2) (exponent + 1) else (mantissa, exponent))"
  by pat_completeness auto
termination
proof (relation "measure (\<lambda>(m, e). nat \<lfloor>m\<rfloor>)")
  fix m :: rat and e :: int assume "2 \<le> m"
  then have "\<lfloor>m / 2\<rfloor> < \<lfloor>m\<rfloor>" "1 \<le> \<lfloor>m / 2\<rfloor>" by linarith+
  then show "((m / 2, e + 1), m, e) \<in> measure (\<lambda>(m, e). nat \<lfloor>m\<rfloor>)" by simp
qed simp

declare halve.simps [simp del]

text \<open>For a positive value; what the code does with any other is a refusal before this loop.\<close>

function twice :: "rat \<Rightarrow> int \<Rightarrow> rat \<times> int" where
  "twice mantissa exponent =
     (if 0 < mantissa \<and> mantissa < 1 then twice (mantissa * 2) (exponent - 1) else (mantissa, exponent))"
  by pat_completeness auto
termination
proof (relation "measure (\<lambda>(m, e). nat \<lfloor>1 / m\<rfloor>)")
  fix m :: rat and e :: int assume m: "0 < m \<and> m < 1"
  then have one: "1 < 1 / m" by (simp add: field_simps)
  define x where "x = 1 / m"
  have "1 \<le> \<lfloor>x\<rfloor>" "x < of_int \<lfloor>x\<rfloor> + 1"
    using one floor_correct [of x] by (simp_all add: x_def [symmetric] le_floor_iff)
  then have "x / 2 < of_int \<lfloor>x\<rfloor>" by linarith
  then have "\<lfloor>1 / (m * 2)\<rfloor> < \<lfloor>1 / m\<rfloor>" by (simp add: floor_less_iff x_def)
  then show "((m * 2, e - 1), m, e) \<in> measure (\<lambda>(m, e). nat \<lfloor>1 / m\<rfloor>)" using one by simp
qed simp

declare twice.simps [simp del]

definition series_step :: "rat \<Rightarrow> nat \<Rightarrow> rat \<times> rat \<Rightarrow> rat \<times> rat" where
  "series_step zSquared k acc =
     (case acc of (term', acc') \<Rightarrow>
        let term' = fl (term' * zSquared) in (term', fl (acc' + fl (term' / of_nat k))))"

definition series_indices :: "nat list" where
  "series_indices = filter odd [3..<LN_SERIES_TERMS + 1]"

definition deterministicLn :: "rat \<Rightarrow> rat lexicon_answer" where
  "deterministicLn v =
     (if v \<le> 0 then Inl score_not_finite
      else
        let (mantissa, exponent) = halve v 0;
            (mantissa, exponent) = twice mantissa exponent;
            z = fl (fl (mantissa - 1) / fl (mantissa + 1));
            zSquared = fl (z * z);
            (term', acc') = fold (series_step zSquared) series_indices (z, z)
        in Inr (fl (fl (of_int exponent * LN_2) + fl (2 * acc'))))"

definition lexiconIdf :: "nat \<Rightarrow> nat \<Rightarrow> rat lexicon_answer" where
  "lexiconIdf documentCount documentFrequency =
     (if documentCount = 0 then Inr 0
      else
        let df = (if documentCount < documentFrequency then documentCount else documentFrequency)
        in deterministicLn (fl (1 + fl (fl (of_nat (documentCount - df) + 1 / 2) / fl (of_nat df + 1 / 2)))))"

subsection \<open>BM25F\<close>

definition field_or_0 :: "nat list \<Rightarrow> nat \<Rightarrow> rat" where
  "field_or_0 xs field = (if field < length xs then of_nat (xs ! field) else 0)"

definition weigh_field ::
  "nat list \<Rightarrow> nat list \<Rightarrow> rat list \<Rightarrow> lexicon_config \<Rightarrow> nat \<Rightarrow> rat \<Rightarrow> rat lexicon_answer" where
  "weigh_field fieldTermFrequency fieldLength averageFieldLength config field accumulated =
     bind_lexicon (lexiconFieldConfig config field) (\<lambda>settings.
       if \<not> fc_lexical settings \<or> fc_weight settings \<le> 0 then Inr accumulated
       else
         let frequency = field_or_0 fieldTermFrequency field
         in if frequency \<le> 0 then Inr accumulated
            else
              let average = (if field < length averageFieldLength then averageFieldLength ! field else 0);
                  len = field_or_0 fieldLength field;
                  b = fc_lengthNormalization settings;
                  normalizer = (if 0 < average then fl (fl (1 - b) + fl (fl (b * len) / average)) else 1)
              in Inr (fl (accumulated + fl (fl (fc_weight settings * frequency) / (if 0 < normalizer then normalizer else 1)))))"

definition bm25fWeightedTermFrequency ::
  "nat list \<Rightarrow> nat list \<Rightarrow> rat list \<Rightarrow> lexicon_config \<Rightarrow> rat lexicon_answer" where
  "bm25fWeightedTermFrequency fieldTermFrequency fieldLength averageFieldLength config =
     each_lexicon (weigh_field fieldTermFrequency fieldLength averageFieldLength config) [0..<CONTEXT_LEXICON_FIELD_COUNT] 0"

datatype js_quotient = Number rat | Plus_infinity | Minus_infinity | Not_a_number

definition js_div :: "rat \<Rightarrow> rat \<Rightarrow> js_quotient" where
  "js_div a b =
     (if b \<noteq> 0 then Number (fl (a / b)) else if 0 < a then Plus_infinity else if a < 0 then Minus_infinity else Not_a_number)"

definition bm25fScore :: "rat \<Rightarrow> rat \<Rightarrow> lexicon_config \<Rightarrow> js_quotient" where
  "bm25fScore weightedTermFrequency idf config =
     (if weightedTermFrequency \<le> 0 then Number 0
      else js_div (fl (idf * weightedTermFrequency)) (fl (lc_k1 config + weightedTermFrequency)))"

subsection \<open>Fixed point\<close>

definition CONTEXT_LEXICON_SCORE_MAX :: int where
  "CONTEXT_LEXICON_SCORE_MAX = 0x7fffffff"

fun toLexiconFixedScore :: "js_quotient \<Rightarrow> int lexicon_answer" where
  "toLexiconFixedScore Not_a_number = Inl score_not_finite"
| "toLexiconFixedScore Plus_infinity = Inr CONTEXT_LEXICON_SCORE_MAX"
| "toLexiconFixedScore Minus_infinity = Inr 0"
| "toLexiconFixedScore (Number v) =
     (if v \<le> 0 then Inr 0
      else let scaled = toFixedPoint (Finite v) CONTEXT_INDEX_FIXED_POINT_SCALE
           in if CONTEXT_LEXICON_SCORE_MAX \<le> scaled then Inr CONTEXT_LEXICON_SCORE_MAX else Inr scaled)"

definition fromLexiconFixedScore :: "int \<Rightarrow> rat" where
  "fromLexiconFixedScore v = fromFixedPoint v CONTEXT_INDEX_FIXED_POINT_SCALE"

definition accumulate_step :: "js_quotient \<Rightarrow> int \<Rightarrow> int lexicon_answer" where
  "accumulate_step v so_far =
     (case v of Number x \<Rightarrow> Inr (clampScore (so_far + (if x < 0 then \<lceil>x\<rceil> else \<lfloor>x\<rfloor>))) | _ \<Rightarrow> Inl score_not_finite)"

definition accumulateLexiconScores :: "js_quotient list \<Rightarrow> int lexicon_answer" where
  "accumulateLexiconScores vs = each_lexicon accumulate_step vs 0"

subsection \<open>What the numbers can be\<close>

lemma fixed_score_range:
  "toLexiconFixedScore v = Inr s \<Longrightarrow> 0 \<le> s \<and> s \<le> CONTEXT_LEXICON_SCORE_MAX"
  by (cases v) (auto simp: CONTEXT_LEXICON_SCORE_MAX_def CONTEXT_INDEX_FIXED_POINT_SCALE_def Let_def
      toFixedPoint_nonneg split: if_splits)

lemma fl_positive:
  assumes "0 < x"
  shows "0 < fl x"
proof -
  have "x / 2 ^ 53 < x" using assms by (simp add: field_simps)
  moreover have "\<bar>fl x - x\<bar> \<le> x / 2 ^ 53" using assms by (intro fl_close) simp
  ultimately show ?thesis by linarith
qed

lemma bm25f_number:
  assumes "0 \<le> lc_k1 config"
  shows "\<exists>x. bm25fScore w idf config = Number x"
proof (cases "w \<le> 0")
  case False
  then have "0 < lc_k1 config + w" using assms by simp
  then have "fl (lc_k1 config + w) \<noteq> 0" using fl_positive by force
  then show ?thesis using False by (simp add: bm25fScore_def js_div_def)
qed (simp add: bm25fScore_def)

end
