(* ===== verification/Lexicon_Builder.thy ===== *)
theory Lexicon_Builder
  imports Lexicon_Tokenizer Lexicon_Scoring
begin

text \<open>
  From a corpus to the term table and the postings, \<open>runtime-index/lexicon-builder.ts\<close>.  A \<open>Map\<close> is the
  list of its pairs in insertion order, a \<open>Set\<close> the list of its members.
\<close>

subsection \<open>Deltas\<close>

definition delta_step :: "int \<Rightarrow> int list \<times> int \<Rightarrow> int list \<times> int" where
  "delta_step node acc =
     (case acc of (deltas, previous) \<Rightarrow> (deltas @ [if deltas = [] then node else node - previous], node))"

definition encodeLexiconPostingDeltas :: "int list \<Rightarrow> int list" where
  "encodeLexiconPostingDeltas nodes = fst (fold delta_step nodes ([], 0))"

definition undelta_step :: "int list \<Rightarrow> nat \<Rightarrow> int list \<times> int \<Rightarrow> (int list \<times> int) lexicon_answer" where
  "undelta_step deltas i acc =
     (case acc of (nodes, running) \<Rightarrow>
        if i < length deltas then
          (let running = (if nodes = [] then deltas ! i else running + deltas ! i) in Inr (nodes @ [running], running))
        else Inl lexicon_count_limit)"

definition decodeLexiconPostingDeltas :: "int list \<Rightarrow> nat \<Rightarrow> nat \<Rightarrow> int list lexicon_answer" where
  "decodeLexiconPostingDeltas deltas offset n =
     bind_lexicon (each_lexicon (undelta_step deltas) [offset..<offset + n] ([], 0)) (\<lambda>acc. Inr (fst acc))"

subsection \<open>Corpus and result\<close>

record lexicon_document =
  ld_node :: int
  ld_fields :: "(nat \<times> units) list"

record lexicon_row =
  tw_term :: units
  tw_documentFrequency :: nat
  tw_postingOffset :: nat
  tw_postingCount :: nat
  tw_idfFixed :: int

record lexicon_posting =
  po_node :: int
  po_fieldMask :: "32 word"
  po_termFrequency :: nat
  po_score :: int

record lexicon_build =
  bd_documentCount :: nat
  bd_terms :: "lexicon_row list"
  bd_postings :: "lexicon_posting list"
  bd_nodeDeltas :: "int list"
  bd_averageFieldLengthFixed :: "int list"
  bd_omissions :: lexicon_omissions

record document_term =
  ds_fieldMask :: "32 word"
  ds_termFrequency :: nat
  ds_perField :: "nat list"

definition set_add :: "'a \<Rightarrow> 'a list \<Rightarrow> 'a list" where
  "set_add x xs = (if x \<in> set xs then xs else xs @ [x])"

definition mergeOmissions :: "lexicon_omissions \<Rightarrow> lexicon_omissions \<Rightarrow> lexicon_omissions" where
  "mergeOmissions source target =
     target\<lparr>lo_secretTokens := lo_secretTokens target + lo_secretTokens source,
            lo_redactedSpans := lo_redactedSpans target + lo_redactedSpans source,
            lo_cappedFieldTokens := lo_cappedFieldTokens target + lo_cappedFieldTokens source,
            lo_cappedCjkNgrams := lo_cappedCjkNgrams target + lo_cappedCjkNgrams source\<rparr>"

definition add_at :: "nat \<Rightarrow> nat \<Rightarrow> nat list \<Rightarrow> nat list" where
  "add_at field n totals = totals[field := totals ! field + n]"

subsection \<open>First pass: the corpus\<close>

record corpus_pass =
  cp_omissions :: lexicon_omissions
  cp_statistics :: "(units \<times> nat) list"
  cp_fieldTotals :: "nat list"
  cp_seenNodes :: "int list"
  cp_inDocument :: "units list"

definition new_pass :: corpus_pass where
  "new_pass = \<lparr>cp_omissions = emptyLexiconOmissions, cp_statistics = [],
     cp_fieldTotals = replicate CONTEXT_LEXICON_FIELD_COUNT 0, cp_seenNodes = [], cp_inDocument = []\<rparr>"

text \<open>What a lexical field's entry gives; a field that is not lexical gives nothing.\<close>

definition entry_terms ::
  "unicode \<Rightarrow> lexicon_config \<Rightarrow> nat \<times> units \<Rightarrow> lexicon_tokenization option lexicon_answer" where
  "entry_terms uc config entry =
     bind_lexicon (lexiconFieldConfig config (fst entry)) (\<lambda>settings.
       if \<not> fc_lexical settings then Inr None
       else bind_lexicon (tokenizeLexiconField uc (snd entry) (fst entry) config) (\<lambda>t. Inr (Some t)))"

definition scan_entry ::
  "unicode \<Rightarrow> lexicon_config \<Rightarrow> nat \<times> units \<Rightarrow> corpus_pass \<Rightarrow> corpus_pass lexicon_answer" where
  "scan_entry uc config entry pass =
     bind_lexicon (entry_terms uc config entry) (\<lambda>tokenized.
       case tokenized of
         None \<Rightarrow> Inr pass
       | Some t \<Rightarrow>
           Inr (pass\<lparr>cp_omissions := mergeOmissions (tz_omissions t) (cp_omissions pass),
                     cp_fieldTotals := add_at (fst entry) (length (tz_terms t)) (cp_fieldTotals pass),
                     cp_inDocument := fold set_add (tz_terms t) (cp_inDocument pass)\<rparr>))"

definition count_term :: "units \<Rightarrow> (units \<times> nat) list \<Rightarrow> (units \<times> nat) list" where
  "count_term t statistics =
     AList.update t (case map_of statistics t of None \<Rightarrow> 1 | Some n \<Rightarrow> n + 1) statistics"

definition scan_document ::
  "unicode \<Rightarrow> lexicon_config \<Rightarrow> lexicon_document \<Rightarrow> corpus_pass \<Rightarrow> corpus_pass lexicon_answer" where
  "scan_document uc config doc pass =
     bind_lexicon (refuseLexicon (ld_node doc < 0) node_out_of_range) (\<lambda>_.
     bind_lexicon (refuseLexicon (ld_node doc \<in> set (cp_seenNodes pass)) duplicate_document) (\<lambda>_.
     bind_lexicon (each_lexicon (scan_entry uc config) (ld_fields doc)
         (pass\<lparr>cp_seenNodes := ld_node doc # cp_seenNodes pass, cp_inDocument := []\<rparr>)) (\<lambda>pass.
       Inr (pass\<lparr>cp_statistics := fold count_term (cp_inDocument pass) (cp_statistics pass)\<rparr>))))"

definition applyTermCap ::
  "(units \<times> nat) list \<Rightarrow> lexicon_config \<Rightarrow> lexicon_omissions \<Rightarrow> units list \<times> lexicon_omissions" where
  "applyTermCap statistics config omissions =
     (let all = map fst statistics
      in if length all \<le> lc_maxTerms config then (all, omissions)
         else
           let ranked = sort_key (\<lambda>t. (case map_of statistics t of None \<Rightarrow> 0 | Some n \<Rightarrow> n, t)) all;
               kept = take (lc_maxTerms config) ranked
           in (kept, omissions\<lparr>lo_cappedTerms := lo_cappedTerms omissions + (length all - length kept)\<rparr>))"

definition averages :: "nat \<Rightarrow> nat list \<Rightarrow> int list" where
  "averages documentCount fieldTotals =
     map (\<lambda>total. if 0 < documentCount
                  then toFixedPoint (Finite (fl (of_nat total / of_nat documentCount))) CONTEXT_INDEX_FIXED_POINT_SCALE
                  else 0) fieldTotals"

definition idf_step ::
  "nat \<Rightarrow> (units \<times> nat) list \<Rightarrow> units \<Rightarrow> (units \<times> rat) list \<Rightarrow> (units \<times> rat) list lexicon_answer" where
  "idf_step documentCount statistics t idfByTerm =
     bind_lexicon (lexiconIdf documentCount (case map_of statistics t of None \<Rightarrow> 0 | Some n \<Rightarrow> n)) (\<lambda>idf.
       Inr (AList.update t idf idfByTerm))"

subsection \<open>Second pass: the postings\<close>

definition tally_term :: "nat \<Rightarrow> units \<Rightarrow> (units \<times> document_term) list \<Rightarrow> (units \<times> document_term) list" where
  "tally_term field t perTerm =
     (let d = (case map_of perTerm t of
                 None \<Rightarrow> \<lparr>ds_fieldMask = 0, ds_termFrequency = 0,
                          ds_perField = replicate CONTEXT_LEXICON_FIELD_COUNT 0\<rparr>
               | Some d \<Rightarrow> d)
      in AList.update t (d\<lparr>ds_fieldMask := ds_fieldMask d OR push_bit field 1,
                           ds_termFrequency := ds_termFrequency d + 1,
                           ds_perField := add_at field 1 (ds_perField d)\<rparr>) perTerm)"

definition tally_entry ::
  "unicode \<Rightarrow> lexicon_config \<Rightarrow> (units \<times> rat) list \<Rightarrow> nat \<times> units \<Rightarrow>
   (units \<times> document_term) list \<times> nat list \<Rightarrow> ((units \<times> document_term) list \<times> nat list) lexicon_answer" where
  "tally_entry uc config idfByTerm entry acc =
     (case acc of (perTerm, fieldLength) \<Rightarrow>
        bind_lexicon (entry_terms uc config entry) (\<lambda>tokenized.
          case tokenized of
            None \<Rightarrow> Inr acc
          | Some t \<Rightarrow>
              Inr (fold (tally_term (fst entry)) (filter (\<lambda>x. map_of idfByTerm x \<noteq> None) (tz_terms t)) perTerm,
                   add_at (fst entry) (length (tz_terms t)) fieldLength)))"

type_synonym buckets = "(units \<times> lexicon_posting list) list"

definition post_term ::
  "lexicon_config \<Rightarrow> (units \<times> rat) list \<Rightarrow> rat list \<Rightarrow> int \<Rightarrow> nat list \<Rightarrow> units \<times> document_term \<Rightarrow>
   buckets \<Rightarrow> buckets lexicon_answer" where
  "post_term config idfByTerm averageFieldLength node fieldLength entry buckets =
     (case entry of (t, d) \<Rightarrow>
        bind_lexicon (bm25fWeightedTermFrequency (ds_perField d) fieldLength averageFieldLength config) (\<lambda>weighted.
        bind_lexicon (toLexiconFixedScore (bm25fScore weighted (case map_of idfByTerm t of None \<Rightarrow> 0 | Some x \<Rightarrow> x) config)) (\<lambda>score.
          let posting = \<lparr>po_node = node, po_fieldMask = ds_fieldMask d, po_termFrequency = ds_termFrequency d, po_score = score\<rparr>
          in Inr (AList.update t ((case map_of buckets t of None \<Rightarrow> [] | Some ps \<Rightarrow> ps) @ [posting]) buckets))))"

definition post_document ::
  "unicode \<Rightarrow> lexicon_config \<Rightarrow> (units \<times> rat) list \<Rightarrow> rat list \<Rightarrow> lexicon_document \<Rightarrow> buckets \<Rightarrow> buckets lexicon_answer" where
  "post_document uc config idfByTerm averageFieldLength doc buckets =
     bind_lexicon (each_lexicon (tally_entry uc config idfByTerm) (ld_fields doc) ([], replicate CONTEXT_LEXICON_FIELD_COUNT 0))
       (\<lambda>(perTerm, fieldLength).
         each_lexicon (post_term config idfByTerm averageFieldLength (ld_node doc) fieldLength) perTerm buckets)"

subsection \<open>Assembly\<close>

definition kept_postings :: "lexicon_config \<Rightarrow> lexicon_posting list \<Rightarrow> lexicon_posting list" where
  "kept_postings config bucket =
     (if lc_postingCapPerTerm config < length bucket
      then take (lc_postingCapPerTerm config) (sort_key (\<lambda>p. (- po_score p, po_node p)) bucket)
      else bucket)"

definition assemble_term ::
  "lexicon_config \<Rightarrow> buckets \<Rightarrow> (units \<times> nat) list \<Rightarrow> (units \<times> rat) list \<Rightarrow> units \<Rightarrow> lexicon_build \<Rightarrow> lexicon_build" where
  "assemble_term config buckets statistics idfByTerm t b =
     (let bucket = (case map_of buckets t of None \<Rightarrow> [] | Some ps \<Rightarrow> ps)
      in if bucket = [] then b
         else
           let kept = kept_postings config bucket;
               ascending = sort_key po_node kept
           in b\<lparr>bd_omissions := (bd_omissions b)\<lparr>lo_cappedPostings :=
                    lo_cappedPostings (bd_omissions b) + (length bucket - length kept)\<rparr>,
                bd_nodeDeltas := bd_nodeDeltas b @ encodeLexiconPostingDeltas (map po_node ascending),
                bd_postings := bd_postings b @ ascending,
                bd_terms := bd_terms b @
                  [\<lparr>tw_term = t,
                    tw_documentFrequency = (case map_of statistics t of None \<Rightarrow> length ascending | Some n \<Rightarrow> n),
                    tw_postingOffset = length (bd_postings b),
                    tw_postingCount = length ascending,
                    tw_idfFixed = toFixedPoint (Finite (case map_of idfByTerm t of None \<Rightarrow> 0 | Some x \<Rightarrow> x))
                      CONTEXT_INDEX_FIXED_POINT_SCALE\<rparr>]\<rparr>)"

definition assemble_lexicon ::
  "units list \<Rightarrow> buckets \<Rightarrow> (units \<times> nat) list \<Rightarrow> (units \<times> rat) list \<Rightarrow> int list \<Rightarrow> nat \<Rightarrow> lexicon_config \<Rightarrow>
   lexicon_omissions \<Rightarrow> lexicon_build lexicon_answer" where
  "assemble_lexicon keptTerms buckets statistics idfByTerm averageFieldLengthFixed documentCount config omissions =
     (let b = fold (assemble_term config buckets statistics idfByTerm) (sort keptTerms)
                \<lparr>bd_documentCount = documentCount, bd_terms = [], bd_postings = [], bd_nodeDeltas = [],
                 bd_averageFieldLengthFixed = averageFieldLengthFixed, bd_omissions = omissions\<rparr>
      in bind_lexicon (refuseLexicon (maxTermCount < length (bd_terms b)) lexicon_count_limit) (\<lambda>_. Inr b))"

definition buildContextLexicon ::
  "unicode \<Rightarrow> lexicon_document list \<Rightarrow> lexicon_config \<Rightarrow> lexicon_build lexicon_answer" where
  "buildContextLexicon uc documents config =
     bind_lexicon (refuseLexicon (length (lc_fields config) \<noteq> CONTEXT_LEXICON_FIELD_COUNT) config_invalid) (\<lambda>_.
     bind_lexicon (refuseLexicon (maxNodeCount < length documents) lexicon_count_limit) (\<lambda>_.
     bind_lexicon (each_lexicon (scan_document uc config) documents new_pass) (\<lambda>pass.
       let documentCount = length documents;
           averageFieldLengthFixed = averages documentCount (cp_fieldTotals pass);
           averageFieldLength = map fromLexiconFixedScore averageFieldLengthFixed;
           (keptTerms, omissions) = applyTermCap (cp_statistics pass) config (cp_omissions pass)
       in bind_lexicon (each_lexicon (idf_step documentCount (cp_statistics pass)) keptTerms []) (\<lambda>idfByTerm.
          bind_lexicon (each_lexicon (post_document uc config idfByTerm averageFieldLength) documents []) (\<lambda>buckets.
            assemble_lexicon keptTerms buckets (cp_statistics pass) idfByTerm averageFieldLengthFixed documentCount
              config omissions)))))"

function lookup_from :: "lexicon_row list \<Rightarrow> units \<Rightarrow> int \<Rightarrow> int \<Rightarrow> int" where
  "lookup_from terms t low high =
     (if low \<le> high then
        (let middle = (low + high) div 2
         in if middle < 0 \<or> int (length terms) \<le> middle then - 1
            else
              let candidate = tw_term (terms ! nat middle)
              in if candidate = t then middle
                 else if candidate < t then lookup_from terms t (middle + 1) high
                 else lookup_from terms t low (middle - 1))
      else - 1)"
  by pat_completeness auto
termination
  by (relation "measure (\<lambda>(terms, t, low, high). nat (high - low + 1))") (auto simp: Let_def)

declare lookup_from.simps [simp del]

definition lookupLexiconTerm :: "lexicon_row list \<Rightarrow> units \<Rightarrow> int" where
  "lookupLexiconTerm terms t = lookup_from terms t 0 (int (length terms) - 1)"

end
