(* ===== verification/Lexicon_Lanes.thy ===== *)
theory Lexicon_Lanes
  imports Lexicon_Builder Kernel_Plan
begin

text \<open>
  The two lanes the writer builds from a snapshot, \<open>runtime-index/writer-lexical.ts\<close>: which text of a node
  feeds which field, and both dictionaries over one set of terms.
\<close>

definition MANIFEST_NAMED_KINDS :: "node_kind list" where
  "MANIFEST_NAMED_KINDS = [K_command, K_route, K_pipeline, K_gate, K_schema, K_config]"

text \<open>\<open>path.lastIndexOf('/')\<close>, \<open>None\<close> for \<open>-1\<close>.\<close>

fun last_slash :: "units \<Rightarrow> nat option" where
  "last_slash [] = None"
| "last_slash (u # us) =
     (case last_slash us of Some k \<Rightarrow> Some (k + 1) | None \<Rightarrow> if u = 47 then Some 0 else None)"

definition basenameOf :: "units \<Rightarrow> units" where
  "basenameOf path = (case last_slash path of None \<Rightarrow> path | Some k \<Rightarrow> drop (k + 1) path)"

definition directoryOf :: "units \<Rightarrow> units" where
  "directoryOf path = (case last_slash path of None \<Rightarrow> [] | Some k \<Rightarrow> if k = 0 then [] else take k path)"

definition labelFieldFor :: "node_kind option \<Rightarrow> nat" where
  "labelFieldFor kind =
     (if kind = Some K_symbol then CONTEXT_LEXICON_FIELD F_SYMBOL_SEGMENT
      else if kind \<in> Some ` set MANIFEST_NAMED_KINDS then CONTEXT_LEXICON_FIELD F_MANIFEST_NAME
      else CONTEXT_LEXICON_FIELD F_EXACT_LABEL)"

fun metadata_parts :: "metadata_value \<Rightarrow> units list" where
  "metadata_parts (MV_string v) = (if v \<noteq> [] then [v] else [])"
| "metadata_parts (MV_array entries) = filter (\<lambda>entry. entry \<noteq> []) entries"
| "metadata_parts _ = []"

fun join_space :: "units list \<Rightarrow> units" where
  "join_space [] = []"
| "join_space [v] = v"
| "join_space (v # vs) = v @ 32 # join_space vs"

definition metadataTextOf :: "graph_node \<Rightarrow> units" where
  "metadataTextOf node = join_space (concat (map (\<lambda>e. metadata_parts (snd e)) (sort_key fst (gn_metadata node))))"

definition fieldText :: "nat \<Rightarrow> units \<Rightarrow> (nat \<times> units) list" where
  "fieldText field v = (if v = [] then [] else [(field, v)])"

definition lexical_document :: "nat \<times> graph_node \<Rightarrow> lexicon_document" where
  "lexical_document entry =
     (let node = snd entry
      in \<lparr>ld_node = int (fst entry),
          ld_fields =
            fieldText (labelFieldFor (gn_kind node)) (gn_label node) @
            (case gn_path node of
               None \<Rightarrow> []
             | Some path \<Rightarrow>
                 fieldText (CONTEXT_LEXICON_FIELD F_BASENAME) (basenameOf path) @
                 fieldText (CONTEXT_LEXICON_FIELD F_PATH_SEGMENT) path) @
            fieldText (CONTEXT_LEXICON_FIELD
                (if gn_kind node \<in> Some ` set EVIDENCE_KINDS then F_EVIDENCE else F_PURPOSE)) (metadataTextOf node)\<rparr>)"

definition contextLexicalDocuments :: "graph_node list \<Rightarrow> lexicon_document list" where
  "contextLexicalDocuments nodes = map lexical_document (enumerate 0 nodes)"

definition contextCoarseDocuments :: "graph_node list \<Rightarrow> lexicon_document list" where
  "contextCoarseDocuments nodes =
     map (\<lambda>(position, node).
       \<lparr>ld_node = int position,
        ld_fields = fieldText (CONTEXT_LEXICON_FIELD F_COARSE)
          (case gn_path node of None \<Rightarrow> [] | Some path \<Rightarrow> directoryOf path)\<rparr>) (enumerate 0 nodes)"

definition mergedOmissions :: "lexicon_omissions \<Rightarrow> lexicon_omissions \<Rightarrow> lexicon_omissions" where
  "mergedOmissions a b =
     \<lparr>lo_secretTokens = lo_secretTokens a + lo_secretTokens b,
      lo_redactedSpans = lo_redactedSpans a + lo_redactedSpans b,
      lo_cappedFieldTokens = lo_cappedFieldTokens a + lo_cappedFieldTokens b,
      lo_cappedCjkNgrams = lo_cappedCjkNgrams a + lo_cappedCjkNgrams b,
      lo_cappedPostings = lo_cappedPostings a + lo_cappedPostings b,
      lo_cappedTerms = lo_cappedTerms a + lo_cappedTerms b\<rparr>"

record context_lexical =
  xl_lexical :: lexicon_build
  xl_coarse :: lexicon_build
  xl_terms :: "units list"
  xl_omissions :: lexicon_omissions

definition buildContextIndexLexical ::
  "unicode \<Rightarrow> graph_node list \<Rightarrow> lexicon_config \<Rightarrow> context_lexical lexicon_answer" where
  "buildContextIndexLexical uc nodes config =
     bind_lexicon (buildContextLexicon uc (contextLexicalDocuments nodes) config) (\<lambda>lexical.
     bind_lexicon (buildContextLexicon uc (contextCoarseDocuments nodes) config) (\<lambda>coarse.
       Inr \<lparr>xl_lexical = lexical, xl_coarse = coarse,
            xl_terms = fold set_add (map tw_term (bd_terms lexical) @ map tw_term (bd_terms coarse)) [],
            xl_omissions = mergedOmissions (bd_omissions lexical) (bd_omissions coarse)\<rparr>))"

text \<open>What the writer reads of the lanes.\<close>

definition lane_view :: "lexicon_build \<Rightarrow> lexicon_result" where
  "lane_view b =
     \<lparr>lx_terms = map (\<lambda>r. \<lparr>lt_term = tw_term r, lt_postingOffset = tw_postingOffset r,
                            lt_postingCount = tw_postingCount r\<rparr>) (bd_terms b),
      lx_postings = map po_node (bd_postings b)\<rparr>"

definition lexical_view :: "context_lexical \<Rightarrow> lexical_build" where
  "lexical_view c = \<lparr>lb_lexical = lane_view (xl_lexical c), lb_coarse = lane_view (xl_coarse c), lb_terms = xl_terms c\<rparr>"

end
