(* ===== verification/Lexicon_Corpus.thy ===== *)
theory Lexicon_Corpus
  imports Lexicon_Builder Lexicon_Safety
begin

text \<open>
  What the lexicon builder promises: its term table and postings against plain list functions of the corpus.
\<close>

subsection \<open>The corpus\<close>

definition entry_tokens :: "unicode \<Rightarrow> lexicon_config \<Rightarrow> nat \<times> units \<Rightarrow> units list" where
  "entry_tokens uc config entry =
     (case entry_terms uc config entry of Inr (Some t) \<Rightarrow> tz_terms t | _ \<Rightarrow> [])"

definition field_tokens :: "unicode \<Rightarrow> lexicon_config \<Rightarrow> (nat \<times> units) list \<Rightarrow> (nat \<times> units) list" where
  "field_tokens uc config entries = concat (map (\<lambda>e. map (Pair (fst e)) (entry_tokens uc config e)) entries)"

definition doc_terms :: "unicode \<Rightarrow> lexicon_config \<Rightarrow> lexicon_document \<Rightarrow> units list" where
  "doc_terms uc config doc = map snd (field_tokens uc config (ld_fields doc))"

definition docs_with :: "unicode \<Rightarrow> lexicon_config \<Rightarrow> lexicon_document list \<Rightarrow> units \<Rightarrow> lexicon_document list" where
  "docs_with uc config docs t = filter (\<lambda>d. t \<in> set (doc_terms uc config d)) docs"

lemma docs_with_Cons:
  "docs_with uc config (d # docs) t =
     (if t \<in> set (doc_terms uc config d) then d # docs_with uc config docs t else docs_with uc config docs t)"
  by (simp add: docs_with_def)

lemma field_tokens_Nil [simp]: "field_tokens uc config [] = []"
  by (simp add: field_tokens_def)

lemma field_tokens_Cons:
  "field_tokens uc config (e # es) = map (Pair (fst e)) (entry_tokens uc config e) @ field_tokens uc config es"
  by (simp add: field_tokens_def)

subsection \<open>The first pass\<close>

lemma set_add_set [simp]: "set (fold set_add xs s) = set xs \<union> set s"
  by (induction xs arbitrary: s) (auto simp: set_add_def)

lemma set_add_distinct [simp]: "distinct s \<Longrightarrow> distinct (fold set_add xs s)"
  by (induction xs arbitrary: s) (auto simp: set_add_def)

lemma scan_entries:
  assumes "each_lexicon (scan_entry uc config) entries pass = Inr pass'"
  shows "cp_statistics pass' = cp_statistics pass \<and> cp_seenNodes pass' = cp_seenNodes pass \<and>
    set (cp_inDocument pass') = snd ` set (field_tokens uc config entries) \<union> set (cp_inDocument pass) \<and>
    (distinct (cp_inDocument pass) \<longrightarrow> distinct (cp_inDocument pass'))"
  using assms
proof (induction entries arbitrary: pass)
  case (Cons e es)
  from Cons.prems obtain mid where mid: "scan_entry uc config e pass = Inr mid"
    "each_lexicon (scan_entry uc config) es mid = Inr pass'" by auto
  have "cp_statistics mid = cp_statistics pass \<and> cp_seenNodes mid = cp_seenNodes pass \<and>
      set (cp_inDocument mid) = set (entry_tokens uc config e) \<union> set (cp_inDocument pass) \<and>
      (distinct (cp_inDocument pass) \<longrightarrow> distinct (cp_inDocument mid))"
  proof -
    from mid(1) obtain found where found: "entry_terms uc config e = Inr found" by (auto simp: scan_entry_def)
    show ?thesis using mid(1)
      by (cases found) (auto simp: scan_entry_def entry_tokens_def found)
  qed
  then show ?case using Cons.IH [OF mid(2)] by (auto simp: field_tokens_Cons image_Un image_image)
qed simp

definition counted :: "nat option \<Rightarrow> nat \<Rightarrow> nat option" where
  "counted found n = (case found of None \<Rightarrow> if n = 0 then None else Some n | Some m \<Rightarrow> Some (m + n))"

lemma count_terms:
  assumes "distinct ts" "distinct (map fst statistics)"
  shows "map_of (fold count_term ts statistics) t = counted (map_of statistics t) (if t \<in> set ts then 1 else 0) \<and>
    distinct (map fst (fold count_term ts statistics))"
  using assms
proof (induction ts arbitrary: statistics)
  case (Cons x xs)
  have "distinct (map fst (count_term x statistics))"
    using Cons.prems(2) by (simp add: count_term_def AList.distinct_update)
  from Cons.IH [OF _ this] show ?case using Cons.prems(1)
    by (auto simp: count_term_def AList.update_conv' counted_def split: option.splits)
qed (simp add: counted_def split: option.split)

lemma scan_document_Inr:
  "scan_document uc config d pass = Inr mid \<longleftrightarrow>
     0 \<le> ld_node d \<and> ld_node d \<notin> set (cp_seenNodes pass) \<and>
     (\<exists>inner. each_lexicon (scan_entry uc config) (ld_fields d)
         (pass\<lparr>cp_seenNodes := ld_node d # cp_seenNodes pass, cp_inDocument := []\<rparr>) = Inr inner \<and>
       mid = inner\<lparr>cp_statistics := fold count_term (cp_inDocument inner) (cp_statistics inner)\<rparr>)"
  by (auto simp: scan_document_def)

lemma scan_documents:
  assumes "each_lexicon (scan_document uc config) docs pass = Inr pass'" "distinct (map fst (cp_statistics pass))"
  shows "map_of (cp_statistics pass') t = counted (map_of (cp_statistics pass) t) (length (docs_with uc config docs t)) \<and>
    distinct (map fst (cp_statistics pass')) \<and>
    distinct (map ld_node docs) \<and> set (map ld_node docs) \<inter> set (cp_seenNodes pass) = {} \<and>
    list_all (\<lambda>d. 0 \<le> ld_node d) docs"
  using assms
proof (induction docs arbitrary: pass)
  case Nil
  then show ?case by (auto simp: counted_def docs_with_def split: option.split)
next
  case (Cons d docs)
  from Cons.prems(1) obtain mid inner where mid: "0 \<le> ld_node d" "ld_node d \<notin> set (cp_seenNodes pass)"
    "each_lexicon (scan_entry uc config) (ld_fields d)
       (pass\<lparr>cp_seenNodes := ld_node d # cp_seenNodes pass, cp_inDocument := []\<rparr>) = Inr inner"
    "mid = inner\<lparr>cp_statistics := fold count_term (cp_inDocument inner) (cp_statistics inner)\<rparr>"
    "each_lexicon (scan_document uc config) docs mid = Inr pass'"
    by (auto simp: scan_document_Inr)
  from scan_entries [OF mid(3)] have inner: "cp_statistics inner = cp_statistics pass"
    "cp_seenNodes inner = ld_node d # cp_seenNodes pass" "distinct (cp_inDocument inner)"
    "set (cp_inDocument inner) = set (doc_terms uc config d)"
    by (simp_all add: doc_terms_def)
  note c = count_terms [OF inner(3) Cons.prems(2)]
  have "map_of (cp_statistics mid) t = counted (map_of (cp_statistics pass) t) (if t \<in> set (doc_terms uc config d) then 1 else 0)"
    "distinct (map fst (cp_statistics mid))" "cp_seenNodes mid = ld_node d # cp_seenNodes pass"
    using c inner by (simp_all add: mid(4))
  with Cons.IH [OF mid(5)] mid(1,2) show ?case
    by (auto simp: docs_with_Cons counted_def split: option.splits if_splits)
qed

lemma corpus_statistics:
  assumes "each_lexicon (scan_document uc config) docs new_pass = Inr pass"
  shows "map_of (cp_statistics pass) t =
      (if docs_with uc config docs t = [] then None else Some (length (docs_with uc config docs t)))"
    "distinct (map fst (cp_statistics pass))" "distinct (map ld_node docs)" "list_all (\<lambda>d. 0 \<le> ld_node d) docs"
  using scan_documents [OF assms] by (auto simp: new_pass_def counted_def)

lemma corpus_terms:
  assumes "each_lexicon (scan_document uc config) docs new_pass = Inr pass"
  shows "fst ` set (cp_statistics pass) = set (concat (map (doc_terms uc config) docs))"
proof -
  have "t \<in> fst ` set (cp_statistics pass) \<longleftrightarrow> map_of (cp_statistics pass) t \<noteq> None" for t
    by (metis map_of_eq_None_iff)
  moreover have "map_of (cp_statistics pass) t \<noteq> None \<longleftrightarrow> t \<in> set (concat (map (doc_terms uc config) docs))" for t
    by (simp add: corpus_statistics(1) [OF assms]) (auto simp: docs_with_def filter_empty_conv)
  ultimately show ?thesis by blast
qed

subsection \<open>The dictionary cap\<close>

lemma term_cap:
  assumes "applyTermCap statistics config omissions = (kept, omissions')" "distinct (map fst statistics)"
  shows "distinct kept" "set kept \<subseteq> fst ` set statistics" "length kept = min (lc_maxTerms config) (length statistics)"
    "x \<in> set kept \<Longrightarrow> y \<in> fst ` set statistics - set kept \<Longrightarrow> the (map_of statistics x) \<le> the (map_of statistics y)"
proof -
  define rank where "rank = (\<lambda>t. (case map_of statistics t of None \<Rightarrow> 0 | Some n \<Rightarrow> n, t))"
  let ?ranked = "sort_key rank (map fst statistics)"
  have kept: "kept = (if length statistics \<le> lc_maxTerms config then map fst statistics else take (lc_maxTerms config) ?ranked)"
    using assms(1) by (auto simp: applyTermCap_def Let_def rank_def split: if_splits)
  show "distinct kept" using assms(2) by (simp add: kept)
  show "set kept \<subseteq> fst ` set statistics" using set_take_subset [of "lc_maxTerms config" ?ranked] by (auto simp: kept)
  show "length kept = min (lc_maxTerms config) (length statistics)" by (simp add: kept min_def)
  assume x: "x \<in> set kept" and y: "y \<in> fst ` set statistics - set kept"
  have over: "\<not> length statistics \<le> lc_maxTerms config"
  proof
    assume "length statistics \<le> lc_maxTerms config"
    then have "set kept = fst ` set statistics" by (simp add: kept)
    with y show False by blast
  qed
  have "set ?ranked = fst ` set statistics" by simp
  moreover have "set ?ranked = set (take (lc_maxTerms config) ?ranked) \<union> set (drop (lc_maxTerms config) ?ranked)"
    by (metis append_take_drop_id set_append)
  moreover have "set kept = set (take (lc_maxTerms config) ?ranked)" using over by (simp add: kept)
  ultimately have "x \<in> set (take (lc_maxTerms config) ?ranked)" "y \<in> set (drop (lc_maxTerms config) ?ranked)"
    using x y by blast+
  moreover have "sorted (map rank (take (lc_maxTerms config) ?ranked @ drop (lc_maxTerms config) ?ranked))" by simp
  ultimately have "rank x \<le> rank y" by (simp only: map_append sorted_append) auto
  moreover have "map_of statistics x \<noteq> None" "map_of statistics y \<noteq> None"
    using x y \<open>set kept \<subseteq> fst ` set statistics\<close> by (auto simp: map_of_eq_None_iff)
  ultimately show "the (map_of statistics x) \<le> the (map_of statistics y)"
    by (auto simp: rank_def split: if_splits)
qed

lemma idf_domain:
  assumes "each_lexicon (idf_step n statistics) kept acc = Inr idfByTerm"
  shows "dom (map_of idfByTerm) = set kept \<union> dom (map_of acc)"
  using assms
proof (induction kept arbitrary: acc)
  case (Cons t ts)
  from Cons.prems obtain mid where "idf_step n statistics t acc = Inr mid"
    "each_lexicon (idf_step n statistics) ts mid = Inr idfByTerm" by auto
  moreover from this(1) have "dom (map_of mid) = insert t (dom (map_of acc))"
    by (auto simp: idf_step_def AList.update_conv')
  ultimately show ?case using Cons.IH [of mid] by simp
qed simp

end
