(* ===== verification/Lexicon_Postings.thy ===== *)
theory Lexicon_Postings
  imports Lexicon_Corpus
begin

text \<open>
  The second pass of the lexicon builder and its assembly: the postings of a term are those of the documents
  that hold it, and the table is sorted, so the binary search finds every term.
\<close>

subsection \<open>Deltas\<close>

fun differences :: "int \<Rightarrow> int list \<Rightarrow> int list" where
  "differences previous [] = []"
| "differences previous (x # xs) = (x - previous) # differences x xs"

lemma length_differences [simp]: "length (differences previous xs) = length xs"
  by (induction xs arbitrary: previous) auto

lemma delta_fold: "acc \<noteq> [] \<Longrightarrow> fst (fold delta_step xs (acc, previous)) = acc @ differences previous xs"
  by (induction xs arbitrary: acc previous) (simp_all add: delta_step_def)

lemma encode_deltas:
  "encodeLexiconPostingDeltas xs = (case xs of [] \<Rightarrow> [] | x # xs \<Rightarrow> x # differences x xs)"
  by (cases xs) (simp_all add: encodeLexiconPostingDeltas_def delta_step_def delta_fold)

lemma length_encode [simp]: "length (encodeLexiconPostingDeltas xs) = length xs"
  by (cases xs) (simp_all add: encode_deltas)

lemma undelta_all:
  assumes "nodes \<noteq> []" "take (length xs) (drop k deltas) = differences running xs"
  shows "\<exists>r. each_lexicon (undelta_step deltas) [k..<k + length xs] (nodes, running) = Inr (nodes @ xs, r)"
  using assms
proof (induction xs arbitrary: k nodes running)
  case (Cons x xs)
  have k: "k < length deltas"
  proof (rule ccontr)
    assume "\<not> k < length deltas"
    then show False using Cons.prems(2) by simp
  qed
  then have "take (length xs) (drop (Suc k) deltas) = differences x xs" "deltas ! k = x - running"
    using Cons.prems(2) by (simp_all add: Cons_nth_drop_Suc [symmetric])
  moreover have "[k..<k + length (x # xs)] = k # [Suc k..<Suc k + length xs]" by (simp add: upt_rec)
  ultimately show ?case using Cons.IH [of "nodes @ [x]" "Suc k" x] Cons.prems(1) k by (simp add: undelta_step_def)
qed simp

lemma decode_slice:
  assumes "take (length xs) (drop offset deltas) = encodeLexiconPostingDeltas xs"
  shows "decodeLexiconPostingDeltas deltas offset (length xs) = Inr xs"
proof (cases xs)
  case (Cons y ys)
  have k: "offset < length deltas"
  proof (rule ccontr)
    assume "\<not> offset < length deltas"
    then show False using assms Cons by (simp add: encode_deltas)
  qed
  then have "take (length ys) (drop (Suc offset) deltas) = differences y ys" "deltas ! offset = y"
    using assms Cons by (simp_all add: Cons_nth_drop_Suc [symmetric] encode_deltas)
  moreover have "[offset..<offset + length xs] = offset # [Suc offset..<Suc offset + length ys]"
    using Cons by (simp add: upt_rec)
  ultimately show ?thesis
    using undelta_all [of "[y]" ys "Suc offset" deltas y] k Cons
    by (auto simp: decodeLexiconPostingDeltas_def undelta_step_def)
qed (simp add: decodeLexiconPostingDeltas_def)

subsection \<open>The tally of one document\<close>

definition tally_of :: "(nat \<times> units) list \<Rightarrow> units \<Rightarrow> document_term" where
  "tally_of ps t =
     \<lparr>ds_fieldMask = fold (\<lambda>p m. if snd p = t then m OR push_bit (fst p) 1 else m) ps 0,
      ds_termFrequency = length (filter (\<lambda>p. snd p = t) ps),
      ds_perField = map (\<lambda>f. length (filter (\<lambda>p. p = (f, t)) ps)) [0..<CONTEXT_LEXICON_FIELD_COUNT]\<rparr>"

lemma tally_of_snoc:
  "tally_of (ps @ [(f, t)]) t =
     (let d = tally_of ps t
      in d\<lparr>ds_fieldMask := ds_fieldMask d OR push_bit f 1, ds_termFrequency := ds_termFrequency d + 1,
           ds_perField := add_at f 1 (ds_perField d)\<rparr>)"
  "x \<noteq> t \<Longrightarrow> tally_of (ps @ [(f, x)]) t = tally_of ps t"
  by (auto simp: tally_of_def Let_def add_at_def intro!: nth_equalityI simp: nth_list_update)

lemma tally_of_absent: "t \<notin> snd ` set ps \<Longrightarrow> tally_of ps t =
    \<lparr>ds_fieldMask = 0, ds_termFrequency = 0, ds_perField = replicate CONTEXT_LEXICON_FIELD_COUNT 0\<rparr>"
proof (induction ps rule: rev_induct)
  case (snoc p ps)
  then have "snd p \<noteq> t" by auto
  then show ?case using snoc tally_of_snoc(2) [of "snd p" t ps "fst p"] by simp
qed (simp add: tally_of_def map_replicate_const)

lemma tally_mask:
  "bit (ds_fieldMask (tally_of ps t)) n \<longleftrightarrow> n < 32 \<and> (n, t) \<in> set ps"
proof (induction ps rule: rev_induct)
  case (snoc p ps)
  obtain f x where p: "p = (f, x)" by force
  show ?case
  proof (cases "x = t")
    case True
    then show ?thesis using snoc by (auto simp: p tally_of_snoc Let_def bit_simps)
  next
    case False
    then show ?thesis using snoc by (auto simp: p tally_of_snoc)
  qed
qed (simp add: tally_of_def)

definition tallied :: "units set \<Rightarrow> (nat \<times> units) list \<Rightarrow> (units \<times> document_term) list \<Rightarrow> bool" where
  "tallied kept ps perTerm \<longleftrightarrow>
     distinct (map fst perTerm) \<and>
     (\<forall>t. map_of perTerm t = (if t \<in> kept \<and> t \<in> snd ` set ps then Some (tally_of ps t) else None))"

lemma tallied_term:
  assumes "tallied kept ps perTerm"
  shows "x \<in> kept \<Longrightarrow> tallied kept (ps @ [(f, x)]) (tally_term f x perTerm)"
    "x \<notin> kept \<Longrightarrow> tallied kept (ps @ [(f, x)]) perTerm"
proof -
  have other: "tally_of (ps @ [(f, x)]) t = tally_of ps t" if "t \<noteq> x" for t using that tally_of_snoc(2) by metis
  show "tallied kept (ps @ [(f, x)]) perTerm" if "x \<notin> kept"
  proof -
    have "(t \<in> kept \<and> t \<in> snd ` set (ps @ [(f, x)])) \<longleftrightarrow> (t \<in> kept \<and> t \<in> snd ` set ps)"
      "t \<in> kept \<Longrightarrow> tally_of (ps @ [(f, x)]) t = tally_of ps t" for t
      using that by (auto, metis other)
    then show ?thesis using assms by (simp add: tallied_def cong: conj_cong)
  qed
  assume x: "x \<in> kept"
  have found: "(case map_of perTerm x of
      None \<Rightarrow> \<lparr>ds_fieldMask = 0, ds_termFrequency = 0, ds_perField = replicate CONTEXT_LEXICON_FIELD_COUNT 0\<rparr>
    | Some d \<Rightarrow> d) = tally_of ps x"
    using assms x by (simp add: tallied_def tally_of_absent)
  have "tally_term f x perTerm = AList.update x (tally_of (ps @ [(f, x)]) x) perTerm"
    unfolding tally_term_def found by (simp add: tally_of_snoc Let_def)
  then show "tallied kept (ps @ [(f, x)]) (tally_term f x perTerm)"
    using assms x other by (auto simp: tallied_def AList.update_conv' AList.distinct_update)
qed

lemma tallied_terms:
  "tallied kept ps perTerm \<Longrightarrow>
     tallied kept (ps @ map (Pair f) xs) (fold (tally_term f) (filter (\<lambda>x. x \<in> kept) xs) perTerm)"
proof (induction xs arbitrary: ps perTerm)
  case (Cons x xs)
  show ?case
  proof (cases "x \<in> kept")
    case True
    from Cons.IH [OF tallied_term(1) [OF Cons.prems True, of f]] show ?thesis using True by simp
  next
    case False
    from Cons.IH [OF tallied_term(2) [OF Cons.prems False, of f]] show ?thesis using False by simp
  qed
qed simp

lemma tallied_entries:
  assumes "each_lexicon (tally_entry uc config idfByTerm) entries acc = Inr acc'" "tallied (dom (map_of idfByTerm)) ps (fst acc)"
  shows "tallied (dom (map_of idfByTerm)) (ps @ field_tokens uc config entries) (fst acc')"
  using assms
proof (induction entries arbitrary: acc ps)
  case (Cons e es)
  from Cons.prems(1) obtain mid where mid: "tally_entry uc config idfByTerm e acc = Inr mid"
    "each_lexicon (tally_entry uc config idfByTerm) es mid = Inr acc'" by auto
  obtain perTerm fieldLength where acc: "acc = (perTerm, fieldLength)" by force
  from mid(1) obtain found where found: "entry_terms uc config e = Inr found" by (auto simp: tally_entry_def acc)
  have keep: "filter (\<lambda>x. map_of idfByTerm x \<noteq> None) xs = filter (\<lambda>x. x \<in> dom (map_of idfByTerm)) xs" for xs
    by (simp add: dom_def)
  have "tallied (dom (map_of idfByTerm)) (ps @ map (Pair (fst e)) (entry_tokens uc config e)) (fst mid)"
    using mid(1) Cons.prems(2) tallied_terms [of "dom (map_of idfByTerm)" ps perTerm "fst e"]
    unfolding tally_entry_def acc keep by (cases found) (auto simp: found entry_tokens_def)
  from Cons.IH [OF mid(2) this] show ?case by (simp add: field_tokens_Cons)
qed simp

subsection \<open>Postings\<close>

definition posting_of :: "unicode \<Rightarrow> lexicon_config \<Rightarrow> units \<Rightarrow> lexicon_document \<Rightarrow> lexicon_posting \<Rightarrow> bool" where
  "posting_of uc config t d p \<longleftrightarrow>
     po_node p = ld_node d \<and> po_termFrequency p = length (filter (\<lambda>x. x = t) (doc_terms uc config d)) \<and>
     list_all (\<lambda>n. bit (po_fieldMask p) n \<longleftrightarrow> (n, t) \<in> set (field_tokens uc config (ld_fields d))) [0..<32] \<and>
     0 \<le> po_score p \<and> po_score p \<le> CONTEXT_LEXICON_SCORE_MAX"

lemma tally_posting:
  assumes "po_node p = ld_node d" "0 \<le> po_score p" "po_score p \<le> CONTEXT_LEXICON_SCORE_MAX"
    and "po_fieldMask p = ds_fieldMask (tally_of (field_tokens uc config (ld_fields d)) t)"
    and "po_termFrequency p = ds_termFrequency (tally_of (field_tokens uc config (ld_fields d)) t)"
  shows "posting_of uc config t d p"
  using assms by (simp add: posting_of_def tally_mask list_all_iff doc_terms_def filter_map o_def)
    (simp add: tally_of_def)

definition bucket_of :: "buckets \<Rightarrow> units \<Rightarrow> lexicon_posting list" where
  "bucket_of buckets t = (case map_of buckets t of None \<Rightarrow> [] | Some ps \<Rightarrow> ps)"

lemma post_terms:
  assumes "each_lexicon (post_term config idfByTerm avg node fieldLength) perTerm buckets = Inr buckets'"
    "distinct (map fst perTerm)"
  shows "case map_of perTerm t of
      None \<Rightarrow> bucket_of buckets' t = bucket_of buckets t
    | Some d \<Rightarrow> (\<exists>p. bucket_of buckets' t = bucket_of buckets t @ [p] \<and> po_node p = node \<and>
        po_fieldMask p = ds_fieldMask d \<and> po_termFrequency p = ds_termFrequency d \<and>
        0 \<le> po_score p \<and> po_score p \<le> CONTEXT_LEXICON_SCORE_MAX)"
  using assms
proof (induction perTerm arbitrary: buckets)
  case (Cons e es)
  obtain x d where e: "e = (x, d)" by force
  from Cons.prems(1) obtain mid where mid: "post_term config idfByTerm avg node fieldLength e buckets = Inr mid"
    "each_lexicon (post_term config idfByTerm avg node fieldLength) es mid = Inr buckets'" by auto
  from mid(1) obtain s where s: "0 \<le> s" "s \<le> CONTEXT_LEXICON_SCORE_MAX"
    "mid = AList.update x (bucket_of buckets x @
       [\<lparr>po_node = node, po_fieldMask = ds_fieldMask d, po_termFrequency = ds_termFrequency d, po_score = s\<rparr>]) buckets"
    using fixed_score_range by (auto simp: post_term_def e bucket_of_def)
  have new: "bucket_of mid t = (if t = x then bucket_of buckets x @
       [\<lparr>po_node = node, po_fieldMask = ds_fieldMask d, po_termFrequency = ds_termFrequency d, po_score = s\<rparr>]
     else bucket_of buckets t)"
    by (simp add: bucket_of_def s(3) AList.update_conv')
  have "map_of es x = None" using Cons.prems(2) e by (simp add: map_of_eq_None_iff)
  note rest = Cons.IH [OF mid(2)]
  show ?case
  proof (cases "t = x")
    case True
    then show ?thesis using rest Cons.prems(2) \<open>map_of es x = None\<close> e new s(1,2) by simp
  next
    case False
    then show ?thesis using rest Cons.prems(2) e new by (cases "map_of es t") simp_all
  qed
qed simp

lemma post_one:
  assumes "post_document uc config idfByTerm avg d buckets = Inr buckets'"
  shows "if t \<in> dom (map_of idfByTerm) \<and> t \<in> set (doc_terms uc config d)
    then \<exists>p. bucket_of buckets' t = bucket_of buckets t @ [p] \<and> posting_of uc config t d p
    else bucket_of buckets' t = bucket_of buckets t"
proof -
  from assms obtain perTerm fieldLength where p:
    "each_lexicon (tally_entry uc config idfByTerm) (ld_fields d) ([], replicate CONTEXT_LEXICON_FIELD_COUNT 0) =
       Inr (perTerm, fieldLength)"
    "each_lexicon (post_term config idfByTerm avg (ld_node d) fieldLength) perTerm buckets = Inr buckets'"
    by (auto simp: post_document_def)
  have "tallied (dom (map_of idfByTerm)) [] []" by (simp add: tallied_def)
  with tallied_entries [OF p(1), of "[]"] have t: "tallied (dom (map_of idfByTerm)) (field_tokens uc config (ld_fields d)) perTerm"
    by simp
  define b where "b \<longleftrightarrow> t \<in> dom (map_of idfByTerm) \<and> t \<in> set (doc_terms uc config d)"
  have found: "map_of perTerm t = (if b then Some (tally_of (field_tokens uc config (ld_fields d)) t) else None)"
    using t by (simp add: tallied_def doc_terms_def b_def)
  have "distinct (map fst perTerm)" using t by (simp add: tallied_def)
  note posted = post_terms [OF p(2) this, of t, unfolded found]
  show ?thesis unfolding b_def [symmetric] using posted tally_posting [of _ d uc config t]
    by (cases b) auto
qed

lemma post_documents:
  assumes "each_lexicon (post_document uc config idfByTerm avg) docs buckets = Inr buckets'"
  shows "\<exists>ps. bucket_of buckets' t = bucket_of buckets t @ ps \<and>
    list_all2 (posting_of uc config t) (if t \<in> dom (map_of idfByTerm) then docs_with uc config docs t else []) ps"
  using assms
proof (induction docs arbitrary: buckets)
  case (Cons d docs)
  from Cons.prems obtain mid where mid: "post_document uc config idfByTerm avg d buckets = Inr mid"
    "each_lexicon (post_document uc config idfByTerm avg) docs mid = Inr buckets'" by auto
  from Cons.IH [OF mid(2)] post_one [OF mid(1), of t] show ?case
    by (auto simp: docs_with_Cons split: if_splits)
qed (simp add: docs_with_def)


subsection \<open>Assembly\<close>

definition row_run :: "lexicon_build \<Rightarrow> lexicon_row \<Rightarrow> lexicon_posting list" where
  "row_run b r = take (tw_postingCount r) (drop (tw_postingOffset r) (bd_postings b))"

definition best_postings :: "lexicon_config \<Rightarrow> lexicon_posting list \<Rightarrow> lexicon_posting list" where
  "best_postings config ps = sort_key po_node (kept_postings config ps)"

definition row_assembled ::
  "lexicon_config \<Rightarrow> buckets \<Rightarrow> (units \<times> nat) list \<Rightarrow> lexicon_build \<Rightarrow> lexicon_row \<Rightarrow> bool" where
  "row_assembled config buckets statistics b r \<longleftrightarrow>
     (let ps = best_postings config (bucket_of buckets (tw_term r))
      in tw_postingCount r = length ps \<and> tw_postingOffset r + length ps \<le> length (bd_postings b) \<and> row_run b r = ps \<and>
         take (length ps) (drop (tw_postingOffset r) (bd_nodeDeltas b)) = encodeLexiconPostingDeltas (map po_node ps) \<and>
         (case map_of statistics (tw_term r) of None \<Rightarrow> True | Some n \<Rightarrow> tw_documentFrequency r = n))"

definition assembled ::
  "lexicon_config \<Rightarrow> buckets \<Rightarrow> (units \<times> nat) list \<Rightarrow> units list \<Rightarrow> lexicon_build \<Rightarrow> bool" where
  "assembled config buckets statistics ts b \<longleftrightarrow>
     map tw_term (bd_terms b) = filter (\<lambda>t. bucket_of buckets t \<noteq> []) ts \<and>
     length (bd_nodeDeltas b) = length (bd_postings b) \<and>
     (\<forall>p \<in> set (bd_postings b). \<exists>t. p \<in> set (bucket_of buckets t)) \<and>
     list_all (row_assembled config buckets statistics b) (bd_terms b)"

lemma row_assembled_more:
  assumes "row_assembled config buckets statistics b r"
    and "bd_postings b' = bd_postings b @ ps" "bd_nodeDeltas b' = bd_nodeDeltas b @ ds"
    and "length (bd_nodeDeltas b) = length (bd_postings b)"
  shows "row_assembled config buckets statistics b' r"
  using assms by (auto simp: row_assembled_def row_run_def Let_def)

lemma assembled_term:
  assumes "assembled config buckets statistics ts b"
  shows "assembled config buckets statistics (ts @ [t]) (assemble_term config buckets statistics idfByTerm t b)"
proof (cases "bucket_of buckets t = []")
  case True
  then show ?thesis using assms by (simp add: assembled_def assemble_term_def bucket_of_def)
next
  case False
  let ?b = "assemble_term config buckets statistics idfByTerm t b"
  let ?ps = "best_postings config (bucket_of buckets t)"
  obtain r where new: "bd_terms ?b = bd_terms b @ [r]" "tw_term r = t" "tw_postingOffset r = length (bd_postings b)"
    "tw_postingCount r = length ?ps" "bd_postings ?b = bd_postings b @ ?ps"
    "bd_nodeDeltas ?b = bd_nodeDeltas b @ encodeLexiconPostingDeltas (map po_node ?ps)"
    "\<And>n. map_of statistics t = Some n \<Longrightarrow> tw_documentFrequency r = n"
    using False by (simp add: assemble_term_def best_postings_def bucket_of_def [symmetric] Let_def)
  have "set ?ps \<subseteq> set (bucket_of buckets t)"
    using set_take_subset [of "lc_postingCapPerTerm config" "sort_key (\<lambda>p. (- po_score p, po_node p)) (bucket_of buckets t)"]
    by (auto simp: best_postings_def kept_postings_def)
  then have "\<forall>p \<in> set (bd_postings ?b). \<exists>t. p \<in> set (bucket_of buckets t)"
    using assms unfolding new(5) assembled_def by (auto; blast)
  moreover have "row_assembled config buckets statistics ?b r"
    using new assms by (simp add: row_assembled_def row_run_def assembled_def Let_def split: option.split)
  moreover have "list_all (row_assembled config buckets statistics ?b) (bd_terms b)"
    using assms row_assembled_more [OF _ new(5,6)] by (auto simp: assembled_def list_all_iff)
  ultimately show ?thesis using assms new False by (simp add: assembled_def)
qed

lemma assembled_all:
  "assembled config buckets statistics ts b \<Longrightarrow>
     assembled config buckets statistics (ts @ us) (fold (assemble_term config buckets statistics idfByTerm) us b)"
proof (induction us arbitrary: ts b)
  case (Cons u us)
  from Cons.IH [OF assembled_term [OF Cons.prems]] show ?case by simp
qed simp

subsection \<open>The dictionary\<close>

definition row_exact ::
  "unicode \<Rightarrow> lexicon_config \<Rightarrow> lexicon_document list \<Rightarrow> lexicon_build \<Rightarrow> lexicon_row \<Rightarrow> bool" where
  "row_exact uc config docs b r \<longleftrightarrow>
     (let run = row_run b r; holders = docs_with uc config docs (tw_term r)
      in holders \<noteq> [] \<and> tw_documentFrequency r = length holders \<and>
         length run = min (lc_postingCapPerTerm config) (length holders) \<and> tw_postingCount r = length run \<and>
         sorted_wrt (<) (map po_node run) \<and>
         list_all (\<lambda>p. list_ex (\<lambda>d. posting_of uc config (tw_term r) d p) holders) run \<and>
         decodeLexiconPostingDeltas (bd_nodeDeltas b) (tw_postingOffset r) (tw_postingCount r) = Inr (map po_node run))"

lemma kept_facts:
  "set (kept_postings config ps) \<subseteq> set ps" "length (kept_postings config ps) = min (lc_postingCapPerTerm config) (length ps)"
  "distinct (map f ps) \<Longrightarrow> distinct (map f (kept_postings config ps))"
proof -
  let ?s = "sort_key (\<lambda>p. (- po_score p, po_node p)) ps"
  show "set (kept_postings config ps) \<subseteq> set ps"
    using set_take_subset [of "lc_postingCapPerTerm config" ?s] by (auto simp: kept_postings_def)
  show "length (kept_postings config ps) = min (lc_postingCapPerTerm config) (length ps)"
    by (simp add: kept_postings_def min_def)
  assume "distinct (map f ps)"
  then have "distinct (map f ?s)" using mset_eq_imp_distinct_iff [of "map f ?s" "map f ps"] by (simp add: mset_map)
  then have "distinct (take (lc_postingCapPerTerm config) (map f ?s))" by (rule distinct_take)
  then show "distinct (map f (kept_postings config ps))"
    using \<open>distinct (map f ps)\<close> by (simp add: kept_postings_def take_map)
qed

lemma best_facts:
  assumes "distinct (map po_node ps)"
  shows "set (best_postings config ps) \<subseteq> set ps" "length (best_postings config ps) = min (lc_postingCapPerTerm config) (length ps)"
    "sorted_wrt (<) (map po_node (best_postings config ps))"
proof -
  show "set (best_postings config ps) \<subseteq> set ps" "length (best_postings config ps) = min (lc_postingCapPerTerm config) (length ps)"
    using kept_facts(1,2) [of config ps] by (simp_all add: best_postings_def)
  have "distinct (map po_node (best_postings config ps))"
    using kept_facts(3) [OF assms, of config] mset_eq_imp_distinct_iff
      [of "map po_node (best_postings config ps)" "map po_node (kept_postings config ps)"]
    by (simp add: best_postings_def mset_map)
  then show "sorted_wrt (<) (map po_node (best_postings config ps))"
    by (simp add: strict_sorted_iff best_postings_def)
qed

lemma assembled_exact:
  assumes "row_assembled config buckets statistics b r"
    and "list_all2 (posting_of uc config (tw_term r)) (docs_with uc config docs (tw_term r)) (bucket_of buckets (tw_term r))"
    and "map_of statistics (tw_term r) = Some (length (docs_with uc config docs (tw_term r)))"
    and "docs_with uc config docs (tw_term r) \<noteq> []" "distinct (map ld_node docs)"
  shows "row_exact uc config docs b r"
proof -
  define ps where "ps = bucket_of buckets (tw_term r)"
  note all = assms(2) [folded ps_def]
  have "map po_node ps = map ld_node (docs_with uc config docs (tw_term r))"
    using all by (induction rule: list_all2_induct) (auto simp: posting_of_def)
  moreover have "distinct (map ld_node (docs_with uc config docs (tw_term r)))"
    using assms(5) by (simp add: docs_with_def distinct_map_filter)
  ultimately have d: "distinct (map po_node ps)" by simp
  have held: "list_ex (\<lambda>d. posting_of uc config (tw_term r) d p) (docs_with uc config docs (tw_term r))" if "p \<in> set ps" for p
    using all that by (force simp: list_all2_conv_all_nth list_ex_iff in_set_conv_nth)
  note a = assms(1) [unfolded row_assembled_def Let_def, folded ps_def]
  show ?thesis
    using a assms(3,4) best_facts [OF d, of config] list_all2_lengthD [OF all] held
      decode_slice [of "map po_node (best_postings config ps)" "tw_postingOffset r" "bd_nodeDeltas b"]
    by (auto simp: row_exact_def Let_def list_all_iff)
qed

lemma built_stages:
  assumes "buildContextLexicon uc docs config = Inr b"
  obtains statistics kept buckets where
    "\<And>t. map_of statistics t =
       (if docs_with uc config docs t = [] then None else Some (length (docs_with uc config docs t)))"
    "distinct (map fst statistics)" "fst ` set statistics = set (concat (map (doc_terms uc config) docs))"
    "distinct kept" "set kept \<subseteq> fst ` set statistics" "length kept = min (lc_maxTerms config) (length statistics)"
    "distinct (map ld_node docs)"
    "\<And>t. t \<in> set kept \<Longrightarrow> list_all2 (posting_of uc config t) (docs_with uc config docs t) (bucket_of buckets t)"
    "\<And>t. t \<notin> set kept \<Longrightarrow> bucket_of buckets t = []"
    "assembled config buckets statistics (sort kept) b"
proof -
  from assms obtain pass where pass: "each_lexicon (scan_document uc config) docs new_pass = Inr pass"
    by (auto simp: buildContextLexicon_def)
  obtain kept omissions where cap: "applyTermCap (cp_statistics pass) config (cp_omissions pass) = (kept, omissions)" by force
  with assms pass obtain idfByTerm avg buckets where run:
    "each_lexicon (idf_step (length docs) (cp_statistics pass)) kept [] = Inr idfByTerm"
    "each_lexicon (post_document uc config idfByTerm avg) docs [] = Inr buckets"
    "assemble_lexicon kept buckets (cp_statistics pass) idfByTerm (averages (length docs) (cp_fieldTotals pass)) (length docs)
       config omissions = Inr b"
    by (auto simp: buildContextLexicon_def Let_def)
  have dom: "dom (map_of idfByTerm) = set kept" using idf_domain [OF run(1)] by simp
  note posted = post_documents [OF run(2)]
  have "assembled config buckets (cp_statistics pass) [] \<lparr>bd_documentCount = length docs, bd_terms = [], bd_postings = [],
      bd_nodeDeltas = [], bd_averageFieldLengthFixed = averages (length docs) (cp_fieldTotals pass), bd_omissions = omissions\<rparr>"
    by (simp add: assembled_def)
  from assembled_all [OF this, of "sort kept"] run(3)
  have "assembled config buckets (cp_statistics pass) (sort kept) b"
    by (auto simp: assemble_lexicon_def Let_def)
  moreover have "list_all2 (posting_of uc config t) (docs_with uc config docs t) (bucket_of buckets t)" if "t \<in> set kept" for t
    using posted [of t] that dom by (auto simp: bucket_of_def)
  moreover have "bucket_of buckets t = []" if "t \<notin> set kept" for t
    using posted [of t] that dom by (auto simp: bucket_of_def)
  ultimately show thesis
    using that corpus_statistics [OF pass] corpus_terms [OF pass] term_cap(1-3) [OF cap] by metis
qed

lemma dictionary_exact:
  assumes "buildContextLexicon uc docs config = Inr b"
  shows "let corpus = concat (map (doc_terms uc config) docs); terms = map tw_term (bd_terms b)
    in sorted_wrt (<) terms \<and> set terms \<subseteq> set corpus \<and>
       length terms = min (lc_maxTerms config) (length (remdups corpus)) \<and>
       list_all (row_exact uc config docs b) (bd_terms b)"
proof -
  from assms obtain statistics kept buckets where
    stats: "\<And>t. map_of statistics t =
       (if docs_with uc config docs t = [] then None else Some (length (docs_with uc config docs t)))"
      "distinct (map fst statistics)" "fst ` set statistics = set (concat (map (doc_terms uc config) docs))"
    and cap: "distinct kept" "set kept \<subseteq> fst ` set statistics" "length kept = min (lc_maxTerms config) (length statistics)"
    and nodes: "distinct (map ld_node docs)"
    and bucket: "\<And>t. t \<in> set kept \<Longrightarrow> list_all2 (posting_of uc config t) (docs_with uc config docs t) (bucket_of buckets t)"
    and b: "assembled config buckets statistics (sort kept) b"
    by (rule built_stages) blast
  have holders: "docs_with uc config docs t \<noteq> []" if "t \<in> set kept" for t
    using that cap(2) stats(1) [of t] by (metis map_of_eq_None_iff option.distinct(1) subsetD)
  then have full: "bucket_of buckets t \<noteq> []" if "t \<in> set kept" for t using that bucket by fastforce
  have terms: "map tw_term (bd_terms b) = sort kept" using b full by (simp add: assembled_def filter_id_conv)
  have "row_exact uc config docs b r" if r: "r \<in> set (bd_terms b)" for r
  proof -
    have "tw_term r \<in> set kept" using r terms by (metis image_eqI set_map set_sort)
    then show ?thesis
      using assembled_exact [of config buckets statistics b r uc docs] b r holders bucket stats(1) nodes
      by (simp add: assembled_def list_all_iff)
  qed
  moreover have "sorted_wrt (<) (sort kept)" using cap(1) by (simp add: strict_sorted_iff)
  moreover have "length statistics = length (remdups (concat (map (doc_terms uc config) docs)))"
    using stats(3) distinct_card [OF stats(2)] by (simp add: length_remdups_card_conv)
  ultimately show ?thesis using terms cap stats(3) by (simp add: list_all_iff Let_def)
qed

lemma built_postings:
  assumes "buildContextLexicon uc docs config = Inr b"
  shows "list_all (\<lambda>r. tw_postingOffset r + tw_postingCount r \<le> length (bd_postings b)) (bd_terms b)"
    "p \<in> set (bd_postings b) \<Longrightarrow> \<exists>d \<in> set docs. po_node p = ld_node d"
proof -
  from assms obtain statistics kept buckets where
    bucket: "\<And>t. t \<in> set kept \<Longrightarrow> list_all2 (posting_of uc config t) (docs_with uc config docs t) (bucket_of buckets t)"
      "\<And>t. t \<notin> set kept \<Longrightarrow> bucket_of buckets t = []"
    and b: "assembled config buckets statistics (sort kept) b"
    by (rule built_stages) blast
  show "list_all (\<lambda>r. tw_postingOffset r + tw_postingCount r \<le> length (bd_postings b)) (bd_terms b)"
    using b by (auto simp: assembled_def row_assembled_def Let_def list_all_iff)
  assume "p \<in> set (bd_postings b)"
  then obtain t where p: "p \<in> set (bucket_of buckets t)" using b by (auto simp: assembled_def)
  then have "t \<in> set kept" using bucket(2) by force
  from bucket(1) [OF this] p obtain d where "d \<in> set (docs_with uc config docs t)" "posting_of uc config t d p"
    unfolding list_all2_conv_all_nth by (metis in_set_conv_nth)
  then show "\<exists>d \<in> set docs. po_node p = ld_node d" by (auto simp: docs_with_def posting_of_def)
qed



lemma lookup_range:
  assumes "sorted_wrt (<) (map tw_term terms)" "0 \<le> low" "high < int (length terms)"
  shows "(let i = lookup_from terms t low high
    in i = - 1 \<and> (\<forall>k < length terms. low \<le> int k \<and> int k \<le> high \<longrightarrow> tw_term (terms ! k) \<noteq> t) \<or>
       low \<le> i \<and> i \<le> high \<and> tw_term (terms ! nat i) = t)"
  using assms
proof (induction terms t low high rule: lookup_from.induct)
  case (1 terms t low high)
  define middle where "middle = (low + high) div 2"
  show ?case
  proof (cases "low \<le> high")
    case True
    then have m: "low \<le> middle" "middle \<le> high" "\<not> (middle < 0 \<or> int (length terms) \<le> middle)"
      using 1(4,5) by (auto simp: middle_def)
    have less: "tw_term (terms ! j) < tw_term (terms ! k)" if "j < k" "k < length terms" for j k
      using sorted_wrt_nth_less [OF 1(3) that(1)] that by simp
    consider "tw_term (terms ! nat middle) = t" | "tw_term (terms ! nat middle) < t" | "t < tw_term (terms ! nat middle)"
      by (metis linorder_cases)
    then show ?thesis
    proof cases
      case 1
      then show ?thesis using True m by (simp add: lookup_from.simps [of terms t low high] middle_def [symmetric] Let_def)
    next
      case 2
      have out: "tw_term (terms ! k) \<noteq> t" if "k < length terms" "int k \<le> middle" for k
        using less [of k "nat middle"] that 2 m(3) by (cases "k = nat middle") force+
      have same: "lookup_from terms t low high = lookup_from terms t (middle + 1) high"
        using True m(3) 2 by (simp add: lookup_from.simps [of terms t low high] middle_def [symmetric] Let_def) auto
      from 1(1) [OF True middle_def m(3) refl] 2 less_imp_neq [OF 2] 1(3-5) m
      consider (none) "lookup_from terms t (middle + 1) (high) = - 1"
          "\<forall>k < length terms. middle + 1 \<le> int k \<and> int k \<le> high \<longrightarrow> tw_term (terms ! k) \<noteq> t"
        | (found) "middle + 1 \<le> lookup_from terms t (middle + 1) (high)" "lookup_from terms t (middle + 1) (high) \<le> high"
          "tw_term (terms ! nat (lookup_from terms t (middle + 1) (high))) = t"
        by (auto simp: Let_def)
      then show ?thesis
      proof cases
        case none
        have "tw_term (terms ! k) \<noteq> t" if "k < length terms" "low \<le> int k" "int k \<le> high" for k
          using none(2) out that by (cases "int k \<le> middle") auto
        then show ?thesis using none(1) same by (simp add: Let_def)
      next
        case found
        then show ?thesis using same m by (simp add: Let_def)
      qed
    next
      case 3
      have out: "tw_term (terms ! k) \<noteq> t" if "k < length terms" "middle \<le> int k" for k
        using less [of "nat middle" k] that 3 m by (cases "k = nat middle") force+
      have same: "lookup_from terms t low high = lookup_from terms t low (middle - 1)"
        using True m(3) 3 by (simp add: lookup_from.simps [of terms t low high] middle_def [symmetric] Let_def) auto
      from 1(2) [OF True middle_def m(3) refl] less_imp_neq [OF 3] order_less_not_sym [OF 3] 1(3-5) m
      consider (none) "lookup_from terms t (low) (middle - 1) = - 1"
          "\<forall>k < length terms. low \<le> int k \<and> int k \<le> middle - 1 \<longrightarrow> tw_term (terms ! k) \<noteq> t"
        | (found) "low \<le> lookup_from terms t (low) (middle - 1)" "lookup_from terms t (low) (middle - 1) \<le> middle - 1"
          "tw_term (terms ! nat (lookup_from terms t (low) (middle - 1))) = t"
        by (auto simp: Let_def)
      then show ?thesis
      proof cases
        case none
        have "tw_term (terms ! k) \<noteq> t" if "k < length terms" "low \<le> int k" "int k \<le> high" for k
          using none(2) out that by (cases "middle \<le> int k") auto
        then show ?thesis using none(1) same by (simp add: Let_def)
      next
        case found
        then show ?thesis using same m by (simp add: Let_def)
      qed
    qed
  qed (auto simp: lookup_from.simps [of terms t low high] Let_def)
qed

text \<open>C17: the binary search of a built dictionary finds the row of every term that is in it, and returns
  minus one for every other.\<close>

theorem built_dictionary_lookup:
  "case buildContextLexicon uc docs config of
     Inr b \<Rightarrow>
       (let i = lookupLexiconTerm (bd_terms b) t
        in if t \<in> set (map tw_term (bd_terms b)) then 0 \<le> i \<and> nat i < length (bd_terms b) \<and> tw_term (bd_terms b ! nat i) = t
           else i = - 1)
   | Inl _ \<Rightarrow> True"
proof (cases "buildContextLexicon uc docs config")
  case (Inr b)
  then have "sorted_wrt (<) (map tw_term (bd_terms b))" using dictionary_exact by (simp add: Let_def)
  note range = lookup_range [OF this, of 0 "int (length (bd_terms b)) - 1" t]
  show ?thesis
  proof (cases "t \<in> set (map tw_term (bd_terms b))")
    case True
    then show ?thesis using range by (auto simp: Inr lookupLexiconTerm_def Let_def in_set_conv_nth)
  next
    case False
    then have "tw_term (bd_terms b ! k) \<noteq> t" if "k < length (bd_terms b)" for k using that by force
    then show ?thesis using range False by (auto simp: Inr lookupLexiconTerm_def Let_def)
  qed
qed simp

end
