(* ===== verification/Index_Total.thy ===== *)
theory Index_Total
  imports Index_Open
begin

text \<open>
  The writer as a gate: it never fails by an exception of its tables, it refuses with one of its own codes,
  and what it accepts is a clean snapshot.
\<close>

subsection \<open>Steps that refuse or succeed\<close>

text \<open>The strict form leaves out the one code that blames the lexicon.\<close>

definition refusing :: "bool \<Rightarrow> 'a outcome \<Rightarrow> bool" where
  "refusing strict r \<longleftrightarrow>
     (case r of Ok _ \<Rightarrow> True | Refuse (writer_refuses e) \<Rightarrow> strict \<longrightarrow> e \<noteq> lexicon_invariant | _ \<Rightarrow> False)"

lemma refusing_Ok [simp, intro]: "refusing strict (Ok x)" by (simp add: refusing_def)

lemma refusing_Refuse [simp]: "refusing strict (Refuse (writer_refuses e)) \<longleftrightarrow> (strict \<longrightarrow> e \<noteq> lexicon_invariant)"
  by (simp add: refusing_def)

lemma refusing_bind:
  "refusing strict r \<Longrightarrow> (\<And>x. r = Ok x \<Longrightarrow> refusing strict (f x)) \<Longrightarrow> refusing strict (bind_outcome r f)"
  by (cases r) (auto simp: refusing_def)

lemma refusing_if [simp]: "refusing strict (refuse_if b e) \<longleftrightarrow> (b \<longrightarrow> strict \<longrightarrow> e \<noteq> lexicon_invariant)"
  by (simp add: refuse_if_def)

lemma refusing_each:
  assumes "I s" "\<And>x s. x \<in> set xs \<Longrightarrow> I s \<Longrightarrow> refusing strict (f x s)"
    "\<And>x s s'. x \<in> set xs \<Longrightarrow> I s \<Longrightarrow> f x s = Ok s' \<Longrightarrow> I s'"
  shows "refusing strict (each_row f xs s)"
  using assms
proof (induction xs arbitrary: s)
  case (Cons a xs)
  have "refusing strict (each_row f xs s')" if "f a s = Ok s'" for s'
  proof (rule Cons.IH)
    show "I s'" by (rule Cons.prems(3) [OF _ Cons.prems(1) that]) simp
    show "refusing strict (f x t)" if "x \<in> set xs" "I t" for x t by (rule Cons.prems(2)) (use that in simp_all)
    show "I t'" if "x \<in> set xs" "I t" "f x t = Ok t'" for x t t'
      by (rule Cons.prems(3) [OF _ that(2,3)]) (use that(1) in simp)
  qed
  then show ?case using Cons.prems(1,2) by (auto intro!: refusing_bind)
qed simp

lemma refusing_map: "(\<And>x. x \<in> set xs \<Longrightarrow> refusing strict (f x)) \<Longrightarrow> refusing strict (map_outcome f xs)"
  by (induction xs) (auto intro!: refusing_bind)

lemma refusing_cells: "refusing strict (contextIndexMetadataCells v)"
  by (cases v) auto

subsection \<open>The first pass\<close>

definition open_interner :: "string_interner \<Rightarrow> bool" where
  "open_interner si \<longleftrightarrow> \<not> si_sealed si"

lemma intern_add_open: "open_interner si \<Longrightarrow> \<exists>si'. intern_add v si = Ok si' \<and> open_interner si'"
  by (simp add: open_interner_def intern_add_def)

lemma intern_option_open: "open_interner si \<Longrightarrow> \<exists>si'. intern_option v si = Ok si' \<and> open_interner si'"
  using intern_add_open by (cases v) (auto simp: intern_option_def)

lemma interned_open: "interner_holds vs si \<Longrightarrow> open_interner si"
  by (simp add: interner_holds_def open_interner_def)

lemma refusing_add: "open_interner si \<Longrightarrow> refusing strict (intern_add v si)"
  using intern_add_open [of si v] by auto

lemma adds_open: "open_interner si \<Longrightarrow> \<exists>si'. each_row (\<lambda>x. intern_add (f x)) xs si = Ok si' \<and> open_interner si'"
proof (induction xs arbitrary: si)
  case (Cons x xs)
  from intern_add_open [OF Cons.prems] obtain si' where "intern_add (f x) si = Ok si'" "open_interner si'" by blast
  with Cons.IH [of si'] show ?case by simp
qed simp

lemma refusing_entry:
  assumes "open_interner si"
  shows "refusing strict (intern_entry e si)" "intern_entry e si = Ok si' \<Longrightarrow> open_interner si'"
proof -
  obtain s1 where s1: "intern_add (fst e) si = Ok s1" "open_interner s1" using intern_add_open [OF assms] by blast
  have adds: "\<exists>s2. each_row (\<lambda>cell. intern_add (mc_text cell)) cells s1 = Ok s2 \<and> open_interner s2" for cells
    using adds_open [OF s1(2)] .
  show "refusing strict (intern_entry e si)"
  proof (cases "contextIndexMetadataCells (snd e)")
    case (Ok cells)
    then show ?thesis using adds [of cells] s1(1) by (auto simp: intern_entry_def)
  qed (use refusing_cells [of strict "snd e"] s1(1) in \<open>auto simp: intern_entry_def refusing_def split: refusal.splits\<close>)
  assume run: "intern_entry e si = Ok si'"
  then obtain cells where "contextIndexMetadataCells (snd e) = Ok cells"
    by (cases "contextIndexMetadataCells (snd e)") (auto simp: intern_entry_def s1(1))
  then show "open_interner si'" using run adds [of cells] by (auto simp: intern_entry_def s1(1))
qed

lemma refusing_node:
  assumes "open_interner si"
  shows "refusing strict (intern_node node si)" "intern_node node si = Ok si' \<Longrightarrow> open_interner si'"
proof -
  obtain s1 where s1: "intern_add (gn_id node) si = Ok s1" "open_interner s1" using intern_add_open [OF assms] by blast
  obtain s2 where s2: "intern_add (gn_label node) s1 = Ok s2" "open_interner s2" using intern_add_open [OF s1(2)] by blast
  obtain s3 where s3: "intern_option (gn_path node) s2 = Ok s3" "open_interner s3" using intern_option_open [OF s2(2)] by blast
  obtain s4 where s4: "intern_option (gn_contentHash node) s3 = Ok s4" "open_interner s4"
    using intern_option_open [OF s3(2)] by blast
  have each: "refusing strict (each_row intern_entry (gn_metadata node) s4)"
    by (rule refusing_each [of open_interner]) (use s4(2) refusing_entry in auto)
  then show "refusing strict (intern_node node si)"
    by (auto simp: intern_node_def s1 s2 s3 s4 intro!: refusing_bind)
  assume "intern_node node si = Ok si'"
  then have "each_row intern_entry (gn_metadata node) s4 = Ok si'"
    by (auto simp: intern_node_def s1 s2 s3 s4)
  then show "open_interner si'"
    by (rule each_row_invariant [of _ _ _ _ open_interner]) (use s4(2) refusing_entry(2) in auto)
qed

lemma refusing_edge:
  assumes "open_interner si"
  shows "refusing strict (intern_edge ids e si)" "intern_edge ids e si = Ok si' \<Longrightarrow> open_interner si'"
proof -
  let ?p = "ge_provenance e"
  obtain s1 where s1: "intern_add (gp_path ?p) si = Ok s1" "open_interner s1" using intern_add_open [OF assms] by blast
  obtain s2 where s2: "intern_add (gp_hash ?p) s1 = Ok s2" "open_interner s2" using intern_add_open [OF s1(2)] by blast
  obtain s3 where s3: "intern_add (gp_extractor ?p) s2 = Ok s3" "open_interner s3" using intern_add_open [OF s2(2)] by blast
  show "refusing strict (intern_edge ids e si)" by (auto simp: intern_edge_def s1 s2 s3 intro!: refusing_bind)
  show "intern_edge ids e si = Ok si' \<Longrightarrow> open_interner si'" using s3(2) by (auto simp: intern_edge_def s1 s2 s3)
qed

lemma refusing_sealed: "refusing strict (sealed_strings input nodes lexical)"
proof -
  have fresh: "open_interner new_interner" by (simp add: open_interner_def new_interner_def)
  have nodes: "refusing strict (each_row intern_node nodes new_interner)"
    by (rule refusing_each [of open_interner, OF fresh]) (use refusing_node in auto)
  have nodes_open: "open_interner s" if "each_row intern_node nodes new_interner = Ok s" for s
    by (rule each_row_invariant [OF that, of open_interner]) (use fresh refusing_node(2) in auto)
  have edges: "refusing strict (each_row (intern_edge ids) es s)" if "open_interner s" for ids es s
    by (rule refusing_each [of open_interner, OF that]) (use refusing_edge in auto)
  have edges_open: "open_interner s'" if "each_row (intern_edge ids) es s = Ok s'" "open_interner s" for ids es s s'
    by (rule each_row_invariant [OF that(1), of open_interner]) (use that(2) refusing_edge(2) in auto)
  have terms: "refusing strict (each_row intern_add ts s)" if "open_interner s" for ts s
    using adds_open [OF that, of id ts] by auto
  show ?thesis unfolding sealed_strings_def
    by (intro refusing_bind nodes edges terms refusing_Ok) (auto intro: nodes_open edges_open)
qed

subsection \<open>The second pass\<close>

text \<open>The lexicon's contract: every term of a lane is among the terms it asks to have interned.\<close>

definition lane_terms_listed :: "lexical_build \<Rightarrow> bool" where
  "lane_terms_listed l \<longleftrightarrow>
     set (map lt_term (lx_terms (lb_lexical l))) \<subseteq> set (lb_terms l) \<and>
     set (map lt_term (lx_terms (lb_coarse l))) \<subseteq> set (lb_terms l)"

text \<open>What the lane encoder checks of a lane.\<close>

definition lane_sound :: "lexicon_result \<Rightarrow> nat \<Rightarrow> bool" where
  "lane_sound built n \<longleftrightarrow>
     sorted_wrt (<) (map lt_term (lx_terms built)) \<and>
     list_all (\<lambda>r. lt_postingOffset r + lt_postingCount r \<le> length (lx_postings built)) (lx_terms built) \<and>
     list_all (\<lambda>p. 0 \<le> p \<and> p < int n) (lx_postings built)"

lemma map_outcome_all: "(\<And>x. x \<in> set xs \<Longrightarrow> \<exists>y. f x = Ok y) \<Longrightarrow> \<exists>ys. map_outcome f xs = Ok ys"
proof (induction xs)
  case (Cons x xs)
  obtain y ys where "f x = Ok y" "map_outcome f xs = Ok ys" using Cons by (metis list.set_intros)
  then show ?case by simp
qed simp

lemma sid_less:
  assumes "sorted (si_table si)" "known si v" "known si w" "v < w"
  shows "sid si v < sid si w"
proof (rule ccontr)
  assume "\<not> sid si v < sid si w"
  then have "sid si w \<le> sid si v" by simp
  moreover have "sid si v < length (si_table si)" "si_table si ! sid si v = v" "si_table si ! sid si w = w"
    using assms(2,3) index_in_nth [of v "si_table si"] index_in_nth [of w "si_table si"] by (auto simp: known_def sid_def)
  ultimately have "w \<le> v" using sorted_nth_mono [OF assms(1), of "sid si w" "sid si v"] by simp
  with assms(4) show False by simp
qed

lemma lane_rows_encode:
  assumes "sorted (si_table si)" "list_all (\<lambda>r. known si (lt_term r)) rows"
    "list_all (\<lambda>r. lt_postingOffset r + lt_postingCount r \<le> length postings) rows"
    "list_all (\<lambda>p. 0 \<le> p \<and> p < int n) postings" "sorted_wrt (<) (map lt_term rows)"
    "runs \<noteq> [] \<Longrightarrow> list_all (\<lambda>r. fst (last runs) < sid si (lt_term r)) rows"
  shows "\<exists>runs'. each_row (lane_row_step (intern_idOf si) postings n) rows runs = Ok runs'"
  using assms(2,3,5,6)
proof (induction rows arbitrary: runs)
  case (Cons r rows)
  have "\<exists>v. lane_posting_node postings n k = Ok v" if "k < lt_postingOffset r + lt_postingCount r" for k
  proof -
    have "k < length postings" using that Cons.prems(2) by simp
    then show ?thesis using assms(4) by (auto simp: lane_posting_node_def list_all_length not_le)
  qed
  then obtain ps where "map_outcome (lane_posting_node postings n)
      [lt_postingOffset r..<lt_postingOffset r + lt_postingCount r] = Ok ps"
    using map_outcome_all [of "[lt_postingOffset r..<lt_postingOffset r + lt_postingCount r]" "lane_posting_node postings n"]
    by fastforce
  then have "lane_row_step (intern_idOf si) postings n r runs = Ok (runs @ [(sid si (lt_term r), ps)])"
    using Cons.prems(1,4) by (auto simp: lane_row_step_def idOf_known refuse_if_def)
  moreover have "list_all (\<lambda>r'. sid si (lt_term r) < sid si (lt_term r')) rows"
    using Cons.prems(1,3) sid_less [OF assms(1)] by (auto simp: list_all_iff)
  ultimately show ?case using Cons.IH [of "runs @ [(sid si (lt_term r), ps)]"] Cons.prems(1-3) by simp
qed simp

lemma refusing_lane:
  assumes "\<And>lrow. lrow \<in> set (lx_terms built) \<Longrightarrow> known si (lt_term lrow)"
    and "strict \<Longrightarrow> lane_sound built n \<and> sorted (si_table si)"
  shows "refusing strict (encodeContextIndexLane built (intern_idOf si) n)"
proof (cases strict)
  case True
  then have "\<exists>runs. each_row (lane_row_step (intern_idOf si) (lx_postings built) n) (lx_terms built) [] = Ok runs"
    using assms by (intro lane_rows_encode) (auto simp: lane_sound_def list_all_iff)
  then show ?thesis by (auto simp: encodeContextIndexLane_def)
next
  case False
  have posting: "refusing False (lane_posting_node ps n k)" for ps k by (simp add: lane_posting_node_def)
  have "refusing False (lane_row_step (intern_idOf si) ps n lrow runs)" if "lrow \<in> set (lx_terms built)" for ps lrow runs
    using assms(1) [OF that] by (auto simp: lane_row_step_def idOf_known intro!: refusing_bind refusing_map posting)
  then have "refusing False (encodeContextIndexLane built (intern_idOf si) n)" unfolding encodeContextIndexLane_def
    by (intro refusing_bind refusing_each [of "\<lambda>_. True"] refusing_Ok) auto
  then show ?thesis using False by simp
qed

lemma refusing_collect:
  assumes sealed: "sealed_strings input nodes lexical = Ok si"
    and l: "\<And>l. lexical = Some l \<Longrightarrow> lane_terms_listed l \<and>
      (strict \<longrightarrow> lane_sound (lb_lexical l) (length nodes) \<and> lane_sound (lb_coarse l) (length nodes))"
  shows "refusing strict (collect_parts input nodes lexical si)"
proof -
  note f = sealed_strings_facts [OF sealed]
  have known: "known si v" if "v \<in> set (written_strings input nodes lexical)" for v
    using that f(5,8) by (simp add: known_def)
  have node: "known si v" if "node \<in> set nodes" "v \<in> set (node_strings node)" for node v
    using that by (intro known) (auto simp: written_strings_def)
  have edge: "known si v" if "e \<in> set (gs_edges (wi_snapshot input))" "v \<in> set (edge_strings e)" for e v
    using that by (intro known) (auto simp: written_strings_def)
  have edges: "refusing strict (each_row (edge_step si ids) (ordered_edges ids (gs_edges (wi_snapshot input))) acc)" for ids acc
  proof (rule refusing_each [of "\<lambda>_. True"])
    fix e acc assume "e \<in> set (ordered_edges ids (gs_edges (wi_snapshot input)))"
    then have "e \<in> set (gs_edges (wi_snapshot input))" by (simp add: ordered_edges_def)
    then have "provenance_known si (ge_provenance e)"
      using edge [of e] by (simp add: provenance_known_def edge_strings_def)
    then have "provenance_row_of si (ge_provenance e) = Ok (provenance_of si (ge_provenance e))"
      by (simp add: provenance_row_Ok)
    then show "refusing strict (edge_step si ids e acc)" by (simp add: edge_step_def Let_def split: prod.split)
  qed auto
  have sentinel: "refusing strict (idOrSentinel si v)" if "\<forall>s. v = Some s \<longrightarrow> known si s" for v
    using that by (auto simp: idOrSentinel_def idOf_known split: option.splits)
  have entry: "refusing strict (metadata_entry_rows si i e acc)"
    if "nd \<in> set nodes" "e \<in> set (gn_metadata nd)" for nd e i acc
  proof -
    have key: "known si (fst e)" and cell: "known si (mc_text c)" if "c \<in> set (cells_of (snd e))" for c
      using node [OF \<open>nd \<in> set nodes\<close>] \<open>e \<in> set (gn_metadata nd)\<close> that
      by (auto simp: node_strings_def entry_strings_def)
    have "known si (fst e)"
      using node [OF that(1), of "fst e"] that(2) by (auto simp: node_strings_def entry_strings_def)
    then show ?thesis unfolding metadata_entry_rows_def
      by (intro refusing_bind refusing_cells refusing_each [of "\<lambda>_. True"])
        (use cell in \<open>auto simp: cells_of_def idOf_known\<close>)
  qed
  have nodes: "refusing strict (each_row (node_step input si) (enumerate 0 nodes) acc)" for acc
  proof (rule refusing_each [of "\<lambda>_. True"])
    fix x acc assume "x \<in> set (enumerate 0 nodes)"
    then have nd: "snd x \<in> set nodes" by (auto simp: in_set_enumerate_eq) (metis nth_mem)
    have "known si (gn_label (snd x))" "known si (gn_id (snd x))"
      "\<forall>s. gn_path (snd x) = Some s \<longrightarrow> known si s" "\<forall>s. gn_contentHash (snd x) = Some s \<longrightarrow> known si s"
      using node [OF nd] by (auto simp: node_strings_def option_strings_def)
    moreover have "refusing strict (each_row (metadata_entry_rows si (fst x)) (gn_metadata (snd x)) acc')" for acc'
      by (rule refusing_each [of "\<lambda>_. True"]) (use entry [OF nd] in auto)
    ultimately show "refusing strict (node_step input si x acc)"
      by (auto simp: node_step_def Let_def idOf_known intro!: refusing_bind sentinel)
  qed auto
  have exact: "refusing strict (map_outcome (\<lambda>entry. bind_outcome (intern_idOf si (gn_id (snd entry))) (\<lambda>i. Ok (i, fst entry)))
      (enumerate 0 nodes))"
  proof (rule refusing_map)
    fix x assume "x \<in> set (enumerate 0 nodes)"
    then have "snd x \<in> set nodes" by (auto simp: in_set_enumerate_eq) (metis nth_mem)
    then have "known si (gn_id (snd x))" using node by (simp add: node_strings_def)
    then show "refusing strict (bind_outcome (intern_idOf si (gn_id (snd x))) (\<lambda>i. Ok (i, fst x)))" by (simp add: idOf_known)
  qed
  have paths: "refusing strict (map_outcome (path_entry si ids) nodes)" for ids
    using node by (intro refusing_map)
      (force simp: path_entry_def idOf_known node_strings_def option_strings_def split: option.splits)
  have pairs: "refusing strict (map_outcome (optional_pair si gn_path gn_contentHash) nodes)"
    using node by (intro refusing_map)
      (force simp: optional_pair_def idOf_known node_strings_def option_strings_def split: option.splits)
  have lanes: "refusing strict (lane_table si (length nodes) lb_lexical lexical)"
    "refusing strict (lane_table si (length nodes) lb_coarse lexical)"
  proof -
    have "known si (lt_term lrow)" if "lexical = Some k" "lrow \<in> set (lx_terms (lb_lexical k)) \<union> set (lx_terms (lb_coarse k))" for k lrow
      using l [OF that(1)] that by (intro known) (auto simp: written_strings_def lane_terms_listed_def)
    then show "refusing strict (lane_table si (length nodes) lb_lexical lexical)"
      "refusing strict (lane_table si (length nodes) lb_coarse lexical)"
      using l f(6) by (auto simp: lane_table_def intro!: refusing_lane split: option.splits)
  qed
  show ?thesis unfolding collect_parts_def Let_def
    by (auto intro!: refusing_bind edges nodes exact paths pairs lanes)
qed

subsection \<open>The gate\<close>

lemma writer_refusing:
  assumes "\<And>l. lexical_of input = Some l \<Longrightarrow> lane_terms_listed l \<and>
    (strict \<longrightarrow> lane_sound (lb_lexical l) (length (sorted_nodes input)) \<and> lane_sound (lb_coarse l) (length (sorted_nodes input)))"
  shows "refusing strict (encodeContextIndex input)"
proof -
  have unique: "refusing strict (each_row unique_id nodes seen)" for nodes seen
    by (rule refusing_each [of "\<lambda>_. True"]) (auto simp: unique_id_def intro!: refusing_bind)
  have parts: "refusing strict (index_parts_of input)"
    unfolding index_parts_of_def Let_def sorted_nodes_def [symmetric] lexical_of_def [symmetric]
    using assms by (auto intro!: refusing_bind unique refusing_sealed refusing_collect split: option.splits)
  show ?thesis unfolding encodeContextIndex_def
  proof (rule refusing_bind [OF parts])
    fix ix assume ix: "index_parts_of input = Ok ix"
    from index_parts_facts [OF ix] obtain si where
      si: "sealed_strings input (sorted_nodes input) (lexical_of input) = Ok si"
        "collected input (sorted_nodes input) (lexical_of input) si ix" by blast
    have "si_sealed (ix_strings ix)"
      using sealed_strings_facts(5) [OF si(1)] si(2) by (simp add: collected_def Let_def)
    moreover have "set CONTEXT_INDEX_REQUIRED_SECTIONS \<subseteq> dom (payload_map ix s)" for s
      by (auto simp: payload_map_at dest!: required_kind)
    then have "\<exists>bs. assemble (payload_map ix s) ac = Ok bs" for s ac by (simp add: assemble_eq)
    ultimately show "refusing strict (bind_outcome (intern_encode (ix_strings ix))
        (\<lambda>strings. assemble (payload_map ix strings) (parts_counts input ix)))"
      by (simp add: intern_encode_def Let_def) (metis refusing_Ok)
  qed
qed



text \<open>A snapshot the index may hold.\<close>

definition clean_snapshot :: "write_input \<Rightarrow> bool" where
  "clean_snapshot input \<longleftrightarrow>
     (let s = wi_snapshot input; ids = map gn_id (gs_nodes s)
      in wi_lintErrors input = 0 \<and> length (gs_nodes s) \<le> maxNodeCount \<and> length (gs_edges s) \<le> maxEdgeCount \<and>
         distinct ids \<and> list_all node_coded (gs_nodes s) \<and>
         list_all (\<lambda>node. case gn_path node of None \<Rightarrow> True | Some p \<Rightarrow> writerRelativePath p) (gs_nodes s) \<and>
         list_all (edge_coded ids) (gs_edges s) \<and>
         list_all (\<lambda>e. writerRelativePath (gp_path (ge_provenance e))) (gs_edges s))"


end
