(* ===== verification/Lexicon_Written.thy ===== *)
theory Lexicon_Written
  imports Lexicon_Lanes Lexicon_Postings Index_Total
begin

text \<open>
  The lexicon and the writer together: the lanes a build returns are lanes the writer can encode, so a
  snapshot is never refused because of its lexicon.
\<close>

lemma document_nodes:
  "map ld_node (contextLexicalDocuments nodes) = map int [0..<length nodes]"
  "map ld_node (contextCoarseDocuments nodes) = map int [0..<length nodes]"
proof -
  have "map (\<lambda>e. int (fst e)) (enumerate 0 nodes) = map int (map fst (enumerate 0 nodes))"
    by (simp only: map_map o_def)
  also have "\<dots> = map int [0..<length nodes]" by (simp only: map_fst_enumerate add_0)
  finally have "map (\<lambda>e. int (fst e)) (enumerate 0 nodes) = map int [0..<length nodes]" .
  then show "map ld_node (contextLexicalDocuments nodes) = map int [0..<length nodes]"
    "map ld_node (contextCoarseDocuments nodes) = map int [0..<length nodes]"
    by (simp_all add: contextLexicalDocuments_def contextCoarseDocuments_def lexical_document_def Let_def o_def split_def)
qed

lemma corpus_nodes:
  assumes "map ld_node docs = map int [0..<n]" "d \<in> set docs"
  shows "0 \<le> ld_node d \<and> ld_node d < int n"
proof -
  have "ld_node d \<in> set (map int [0..<n])" using assms by (metis image_eqI set_map)
  then show ?thesis by auto
qed

text \<open>Every posting of a build lies in the run of one of its rows.\<close>

lemma built_lane_sound:
  assumes "buildContextLexicon uc docs config = Inr b" "map ld_node docs = map int [0..<n]"
  shows "lane_sound (lane_view b) n"
proof -
  have "sorted_wrt (<) (map tw_term (bd_terms b))" using dictionary_exact [OF assms(1)] by (simp add: Let_def)
  moreover have "0 \<le> po_node p \<and> po_node p < int n" if "p \<in> set (bd_postings b)" for p
    using built_postings(2) [OF assms(1) that] corpus_nodes [OF assms(2)] by auto
  ultimately show ?thesis
    using built_postings(1) [OF assms(1)] by (simp add: lane_sound_def lane_view_def list_all_iff o_def)
qed

lemma built_terms_listed:
  assumes "buildContextIndexLexical uc nodes config = Inr c"
  shows "lane_terms_listed (lexical_view c)"
  using assms by (auto simp: buildContextIndexLexical_def lane_terms_listed_def lexical_view_def lane_view_def)

text \<open>C15: with the lexicon the program builds, whatever the snapshot, the writer returns bytes or refuses the
  snapshot for a reason of its own: never because a term is missing from its strings, because the terms are
  not in the order of their identifiers, or because a posting is outside its run or its graph.\<close>

theorem built_lexicon_is_written:
  "case buildContextIndexLexical uc (sorted_nodes input) config of
     Inr c \<Rightarrow>
       (case encodeContextIndex (input\<lparr>wi_lexicon := Some (\<lambda>nodes. lexical_view c)\<rparr>) of
          Ok bs \<Rightarrow> True
        | Refuse (writer_refuses e) \<Rightarrow> e \<noteq> lexicon_invariant
        | _ \<Rightarrow> False)
   | Inl _ \<Rightarrow> True"
proof (cases "buildContextIndexLexical uc (sorted_nodes input) config")
  case (Inr c)
  let ?input = "input\<lparr>wi_lexicon := Some (\<lambda>nodes. lexical_view c)\<rparr>"
  have nodes: "sorted_nodes ?input = sorted_nodes input" by (simp add: sorted_nodes_def)
  obtain lex coarse where "buildContextLexicon uc (contextLexicalDocuments (sorted_nodes input)) config = Inr lex"
    "buildContextLexicon uc (contextCoarseDocuments (sorted_nodes input)) config = Inr coarse"
    "xl_lexical c = lex" "xl_coarse c = coarse"
    using Inr by (auto simp: buildContextIndexLexical_def)
  then have "lane_sound (lb_lexical (lexical_view c)) (length (sorted_nodes input))"
    "lane_sound (lb_coarse (lexical_view c)) (length (sorted_nodes input))"
    using built_lane_sound document_nodes by (auto simp: lexical_view_def)
  then have "refusing True (encodeContextIndex ?input)"
    using built_terms_listed [OF Inr] by (intro writer_refusing) (auto simp: nodes lexical_of_def)
  then show ?thesis by (auto simp: Inr refusing_def split: outcome.splits refusal.splits)
qed simp

end
