(* ===== verification/Spec2Isabelle.thy ===== *)
theory Spec2Isabelle
  imports Kernel_Guarantees Index_Roundtrip Index_Guards Lexicon_Terms Lexicon_Written
begin

text \<open>
Sneakoscope Codex (sks): the retrieval kernel of the TriWiki context graph and its binary index.

\<^bold>\<open>The program.\<close>  The context graph is a snapshot of a workspace: nodes (files, symbols, tests, gates,
decisions, ...) and typed edges with provenance.  Two parts of it are modelled, both under
\<open>src/src/core/triwiki/context-graph/\<close>.
\<^item> The \<^emph>\<open>runtime index\<close> (\<open>runtime-index/\<close>) is the compiled snapshot: a file of twenty checksummed sections
  (string table, node and edge rows, two CSR adjacency lists, posting lists, provenance, metadata).  The
  writer \<open>encodeContextIndex\<close> makes it, \<open>openContextIndex\<close> checks it once and returns a reader.
\<^item> The \<^emph>\<open>retrieval kernel\<close> (\<open>query/kernel*.ts\<close>) answers a request from a reader, without decoding nodes:
  \<open>resolveQueryPlan\<close>, then the anchor, lexical and coarse lanes, then the safety closure and the relevance
  traversal, then the fusion of the lanes and the bounded selection, all over one candidate table.

\<^bold>\<open>Theories and code.\<close>  Names are the code's wherever HOL allows it.
\<^item> \<open>Prelude\<close>, \<open>Js_Number\<close>: shared lemmas; JavaScript numbers as rationals rounded to 53 bits (\<open>fl\<close>),
  \<open>Math.round\<close>, the fixed-point conversions of \<open>format-primitives.ts\<close>.
\<^item> \<open>Graph_Contracts\<close>, \<open>Kernel_Types\<close>, \<open>Ranking_Config\<close>: the enums and profiles of \<open>contracts.ts\<close> and
  \<open>profiles.ts\<close>, the vocabulary of \<open>kernel-types.ts\<close>, the constants of \<open>ranking-config.ts\<close>.
\<^item> \<open>Priority_Interface\<close>, \<open>Binary_Heap\<close>, \<open>Traversal_Frontier\<close>, \<open>Ranked_Collectors\<close>: the frontier of
  \<open>kernel-frontier.ts\<close> and the bounded heaps of \<open>kernel-fuse.ts\<close> and \<open>kernel-traverse.ts\<close>.
\<^item> \<open>Candidate_Table\<close>, \<open>Kernel_Plan\<close>, \<open>Kernel_Lanes\<close>, \<open>Kernel_Safety\<close>, \<open>Kernel_Traverse\<close>,
  \<open>Kernel_Fuse\<close>, \<open>Kernel_Select\<close>, \<open>Context_Kernel\<close>: one theory per file \<open>kernel-*.ts\<close> and their composition
  \<open>runContextKernel\<close>.  \<open>Kernel_Guarantees\<close> holds what the stages guarantee together.
\<^item> \<open>Index_Bytes\<close>, \<open>Index_Format\<close>, \<open>Index_Layout\<close>, \<open>Index_Validate\<close>: byte access with its range errors, header and
  section table (\<open>format-*.ts\<close>), the payload checks and the geometry (\<open>format-sections.ts\<close>,
  \<open>reader-validate.ts\<close>, \<open>reader-layout.ts\<close>), \<open>openContextIndex\<close>.
\<^item> \<open>Index_Reader\<close>, \<open>Index_Lookup\<close>, \<open>Index_Names\<close>, \<open>Index_Hydrate\<close>, \<open>Index_Search\<close>, \<open>Index_Guards\<close>: cursors, posting
  lookup, name probe, hydration and the methods of the reader class
  (\<open>reader-cursor.ts\<close>, \<open>reader-lookup.ts\<close>, \<open>reader-names.ts\<close>, \<open>reader-hydrate.ts\<close>, \<open>reader.ts\<close>).
\<^item> \<open>Index_Strings\<close>, \<open>Index_Tables\<close>, \<open>Index_Writer\<close>: the interner, the table builders and the writer
  (\<open>writer-tables.ts\<close>, \<open>writer-contract.ts\<close>, \<open>writer-lexical.ts\<close>, \<open>writer.ts\<close>, \<open>writer-assemble.ts\<close>).
\<^item> \<open>Lexicon_Text\<close>, \<open>Lexicon_Tokenizer\<close>, \<open>Lexicon_Scoring\<close>, \<open>Lexicon_Builder\<close>: the lexicon
  (\<open>lexicon-contract.ts\<close>, \<open>lexicon-text.ts\<close>, \<open>lexicon-tokenizer.ts\<close>, \<open>lexicon-bm25.ts\<close>,
  \<open>lexicon-builder.ts\<close>); \<open>Lexicon_Lanes\<close>: the lanes of \<open>writer-lexical.ts\<close>; \<open>Lexicon_Safety\<close>, \<open>Lexicon_Terms\<close>, \<open>Lexicon_Corpus\<close>,
  \<open>Lexicon_Postings\<close>, \<open>Lexicon_Written\<close> hold what it promises.
\<^item> \<open>Index_Accept\<close>, \<open>Index_Round\<close>, \<open>Index_Collect\<close>, \<open>Index_Parts\<close>, \<open>Index_Sealed\<close>, \<open>Index_Open\<close>,
  \<open>Index_Readback\<close>, \<open>Index_Roundtrip\<close>, \<open>Index_Total\<close>: no code of their own; the proof that what the writer
  collects satisfies every check of the reader and is read back.

\<^bold>\<open>State and errors.\<close>  A class is a record and a method a function that returns it changed; the parallel typed
arrays of the candidate table are one list of row records.  The kernel never throws; its stages thread
\<open>kernel_state\<close> (table, omissions, warnings, clock readings).  The index code returns an \<open>outcome\<close>: a
value, a rejection with a code of \<open>reader-errors.ts\<close>, a refusal with a code of the writer, or an error of
the platform (a range error of a view, a type error of the text decoder).  The clock is a function
of the number of readings.  Strings of the kernel's plan are character lists; strings of the index are lists of
UTF-16 code units, with the platform's UTF-8 encoder and fatal decoder written out.

\<^bold>\<open>What the lemmas show.\<close>
\<^item> Kernel: the stages preserve the table and state invariants and only grow the state (\<open>Invariant_Order\<close>);
  caps, budgets, ordering and deduplication hold over a whole run; the safety closure is complete unless it
  reports a cap; the bounded collectors equal the head of a full sort; the frontier refines a priority bag.
\<^item> Index reader: what \<open>openContextIndex\<close> accepts satisfies \<open>index_ok\<close>, and under it no cursor, posting,
  name or field read leaves the buffer, every enum code is known, and each method has its plain meaning.
\<^item> Index writer: it returns bytes or refuses with its own codes, what it accepts is clean, its file opens,
  and nodes, metadata and adjacency are read back as they were in the snapshot.
\<^item> Lexicon: redaction leaves no machine path, no key-like or oversized token reaches the dictionary from a
  run of its own, segments partition an identifier, a query meets every document of the same text, and the
  dictionary lists exactly the documents that hold a term, up to its caps; the writer takes every built
  lexicon.

\<^bold>\<open>Bounds and fuel.\<close>  The closure loop takes as fuel the number of node slots, since a node is queued once; the
traversal and the binary searches are total by measures.  The round trips of the index are stated
for files up to \<open>2 ^ 29\<close> bytes, under which every 32-bit cell of the format holds its value, and for
strings without lone surrogates or a leading byte order mark, which UTF-8 with the platform's decoder does
not carry.

\<^bold>\<open>Parameters.\<close>  The kernel and the writer take the lexicon as an argument (the query normaliser, the built
lanes), as the code takes it from another module; lower casing and NFKC are arguments of the tokenizer;
the text of a number (\<open>String(n)\<close>) in metadata and the digest of the snapshot are arguments as well.
The kernel's reader is a record of the functions it calls.

\<^bold>\<open>Not modelled.\<close>  The compiler from sources to snapshots, the generation
store with its journals and locks, the v1 query engine, and the rest of the tool (command line,
agents, hooks, installation), which is input and output around them.
\<close>

text \<open>C5: the answer never costs more than the resolved token budget, its cost is the sum of the costs of
  the nodes returned, and at most 64 nodes are returned.\<close>

theorem run_within_budget:
  "let r = runContextKernel tokenizer reader request options in
     kr_tokenCost r = sum_list (map sc_tokenCost (kr_selected r)) \<and>
     kr_tokenCost r \<le> pl_tokenBudget (kr_plan r) \<and> length (kr_selected r) \<le> 64"
proof -
  let ?r = "runContextKernel tokenizer reader request options"
  let ?k = "kernel_run_of tokenizer reader request options"
  obtain om ws where p: "resolveQueryPlan tokenizer reader request (ko_config options)
      (ko_kernelConfig options) (ko_clock options) = (st_px ?k, om, ws)" using run_stages(12) by blast
  have "sum_list (map sc_tokenCost (kr_selected ?r)) =
      sum_list (map (costOf (st_px ?k) (ks_table (st_walked ?k))) (chosen_slots ?k))"
    unfolding selection_of_run(1)
    by (simp add: sum_mset_sum_list [symmetric] present_def Let_def comp_def image_mset.compositionality)
  then show ?thesis
    using selection_of_run(2,3,5) [of tokenizer reader request options] plan_facts(4) [OF p]
    by (simp add: Let_def run_result(2) selection_of_run(1))
qed

text \<open>C3: every node of an answer is groundable and none is invalidated, by the flags the index holds for it.\<close>

theorem run_answer_is_grounded:
  "filter (\<lambda>s. \<not> (hasFlag (rd_nodeFlags reader (cc_node (sc_candidate s))) NODE_GROUNDABLE \<and>
                 \<not> hasFlag (rd_nodeFlags reader (cc_node (sc_candidate s))) NODE_INVALIDATED))
     (kr_selected (runContextKernel tokenizer reader request options)) = []"
proof -
  let ?k = "kernel_run_of tokenizer reader request options"
  let ?t = "ks_table (st_walked ?k)"
  note stages = run_stages [where tokenizer = tokenizer and reader = reader and request = request and options = options]
  have "c_nodeFlags (row ?t slot) = rd_nodeFlags reader (c_node (row ?t slot))"
    if "slot < ct_size ?t" for slot
    using stages(4) that by (simp add: kernel_inv_def table_inv_def row_inv_def)
  then show ?thesis
    using chosen_admissible [of tokenizer reader request options]
    by (fastforce simp: filter_empty_conv selection_of_run(1) present_def Let_def admissible_def
        exclusion_of_def split: if_splits)
qed

text \<open>C26: when the request names usable focus paths, every node of the answer carries the focus mark.\<close>

theorem run_answer_respects_focus:
  "filter (\<lambda>s. px_focusPaths (st_px (kernel_run_of tokenizer reader request options)) \<noteq> [] \<and>
               \<not> hasFlag (cc_flags (sc_candidate s)) FOCUS)
     (kr_selected (runContextKernel tokenizer reader request options)) = []"
  using chosen_admissible [of tokenizer reader request options]
  by (fastforce simp: filter_empty_conv selection_of_run(1) present_def Let_def admissible_def
      exclusion_of_def has_def split: if_splits)

text \<open>C4: a node is presented with an exact-family confidence only when the anchor lane claimed it.\<close>

theorem run_exact_only_from_anchor:
  "filter (\<lambda>s. isExactKernelConfidence (sc_confidence s) \<and> sc_lane s \<noteq> L_anchor)
     (kr_selected (runContextKernel tokenizer reader request options)) = []"
proof -
  let ?k = "kernel_run_of tokenizer reader request options"
  have "table_inv reader (ks_table (st_walked ?k))"
    using run_stages(4) by (simp add: kernel_inv_def)
  then show ?thesis
    using chosen_admissible [of tokenizer reader request options] exact_only_from_anchor
    by (fastforce simp: filter_empty_conv selection_of_run(1) present_def Let_def admissible_def)
qed

text \<open>C24: the answer is sorted by fused score, then node number, and no node appears twice.\<close>

theorem run_answer_order:
  "let xs = kr_selected (runContextKernel tokenizer reader request options) in
     sorted (map presentation_rank xs) \<and> distinct (map (\<lambda>s. cc_node (sc_candidate s)) xs)"
proof -
  let ?k = "kernel_run_of tokenizer reader request options"
  let ?t = "ks_table (st_walked ?k)"
  have t: "table_inv reader ?t" using run_stages(4) by (simp add: kernel_inv_def)
  have "inj_on (\<lambda>s. c_node (row ?t s)) (set (chosen_slots ?k))"
    by (rule inj_on_subset [OF node_inj [OF t] subset_trans [OF chosen_admissible]])
      (auto simp: admissible_set)
  then have "distinct (map (\<lambda>s. c_node (row ?t s)) (chosen_slots ?k))"
    using selection_of_run(4) by (simp add: distinct_map)
  then have "distinct (map (\<lambda>s. cc_node (sc_candidate s))
      (map (present (st_px ?k) ?t (st_fusion ?k)) (chosen_slots ?k)))"
    by (simp add: comp_def present_def Let_def)
  moreover have "distinct (map f (sort_key g ys)) = distinct (map f ys)" for f :: "selected_candidate \<Rightarrow> int" and g :: "selected_candidate \<Rightarrow> int \<times> int" and ys
    by (metis mset_eq_imp_distinct_iff mset_map mset_sort)
  ultimately show ?thesis by (simp add: Let_def selection_of_run(1))
qed


lemma insort_key_map: "insort_key f (g x) (map g xs) = map g (insort_key (\<lambda>y. f (g y)) x xs)"
  by (induction xs) auto

lemma sort_key_map: "sort_key f (map g xs) = map g (sort_key (\<lambda>y. f (g y)) xs)"
  by (induction xs) (simp_all add: insort_key_map)



text \<open>C23: the safety closure of a run always ends with its queue exhausted or its deadline passed: the
  fuel of the loop is never what stops it.\<close>

theorem run_closure_terminates:
  "\<not> closure_continues (closure_run reader (st_px (kernel_run_of tokenizer reader request options))
       (st_named (kernel_run_of tokenizer reader request options)))"
  using closure_run_inv(3) run_stages(2) by blast

end
